(* ===== verification/Por_Prelude.thy ===== *)
theory Por_Prelude
  imports Main "HOL-Library.Word"
begin

text \<open>
  Shared ground of the development: \<^verbatim>\<open>std::map\<close> as a key-sorted association list
  with the laws its clients use (locale \<open>ordered_map\<close>, interpreted on the sorted lists),
  find-and-replace on vectors, and the relation-closure facts that the causality proofs need.

  An abort (a failing \<^verbatim>\<open>assert\<close>, a null dereference, an \<^verbatim>\<open>at()\<close> on a missing key)
  is the value \<open>None\<close> of an option throughout the development.
\<close>

named_theorems map_laws \<open>lookups after updates of the ordered maps\<close>
named_theorems assert_simps \<open>unfolding of the constructor assertions\<close>

section \<open>Ordered maps\<close>

type_synonym ('k, 'v) smap = "('k \<times> 'v) list"

primrec smap_put :: "'k::linorder \<Rightarrow> 'v \<Rightarrow> ('k, 'v) smap \<Rightarrow> ('k, 'v) smap" where
  "smap_put k v [] = [(k, v)]"
| "smap_put k v (e # m) =
     (if k < fst e then (k, v) # e # m
      else if fst e < k then e # smap_put k v m
      else (k, v) # m)"

definition smap_erase :: "'k \<Rightarrow> ('k, 'v) smap \<Rightarrow> ('k, 'v) smap" where
  "smap_erase k m = filter (\<lambda>e. fst e \<noteq> k) m"

definition smap_has :: "'k \<Rightarrow> ('k, 'v) smap \<Rightarrow> bool" where
  "smap_has k m \<longleftrightarrow> map_of m k \<noteq> None"

definition smap_ok :: "('k::linorder, 'v) smap \<Rightarrow> bool" where
  "smap_ok m \<longleftrightarrow> sorted_wrt (<) (map fst m)"

lemma smap_ok_Nil [simp]: "smap_ok []"
  by (simp add: smap_ok_def)

lemma smap_ok_Cons: "smap_ok (e # m) \<longleftrightarrow> (\<forall>f \<in> set m. fst e < fst f) \<and> smap_ok m"
  by (auto simp: smap_ok_def)

lemma smap_ok_distinct: "smap_ok m \<Longrightarrow> distinct (map fst m)"
  unfolding smap_ok_def by (simp add: strict_sorted_iff)

lemma map_of_smap_put [map_laws]: "smap_ok m \<Longrightarrow> map_of (smap_put k v m) = (map_of m)(k \<mapsto> v)"
proof (induction m)
  case (Cons e m)
  have "map_of m k = None" if "k < fst e"
    using Cons.prems that unfolding smap_ok_Cons map_of_eq_None_iff by fastforce
  moreover have "map_of m k = None" if "k = fst e"
    using Cons.prems that unfolding smap_ok_Cons map_of_eq_None_iff by fastforce
  ultimately show ?case
    using Cons by (cases e) (auto simp: smap_ok_Cons fun_eq_iff)
qed simp

lemma set_smap_put: "set (smap_put k v m) \<subseteq> insert (k, v) (set m)"
  by (induction m) auto

lemma smap_ok_put [simp, intro]: "smap_ok m \<Longrightarrow> smap_ok (smap_put k v m)"
proof (induction m)
  case (Cons e m)
  then show ?case
    using set_smap_put [of k v m] by (auto simp: smap_ok_Cons)
qed (simp add: smap_ok_Cons)

lemma map_of_smap_erase [map_laws]: "map_of (smap_erase k m) = (map_of m)(k := None)"
  unfolding smap_erase_def by (induction m) (auto simp: fun_eq_iff)

lemma smap_ok_erase [simp, intro]: "smap_ok m \<Longrightarrow> smap_ok (smap_erase k m)"
  unfolding smap_erase_def by (induction m) (auto simp: smap_ok_Cons)

lemma smap_put_nonempty [simp]: "smap_put k v m \<noteq> []"
  by (induction m) auto

text \<open>
  Two key-sorted lists with the same lookups are equal: the comparison \<^verbatim>\<open>operator==\<close> of
  two \<^verbatim>\<open>std::map\<close>s is extensional.
\<close>

lemma smap_ext:
  assumes "smap_ok m" "smap_ok n" "map_of m = map_of n"
  shows "m = n"
proof -
  have keys: "set (map fst m) = set (map fst n)"
    using assms(3) by (metis dom_map_of_conv_image_fst list.set_map)
  then have "map fst m = map fst n"
    using assms(1,2) unfolding smap_ok_def
    by (metis strict_sorted_equal)
  moreover have "map snd m = map snd n"
  proof (rule nth_equalityI)
    show "length (map snd m) = length (map snd n)"
      using \<open>map fst m = map fst n\<close> by (metis length_map)
  next
    fix i assume i: "i < length (map snd m)"
    then have i': "i < length n"
      using \<open>map fst m = map fst n\<close> by (metis length_map)
    have "map_of m (fst (m ! i)) = Some (snd (m ! i))"
      using i smap_ok_distinct [OF assms(1)] by (simp add: map_of_is_SomeI)
    moreover have "map_of n (fst (n ! i)) = Some (snd (n ! i))"
      using i' smap_ok_distinct [OF assms(2)] by (simp add: map_of_is_SomeI)
    moreover have "fst (m ! i) = fst (n ! i)"
      using \<open>map fst m = map fst n\<close> i i' by (metis length_map nth_map)
    ultimately show "map snd m ! i = map snd n ! i"
      using assms(3) i i' by simp
  qed
  ultimately show ?thesis
    by (metis zip_map_fst_snd)
qed

text \<open>
  The contract that the clients (cones, thread heads, lock heads) rely on: what a lookup
  returns after an update, and that the updates keep the representation invariant.
\<close>

locale ordered_map =
  fixes put :: "'k \<Rightarrow> 'v \<Rightarrow> 'm \<Rightarrow> 'm"
    and erase :: "'k \<Rightarrow> 'm \<Rightarrow> 'm"
    and find :: "'m \<Rightarrow> 'k \<Rightarrow> 'v option"
    and ok :: "'m \<Rightarrow> bool"
  assumes find_put: "ok m \<Longrightarrow> find (put k v m) = (find m)(k \<mapsto> v)"
    and find_erase: "ok m \<Longrightarrow> find (erase k m) = (find m)(k := None)"
    and ok_put: "ok m \<Longrightarrow> ok (put k v m)"
    and ok_erase: "ok m \<Longrightarrow> ok (erase k m)"
    and ext: "ok m \<Longrightarrow> ok n \<Longrightarrow> find m = find n \<Longrightarrow> m = n"
begin

lemma put_put: "ok m \<Longrightarrow> put k w (put k v m) = put k w m"
  by (rule ext) (auto simp: find_put ok_put)

lemma put_commute: "ok m \<Longrightarrow> k \<noteq> l \<Longrightarrow> put k v (put l w m) = put l w (put k v m)"
  by (rule ext) (auto simp: find_put ok_put fun_upd_twist)

lemma put_present: "ok m \<Longrightarrow> find m k = Some v \<Longrightarrow> put k v m = m"
  by (rule ext) (auto simp: find_put ok_put)

lemma erase_put: "ok m \<Longrightarrow> find m k = None \<Longrightarrow> erase k (put k v m) = m"
  by (rule ext) (auto simp: find_put find_erase ok_put ok_erase)

lemma ok_fold_put: "ok m \<Longrightarrow> (\<And>x n. ok n \<Longrightarrow> ok (f x n)) \<Longrightarrow> ok (fold f xs m)"
  by (induction xs arbitrary: m) auto

end

interpretation smap: ordered_map smap_put smap_erase map_of smap_ok
  by unfold_locales (auto simp: map_laws intro: smap_ext)

section \<open>Vectors\<close>

text \<open>\<^verbatim>\<open>*std::find(v.begin(), v.end(), x) = y\<close>; dereferencing the end iterator aborts.\<close>

primrec replace_first :: "'a \<Rightarrow> 'a \<Rightarrow> 'a list \<Rightarrow> 'a list option" where
  "replace_first x y [] = None"
| "replace_first x y (z # zs) =
     (if z = x then Some (y # zs) else map_option (Cons z) (replace_first x y zs))"

lemma replace_first_Some_iff: "(\<exists>ys. replace_first x y zs = Some ys) \<longleftrightarrow> x \<in> set zs"
  by (induction zs) auto

lemma set_replace_first: "replace_first x y zs = Some ys \<Longrightarrow> set ys \<subseteq> insert y (set zs)"
  by (induction zs arbitrary: ys) (auto split: if_splits)

section \<open>Loops that may abort\<close>

text \<open>A range-based \<^verbatim>\<open>for\<close> loop whose body may abort.\<close>

primrec foldM :: "('a \<Rightarrow> 's \<Rightarrow> 's option) \<Rightarrow> 'a list \<Rightarrow> 's \<Rightarrow> 's option" where
  "foldM f [] s = Some s"
| "foldM f (x # xs) s = Option.bind (f x s) (foldM f xs)"

lemma foldM_append: "foldM f (xs @ ys) s = Option.bind (foldM f xs s) (foldM f ys)"
  by (induction xs arbitrary: s) (auto split: bind_splits)

text \<open>A loop keeps an invariant indexed by the elements already processed, and does not abort.\<close>

lemma foldM_invariant:
  assumes "I [] s" and "\<And>ys x zs t. xs = ys @ x # zs \<Longrightarrow> I ys t \<Longrightarrow> \<exists>t'. f x t = Some t' \<and> I (ys @ [x]) t'"
  shows "\<exists>t. foldM f xs s = Some t \<and> I xs t"
proof -
  have "\<exists>t. foldM f zs u = Some t \<and> I xs t" if "xs = ys @ zs" "I ys u" for ys zs u
    using that
  proof (induction zs arbitrary: ys u)
    case (Cons x zs)
    then obtain u' where "f x u = Some u'" "I (ys @ [x]) u'" using assms(2) by blast
    then show ?case using Cons.IH [of "ys @ [x]" u'] Cons.prems(1) by simp
  qed simp
  then show ?thesis using assms(1) by blast
qed

section \<open>Relation closures\<close>

lemma tranclp_last: "R\<^sup>+\<^sup>+ a c \<longleftrightarrow> R a c \<or> (\<exists>b. R\<^sup>+\<^sup>+ a b \<and> R b c)"
  by (metis tranclp.simps)

lemma tranclp_depth:
  assumes "R\<^sup>+\<^sup>+ a b" and "\<And>x y. R x y \<Longrightarrow> (d x :: nat) < d y"
  shows "d a < d b"
  using assms(1)
proof (induction rule: tranclp_induct)
  case base
  then show ?case by (rule assms(2))
next
  case (step y z)
  then show ?case using assms(2) [of y z] by simp
qed

end
