(* ===== verification/Thread_Id.thy ===== *)
theory Thread_Id
  imports Por_Prelude
begin

text \<open>
  Model of \<^verbatim>\<open>include/por/thread_id.h\<close>: hierarchical thread identifiers, their small-buffer
  representation, the four comparison operators, printing and parsing.
\<close>

type_synonym thread_size_t = "16 word"

text \<open>
  The value of a \<^verbatim>\<open>thread_id\<close> is the sequence of local ids on the path from the root;
  the empty sequence is the identifier of the program-init event and the "no thread" value.
\<close>

datatype thread_id = Thread_Id (ids: "thread_size_t list")

definition tid_none :: thread_id where
  "tid_none = Thread_Id []"

definition tid_empty :: "thread_id \<Rightarrow> bool" where
  "tid_empty t \<longleftrightarrow> length (ids t) = 0"

definition tid_child :: "thread_id \<Rightarrow> thread_size_t \<Rightarrow> thread_id option" where
  "tid_child parent localId =
     (if localId \<noteq> 0 then Some (Thread_Id (ids parent @ [localId])) else None)"

section \<open>The small-buffer representation\<close>

text \<open>
  \<^verbatim>\<open>union data_t\<close>: up to \<open>asize\<close> ids are stored in place, more of them behind a pointer.
  Reading the member of the union that is not the live one has no defined value (\<open>None\<close>).
\<close>

definition asize :: nat where
  "asize = 4"

datatype data_t = A_member "thread_size_t list" | P_member "thread_size_t list"

record tid_rep =
  rep_size :: nat
  rep_data :: data_t

fun rep_buffer :: "tid_rep \<Rightarrow> thread_size_t list option" where
  "rep_buffer r =
     (case rep_data r of
        A_member a \<Rightarrow> if rep_size r \<le> asize then Some a else None
      | P_member p \<Rightarrow> if rep_size r \<le> asize then None else Some p)"

text \<open>
  \<^verbatim>\<open>resize\<close> copies the common prefix into the new buffer. \<open>junk\<close> is the indeterminate content
  of a buffer that has just been obtained (\<^verbatim>\<open>new[]\<close>, or the union's bytes after its pointer
  member was live). In-place to in-place copies nothing.
\<close>

definition rep_resize :: "thread_size_t list \<Rightarrow> nat \<Rightarrow> tid_rep \<Rightarrow> tid_rep option" where
  "rep_resize junk new_size r =
     (if rep_size r = new_size then Some r
      else case rep_buffer r of None \<Rightarrow> None
      | Some q \<Rightarrow>
          let n = min new_size (rep_size r);
              p = take n q @ drop n junk
          in Some (if new_size > asize then \<lparr>rep_size = new_size, rep_data = P_member p\<rparr>
                   else if rep_size r \<le> asize then \<lparr>rep_size = new_size, rep_data = A_member q\<rparr>
                   else \<lparr>rep_size = new_size, rep_data = A_member p\<rparr>))"

definition rep_ok :: "tid_rep \<Rightarrow> bool" where
  "rep_ok r \<longleftrightarrow> (case rep_data r of
      A_member a \<Rightarrow> rep_size r \<le> asize \<and> length a = asize
    | P_member p \<Rightarrow> asize < rep_size r \<and> length p = rep_size r)"

definition rep_ids :: "tid_rep \<Rightarrow> thread_size_t list" where
  "rep_ids r = take (rep_size r) (case rep_data r of A_member a \<Rightarrow> a | P_member p \<Rightarrow> p)"

text \<open>The constructor \<^verbatim>\<open>thread_id(parent, localId)\<close> on the representation.\<close>

definition rep_child :: "thread_size_t list \<Rightarrow> tid_rep \<Rightarrow> tid_rep \<Rightarrow> thread_size_t \<Rightarrow> tid_rep option" where
  "rep_child junk fresh parent localId =
     (if localId = 0 then None
      else case rep_resize junk (rep_size parent + 1) fresh of None \<Rightarrow> None
      | Some r \<Rightarrow> (case (rep_buffer r, rep_buffer parent) of
            (Some d, Some q) \<Rightarrow>
              let d' = (take (rep_size parent) q @ drop (rep_size parent) d)[rep_size r - 1 := localId]
              in Some (r\<lparr>rep_data := (case rep_data r of A_member _ \<Rightarrow> A_member d' | P_member _ \<Rightarrow> P_member d')\<rparr>)
          | _ \<Rightarrow> None))"

definition buffer_len :: "nat \<Rightarrow> nat" where
  "buffer_len n = (if n > asize then n else asize)"

lemma rep_ok_buffer:
  "rep_ok r \<Longrightarrow> \<exists>q. rep_buffer r = Some q \<and> length q = buffer_len (rep_size r)"
  by (auto simp: rep_ok_def buffer_len_def split: data_t.splits)

lemma rep_resize_ok:
  assumes "rep_ok r" and "length junk = buffer_len n"
  shows "\<exists>r'. rep_resize junk n r = Some r' \<and> rep_ok r' \<and> rep_size r' = n
           \<and> take (min n (rep_size r)) (rep_ids r') = take (min n (rep_size r)) (rep_ids r)"
  using assms
  by (cases r; cases "rep_data r")
     (auto simp: rep_resize_def rep_ok_def rep_ids_def buffer_len_def asize_def Let_def min_def)

lemma rep_child_refines:
  assumes "rep_ok fresh" "rep_size fresh = 0" "rep_ok parent" "length junk = buffer_len (rep_size parent + 1)"
  shows "map_option (\<lambda>r. Thread_Id (rep_ids r)) (rep_child junk fresh parent l)
           = tid_child (Thread_Id (rep_ids parent)) l"
proof (cases "l = 0")
  case False
  obtain r where r: "rep_resize junk (rep_size parent + 1) fresh = Some r" "rep_ok r"
      "rep_size r = rep_size parent + 1"
    using rep_resize_ok [OF assms(1,4)] by blast
  obtain d where d: "rep_buffer r = Some d" "length d = buffer_len (rep_size parent + 1)"
    using rep_ok_buffer [OF r(2)] r(3) by auto
  obtain q where q: "rep_buffer parent = Some q" "length q = buffer_len (rep_size parent)"
    using rep_ok_buffer [OF assms(3)] by blast
  have len: "rep_size parent < length d" "rep_size parent \<le> length q"
    using d(2) q(2) by (auto simp: buffer_len_def)
  have "rep_ids parent = take (rep_size parent) q"
    using q(1) by (auto simp: rep_ids_def split: data_t.splits if_splits)
  moreover have "rep_ids (r\<lparr>rep_data := (case rep_data r of A_member _ \<Rightarrow> A_member x | P_member _ \<Rightarrow> P_member x)\<rparr>)
      = take (rep_size parent + 1) x" for x
    using r(3) by (auto simp: rep_ids_def split: data_t.splits)
  moreover have "take (rep_size parent + 1) ((take (rep_size parent) q @ drop (rep_size parent) d)[rep_size parent := l])
      = take (rep_size parent) q @ [l]"
    using len by (auto simp: take_Suc_conv_app_nth take_update_swap min_def list_update_append nth_append)
  ultimately show ?thesis
    using False r d(1) q(1) by (simp add: rep_child_def tid_child_def Let_def)
qed (simp add: rep_child_def tid_child_def)

section \<open>Comparison operators\<close>

text \<open>
  Each operator walks both id sequences in step and falls back to the sizes. The loops are
  written once per operator, as in the source.
\<close>

fun lt_loop :: "thread_size_t list \<Rightarrow> thread_size_t list \<Rightarrow> bool" where
  "lt_loop (x # xs) (y # ys) = (if x < y then True else if y < x then False else lt_loop xs ys)"
| "lt_loop xs ys = (length xs < length ys)"

fun gt_loop :: "thread_size_t list \<Rightarrow> thread_size_t list \<Rightarrow> bool" where
  "gt_loop (x # xs) (y # ys) = (if x > y then True else if y > x then False else gt_loop xs ys)"
| "gt_loop xs ys = (length xs > length ys)"

fun le_loop :: "thread_size_t list \<Rightarrow> thread_size_t list \<Rightarrow> bool" where
  "le_loop (x # xs) (y # ys) = (if x < y then True else if y < x then False else le_loop xs ys)"
| "le_loop xs ys = (length xs \<le> length ys)"

fun ge_loop :: "thread_size_t list \<Rightarrow> thread_size_t list \<Rightarrow> bool" where
  "ge_loop (x # xs) (y # ys) = (if x > y then True else if y > x then False else ge_loop xs ys)"
| "ge_loop xs ys = (length xs \<ge> length ys)"

definition tid_lt :: "thread_id \<Rightarrow> thread_id \<Rightarrow> bool" where
  "tid_lt lhs rhs = lt_loop (ids lhs) (ids rhs)"

definition tid_gt :: "thread_id \<Rightarrow> thread_id \<Rightarrow> bool" where
  "tid_gt lhs rhs = gt_loop (ids lhs) (ids rhs)"

definition tid_le :: "thread_id \<Rightarrow> thread_id \<Rightarrow> bool" where
  "tid_le lhs rhs = le_loop (ids lhs) (ids rhs)"

definition tid_ge :: "thread_id \<Rightarrow> thread_id \<Rightarrow> bool" where
  "tid_ge lhs rhs = ge_loop (ids lhs) (ids rhs)"

text \<open>\<^verbatim>\<open>operator==\<close> compares the sizes first and then the bytes (\<^verbatim>\<open>memcmp\<close>) of the buffers.\<close>

definition tid_eq :: "thread_id \<Rightarrow> thread_id \<Rightarrow> bool" where
  "tid_eq lhs rhs \<longleftrightarrow> length (ids lhs) = length (ids rhs)
     \<and> (\<forall>i \<in> {..<length (ids lhs)}. ids lhs ! i = ids rhs ! i)"

lemma tid_eq_iff: "tid_eq a b \<longleftrightarrow> a = b"
  by (cases a; cases b) (auto simp: tid_eq_def list_eq_iff_nth_eq)

lemma lt_loop_irrefl: "\<not> lt_loop xs xs"
  by (induction xs) auto

lemma lt_loop_trans: "lt_loop xs ys \<Longrightarrow> lt_loop ys zs \<Longrightarrow> lt_loop xs zs"
proof (induction xs arbitrary: ys zs)
  case Nil
  then show ?case by (cases zs; cases ys) auto
next
  case (Cons x xs)
  then show ?case by (cases ys; cases zs) (auto split: if_splits)
qed

lemma lt_loop_total: "lt_loop xs ys \<or> xs = ys \<or> lt_loop ys xs"
  by (induction xs ys rule: lt_loop.induct) auto

lemma le_loop_iff: "le_loop xs ys \<longleftrightarrow> lt_loop xs ys \<or> xs = ys"
  by (induction xs ys rule: le_loop.induct) auto

lemma gt_loop_iff: "gt_loop xs ys \<longleftrightarrow> lt_loop ys xs"
  by (induction xs ys rule: gt_loop.induct) auto

lemma ge_loop_iff: "ge_loop xs ys \<longleftrightarrow> le_loop ys xs"
  by (induction xs ys rule: ge_loop.induct) auto

lemma lt_loop_asym: "lt_loop xs ys \<Longrightarrow> \<not> lt_loop ys xs"
  using lt_loop_irrefl lt_loop_trans by blast

text \<open>
  The operators make \<^typ>\<open>thread_id\<close> a linear order, the one by which every
  \<^verbatim>\<open>std::map\<close> keyed by threads is iterated.
\<close>

instantiation thread_id :: linorder
begin

definition less_thread_id :: "thread_id \<Rightarrow> thread_id \<Rightarrow> bool" where
  "less_thread_id = tid_lt"

definition less_eq_thread_id :: "thread_id \<Rightarrow> thread_id \<Rightarrow> bool" where
  "less_eq_thread_id = tid_le"

instance
proof
  fix a b c :: thread_id
  note defs = less_thread_id_def less_eq_thread_id_def tid_lt_def tid_le_def le_loop_iff
  show "a < b \<longleftrightarrow> a \<le> b \<and> \<not> b \<le> a"
    unfolding defs by (metis lt_loop_asym lt_loop_irrefl)
  show "a \<le> a"
    unfolding defs by simp
  show "a \<le> b \<Longrightarrow> b \<le> c \<Longrightarrow> a \<le> c"
    unfolding defs by (metis lt_loop_trans)
  show "a \<le> b \<Longrightarrow> b \<le> a \<Longrightarrow> a = b"
    unfolding defs by (metis lt_loop_asym thread_id.expand)
  show "a \<le> b \<or> b \<le> a"
    unfolding defs by (metis lt_loop_total)
qed

end

section \<open>Printing and parsing\<close>

fun show_nat :: "nat \<Rightarrow> string" where
  "show_nat n = (if n < 10 then [char_of (48 + n)] else show_nat (n div 10) @ [char_of (48 + n mod 10)])"

declare show_nat.simps [simp del]

text \<open>\<^verbatim>\<open>operator<<\<close>: the ids in decimal, separated by commas.\<close>

fun show_ids :: "thread_size_t list \<Rightarrow> bool \<Rightarrow> string" where
  "show_ids [] first = []"
| "show_ids (entry # rest) first =
     (if first then [] else '','') @ show_nat (unat entry) @ show_ids rest False"

definition tid_to_string :: "thread_id \<Rightarrow> string" where
  "tid_to_string t = show_ids (ids t) True"

definition is_digit :: "char \<Rightarrow> bool" where
  "is_digit c \<longleftrightarrow> 48 \<le> (of_char c :: nat) \<and> (of_char c :: nat) \<le> 57"

definition digits_val :: "string \<Rightarrow> nat" where
  "digits_val ds = foldl (\<lambda>n c. 10 * n + (of_char c - 48)) 0 ds"

text \<open>
  One round of the loop of \<^verbatim>\<open>from_string\<close>: a digit must be next; \<^verbatim>\<open>sstream >> lid\<close>
  takes the longest run of digits and fails when the value does not fit the 16-bit id;
  the value 0 is refused; at the end of the input the id is complete, otherwise a comma follows.
\<close>

function parse_ids :: "thread_id \<Rightarrow> string \<Rightarrow> thread_id option" where
  "parse_ids tid s =
     (case s of [] \<Rightarrow> None
      | nextChar # _ \<Rightarrow>
          if \<not> is_digit nextChar then None
          else let lid = digits_val (takeWhile is_digit s); rest = dropWhile is_digit s
               in if lid > 65535 \<or> lid = 0 then None
                  else case tid_child tid (of_nat lid) of None \<Rightarrow> None
                  | Some tid' \<Rightarrow>
                      (case rest of [] \<Rightarrow> Some tid'
                       | c # rest' \<Rightarrow> if c \<noteq> CHR '','' then None else parse_ids tid' rest'))"
  by pat_completeness auto
termination
proof (relation "measure (\<lambda>(tid, s). length s)", goal_cases)
  case 1
  show ?case by simp
next
  case (2 tid s c cs lid rest tid' d rest')
  then have "d # rest' = dropWhile is_digit s" by simp
  then have "length (d # rest') \<le> length s" by (metis length_dropWhile_le)
  then show ?case by simp
qed

declare parse_ids.simps [simp del]

definition tid_from_string :: "string \<Rightarrow> thread_id option" where
  "tid_from_string s = parse_ids tid_none s"

text \<open>An identifier of a thread: non-empty and built from non-zero local ids.\<close>

definition tid_wf :: "thread_id \<Rightarrow> bool" where
  "tid_wf t \<longleftrightarrow> ids t \<noteq> [] \<and> 0 \<notin> set (ids t)"

lemma is_digit_char_of: "n < 10 \<Longrightarrow> is_digit (char_of (48 + n)) \<and> (of_char (char_of (48 + n)) :: nat) = 48 + n"
  by (simp add: is_digit_def)

lemma show_nat_nonempty: "show_nat n \<noteq> []"
  by (subst show_nat.simps) simp

lemma show_nat_digits: "\<forall>c \<in> set (show_nat n). is_digit c"
proof (induction n rule: show_nat.induct)
  case (1 n)
  then show ?case
    using is_digit_char_of [of n] is_digit_char_of [of "n mod 10"]
    by (subst show_nat.simps) auto
qed

lemma digits_val_snoc: "digits_val (ds @ [c]) = 10 * digits_val ds + (of_char c - 48)"
  by (simp add: digits_val_def)

lemma digits_val_show_nat: "digits_val (show_nat n) = n"
proof (induction n rule: show_nat.induct)
  case (1 n)
  show ?case
  proof (cases "n < 10")
    case True
    then show ?thesis
      using is_digit_char_of [of n] by (subst show_nat.simps) (simp add: digits_val_def)
  next
    case False
    then have "digits_val (show_nat n) = 10 * (n div 10) + n mod 10"
      using 1 is_digit_char_of [of "n mod 10"]
      by (subst show_nat.simps) (simp add: digits_val_snoc)
    then show ?thesis by simp
  qed
qed

lemma comma_not_digit: "\<not> is_digit CHR '',''"
  by (simp add: is_digit_def)

lemma take_drop_digits:
  assumes "xs = [] \<or> \<not> is_digit (hd xs)"
  shows "takeWhile is_digit (show_nat n @ xs) = show_nat n" "dropWhile is_digit (show_nat n @ xs) = xs"
  using assms show_nat_digits [of n] by (cases xs; simp add: takeWhile_append dropWhile_append)+

lemma parse_ids_step:
  assumes "takeWhile is_digit s = ds" "dropWhile is_digit s = rest" "ds \<noteq> []"
    and "digits_val ds = unat x" "x \<noteq> 0"
  shows "parse_ids (Thread_Id acc) s =
    (case rest of [] \<Rightarrow> Some (Thread_Id (acc @ [x]))
     | c # rest' \<Rightarrow> if c \<noteq> CHR '','' then None else parse_ids (Thread_Id (acc @ [x])) rest')"
proof -
  obtain c cs where s: "s = c # cs" "is_digit c"
    using assms(1,3) by (cases s) (auto split: if_splits)
  have x: "unat x \<noteq> 0" "unat x \<le> 65535"
    using assms(5) unsigned_less [of x, where ?'a = nat] by (auto simp: unat_eq_0)
  show ?thesis
    unfolding parse_ids.simps [of "Thread_Id acc" s] assms(1,2)
    using s x assms(4,5) by (simp add: tid_child_def)
qed

lemma parse_show_ids:
  assumes "xs \<noteq> []" "0 \<notin> set xs"
  shows "parse_ids (Thread_Id acc) (show_ids xs True) = Some (Thread_Id (acc @ xs))"
  using assms
proof (induction xs arbitrary: acc)
  case (Cons x xs)
  note step = parse_ids_step [OF take_drop_digits show_nat_nonempty digits_val_show_nat, of _ x]
  show ?case
  proof (cases xs)
    case Nil
    then show ?thesis
      using step [of "[]"] Cons.prems by simp
  next
    case (Cons y ys)
    have rest: "show_ids (x # xs) True = show_nat (unat x) @ CHR '','' # show_ids xs True"
      using Cons by simp
    have "parse_ids (Thread_Id (acc @ [x])) (show_ids xs True) = Some (Thread_Id ((acc @ [x]) @ xs))"
      using Cons.IH [of "acc @ [x]"] Cons.prems Cons by simp
    then show ?thesis
      unfolding rest using step [of "CHR '','' # show_ids xs True"] Cons.prems comma_not_digit by simp
  qed
qed simp

lemma tid_wf_snoc: "0 \<notin> set xs \<Longrightarrow> x \<noteq> 0 \<Longrightarrow> tid_wf (Thread_Id (xs @ [x]))"
  by (simp add: tid_wf_def)

lemma parse_ids_wf: "parse_ids tid s = Some t \<Longrightarrow> 0 \<notin> set (ids tid) \<Longrightarrow> tid_wf t"
proof (induction tid s rule: parse_ids.induct)
  case (1 tid s)
  show ?case
    using "1.prems"
    by (subst (asm) parse_ids.simps)
       (auto simp: tid_child_def Let_def tid_wf_snoc intro: "1.IH" split: list.splits if_splits option.splits)
qed

section \<open>Properties\<close>

text \<open>
  The comparison operators of thread ids, each a loop of its own in the source, agree:
  \<^verbatim>\<open>operator<\<close> is a strict total order up to \<^verbatim>\<open>operator==\<close>, and the other three are
  the orders derived from it.
\<close>

theorem tid_operators_agree:
  "\<not> tid_lt a a \<and> (tid_lt a b \<and> tid_lt b c \<longrightarrow> tid_lt a c)
    \<and> (tid_lt a b \<or> tid_eq a b \<or> tid_lt b a) \<and> (tid_eq a b \<longleftrightarrow> a = b)
    \<and> (tid_gt a b \<longleftrightarrow> tid_lt b a) \<and> (tid_le a b \<longleftrightarrow> \<not> tid_lt b a) \<and> (tid_ge a b \<longleftrightarrow> \<not> tid_lt a b)"
  unfolding tid_eq_iff tid_lt_def tid_gt_def tid_le_def tid_ge_def gt_loop_iff ge_loop_iff le_loop_iff
  by (metis lt_loop_irrefl lt_loop_trans lt_loop_total thread_id.expand)

theorem tid_operators_agree_witness:
  "tid_lt (Thread_Id [1]) (Thread_Id [1, 2]) \<and> tid_lt (Thread_Id [1, 2]) (Thread_Id [3])
    \<and> tid_lt (Thread_Id [1]) (Thread_Id [3])"
proof -
  have "tid_lt (Thread_Id [1]) (Thread_Id [1, 2])" "tid_lt (Thread_Id [1, 2]) (Thread_Id [3])"
    by (simp_all add: tid_lt_def)
  then show ?thesis
    using tid_operators_agree [of "Thread_Id [1]" "Thread_Id [1, 2]" "Thread_Id [3]"] by blast
qed

text \<open>
  Reading back what \<^verbatim>\<open>to_string\<close> prints gives the thread id again, for every non-empty
  id whose local ids are non-zero; \<^verbatim>\<open>from_string\<close> yields no other ids.
\<close>

theorem tid_string_roundtrip:
  "(tid_wf t \<longrightarrow> tid_from_string (tid_to_string t) = Some t)
    \<and> (tid_from_string s = Some u \<longrightarrow> tid_wf u)"
  using parse_show_ids [of "ids t" "[]"] parse_ids_wf [of tid_none s u]
  by (cases t) (simp add: tid_wf_def tid_from_string_def tid_to_string_def tid_none_def)

theorem tid_string_roundtrip_witness:
  "tid_wf (Thread_Id [1, 20]) \<and> tid_from_string (tid_to_string (Thread_Id [1, 20])) = Some (Thread_Id [1, 20])"
  using tid_string_roundtrip [of "Thread_Id [1, 20]"] by (simp add: tid_wf_def)

text \<open>
  The small-buffer representation refines the abstract id: appending a local id to a parent,
  through \<^verbatim>\<open>resize\<close> with its switch between the inline array and the heap block, yields the
  parent's ids followed by the new one, and keeps the union member consistent with the size.
\<close>

theorem tid_representation_refines:
  assumes "rep_ok fresh" "rep_size fresh = 0" "rep_ok parent"
    and "length junk = buffer_len (rep_size parent + 1)" "l \<noteq> 0"
  shows "\<exists>r. rep_child junk fresh parent l = Some r
    \<and> tid_child (Thread_Id (rep_ids parent)) l = Some (Thread_Id (rep_ids r))
    \<and> rep_ids r = rep_ids parent @ [l]"
  using rep_child_refines [OF assms(1-4), of l] assms(5) by (auto simp: tid_child_def)

theorem tid_representation_refines_witness:
  "rep_ids \<lparr>rep_size = 4, rep_data = A_member [1, 2, 3, 4]\<rparr> = [1, 2, 3, 4]
    \<and> (\<exists>r. rep_child [0, 0, 0, 0, 0] \<lparr>rep_size = 0, rep_data = A_member [9, 9, 9, 9]\<rparr>
              \<lparr>rep_size = 4, rep_data = A_member [1, 2, 3, 4]\<rparr> 5 = Some r
          \<and> rep_ids r = [1, 2, 3, 4, 5])"
  using tid_representation_refines
    [of "\<lparr>rep_size = 0, rep_data = A_member [9, 9, 9, 9]\<rparr>"
        "\<lparr>rep_size = 4, rep_data = A_member [1, 2, 3, 4]\<rparr>" "[0, 0, 0, 0, 0]" 5]
  by (auto simp: rep_ok_def asize_def buffer_len_def rep_ids_def)

end
