(* ===== verification/Event.thy ===== *)
theory Event
  imports Thread_Id
begin

text \<open>
  The event objects of \<^verbatim>\<open>include/por/event/*.h\<close>: the base class members, one constructor
  per derived class, the virtual accessors, the constructors with their assertions
  (\<^verbatim>\<open>alloc\<close>), and the cones of \<^verbatim>\<open>include/por/cone.h\<close> that the base constructor fills.

  An \<^verbatim>\<open>event const*\<close> is the object it points to. The immutable members are the ones modelled
  here; the mutable ones (successors, immediate conflicts, cutoff flag, colours, ids) belong to
  the unfolding that owns the event. Comparing pointers is comparing values: an unfolding never
  holds two objects with equal members, which is what its deduplication establishes.
  Moved-from objects (null predecessors after a move constructor) do not occur.
\<close>

type_synonym lock_id_t = "64 word"
type_synonym cond_id_t = "64 word"

section \<open>Kinds and objects\<close>

datatype event_kind =
    K_local | K_program_init | K_thread_create | K_thread_join | K_thread_init | K_thread_exit
  | K_lock_create | K_lock_destroy | K_lock_acquire | K_lock_release
  | K_condition_variable_create | K_condition_variable_destroy
  | K_wait1 | K_wait2 | K_signal | K_broadcast

text \<open>
  The members of the derived classes. The order of the event arguments is the order of
  \<^verbatim>\<open>_predecessors\<close>; an optional argument is a pointer that may be null. \<open>Signal\<close> and
  \<open>Broadcast\<close> hold \<^verbatim>\<open>_predecessors[1..]\<close> as stored (a lost signal without condition
  variable predecessors stores a single null pointer there: the empty list).
\<close>

datatype ('d, 'e) body =
    Program_Init
  | Thread_Init 'e
  | Local 'e "'d list"
  | Thread_Create 'e thread_id
  | Thread_Join 'e 'e
  | Thread_Exit 'e bool
  | Lock_Create lock_id_t 'e
  | Lock_Destroy lock_id_t 'e "'e option"
  | Lock_Acquire lock_id_t 'e "'e option"
  | Lock_Release lock_id_t 'e 'e bool
  | Cond_Create cond_id_t 'e
  | Cond_Destroy cond_id_t 'e "'e list"
  | Wait1 cond_id_t lock_id_t 'e 'e "'e list"
  | Wait2 cond_id_t lock_id_t 'e 'e 'e
  | Signal cond_id_t 'e "'e list"
  | Broadcast cond_id_t 'e "'e list" nat

datatype 'd event =
  Event (tid: thread_id) (cone: "(thread_id \<times> 'd event) list") (depth: nat)
        (body: "('d, 'd event) body")

type_synonym 'd cone = "(thread_id \<times> 'd event) list"

fun kind_of :: "('d, 'e) body \<Rightarrow> event_kind" where
  "kind_of Program_Init = K_program_init"
| "kind_of (Thread_Init c) = K_thread_init"
| "kind_of (Local tp path) = K_local"
| "kind_of (Thread_Create tp new) = K_thread_create"
| "kind_of (Thread_Join tp j) = K_thread_join"
| "kind_of (Thread_Exit tp atomic) = K_thread_exit"
| "kind_of (Lock_Create l tp) = K_lock_create"
| "kind_of (Lock_Destroy l tp lp) = K_lock_destroy"
| "kind_of (Lock_Acquire l tp lp) = K_lock_acquire"
| "kind_of (Lock_Release l tp lp atomic) = K_lock_release"
| "kind_of (Cond_Create c tp) = K_condition_variable_create"
| "kind_of (Cond_Destroy c tp cps) = K_condition_variable_destroy"
| "kind_of (Wait1 c l tp lp cps) = K_wait1"
| "kind_of (Wait2 c l tp n lp) = K_wait2"
| "kind_of (Signal c tp cps) = K_signal"
| "kind_of (Broadcast c tp cps n) = K_broadcast"

definition kind :: "'d event \<Rightarrow> event_kind" where
  "kind e = kind_of (body e)"

section \<open>Virtual accessors\<close>

text \<open>\<^verbatim>\<open>thread_predecessor()\<close>: null for the program-init and the thread-init events.\<close>

fun thread_pred_of :: "('d, 'e) body \<Rightarrow> 'e option" where
  "thread_pred_of Program_Init = None"
| "thread_pred_of (Thread_Init c) = None"
| "thread_pred_of (Local tp path) = Some tp"
| "thread_pred_of (Thread_Create tp new) = Some tp"
| "thread_pred_of (Thread_Join tp j) = Some tp"
| "thread_pred_of (Thread_Exit tp atomic) = Some tp"
| "thread_pred_of (Lock_Create l tp) = Some tp"
| "thread_pred_of (Lock_Destroy l tp lp) = Some tp"
| "thread_pred_of (Lock_Acquire l tp lp) = Some tp"
| "thread_pred_of (Lock_Release l tp lp atomic) = Some tp"
| "thread_pred_of (Cond_Create c tp) = Some tp"
| "thread_pred_of (Cond_Destroy c tp cps) = Some tp"
| "thread_pred_of (Wait1 c l tp lp cps) = Some tp"
| "thread_pred_of (Wait2 c l tp n lp) = Some tp"
| "thread_pred_of (Signal c tp cps) = Some tp"
| "thread_pred_of (Broadcast c tp cps n) = Some tp"

definition thread_predecessor :: "'d event \<Rightarrow> 'd event option" where
  "thread_predecessor e = thread_pred_of (body e)"

fun lock_pred_of :: "('d, 'e) body \<Rightarrow> 'e option" where
  "lock_pred_of (Lock_Destroy l tp lp) = lp"
| "lock_pred_of (Lock_Acquire l tp lp) = lp"
| "lock_pred_of (Lock_Release l tp lp atomic) = Some lp"
| "lock_pred_of (Wait1 c l tp lp cps) = Some lp"
| "lock_pred_of (Wait2 c l tp n lp) = Some lp"
| "lock_pred_of _ = None"

definition lock_predecessor :: "'d event \<Rightarrow> 'd event option" where
  "lock_predecessor e = lock_pred_of (body e)"

fun cond_preds_of :: "('d, 'e) body \<Rightarrow> 'e list" where
  "cond_preds_of (Cond_Destroy c tp cps) = cps"
| "cond_preds_of (Wait1 c l tp lp cps) = cps"
| "cond_preds_of (Wait2 c l tp n lp) = [tp, n]"
| "cond_preds_of (Signal c tp cps) = cps"
| "cond_preds_of (Broadcast c tp cps n) = cps"
| "cond_preds_of _ = []"

definition condition_variable_predecessors :: "'d event \<Rightarrow> 'd event list" where
  "condition_variable_predecessors e = cond_preds_of (body e)"

fun lid_of :: "('d, 'e) body \<Rightarrow> lock_id_t" where
  "lid_of (Lock_Create l tp) = l"
| "lid_of (Lock_Destroy l tp lp) = l"
| "lid_of (Lock_Acquire l tp lp) = l"
| "lid_of (Lock_Release l tp lp atomic) = l"
| "lid_of (Wait1 c l tp lp cps) = l"
| "lid_of (Wait2 c l tp n lp) = l"
| "lid_of _ = 0"

definition lid :: "'d event \<Rightarrow> lock_id_t" where
  "lid e = lid_of (body e)"

fun cid_of :: "('d, 'e) body \<Rightarrow> cond_id_t" where
  "cid_of (Cond_Create c tp) = c"
| "cid_of (Cond_Destroy c tp cps) = c"
| "cid_of (Wait1 c l tp lp cps) = c"
| "cid_of (Wait2 c l tp n lp) = c"
| "cid_of (Signal c tp cps) = c"
| "cid_of (Broadcast c tp cps n) = c"
| "cid_of _ = 0"

definition cid :: "'d event \<Rightarrow> cond_id_t" where
  "cid e = cid_of (body e)"

fun ends_atomic_of :: "('d, 'e) body \<Rightarrow> bool" where
  "ends_atomic_of (Thread_Init c) = True"
| "ends_atomic_of (Thread_Exit tp atomic) = atomic"
| "ends_atomic_of (Lock_Release l tp lp atomic) = atomic"
| "ends_atomic_of _ = False"

definition ends_atomic_operation :: "'d event \<Rightarrow> bool" where
  "ends_atomic_operation e = ends_atomic_of (body e)"

fun atomic_pred_of :: "('d, 'e) body \<Rightarrow> 'e option" where
  "atomic_pred_of (Thread_Init c) = Some c"
| "atomic_pred_of (Thread_Exit tp atomic) = (if atomic then Some tp else None)"
| "atomic_pred_of (Lock_Release l tp lp atomic) = (if atomic then Some lp else None)"
| "atomic_pred_of _ = None"

definition atomic_predecessor :: "'d event \<Rightarrow> 'd event option" where
  "atomic_predecessor e = atomic_pred_of (body e)"

section \<open>Signals and broadcasts\<close>

text \<open>
  \<^verbatim>\<open>signal::is_lost\<close>: \<^verbatim>\<open>_predecessors.size() != 2 || _predecessors[1] == nullptr ||
  _predecessors[1]->kind() != wait1\<close>.
\<close>

fun signal_is_lost_of :: "'d event list \<Rightarrow> bool" where
  "signal_is_lost_of [w] = (kind w \<noteq> K_wait1)"
| "signal_is_lost_of _ = True"

definition signal_wait_predecessor :: "'d event list \<Rightarrow> 'd event option" where
  "signal_wait_predecessor cps = (if \<not> signal_is_lost_of cps then Some (hd cps) else None)"

fun signal_notified_thread_of :: "'d event list \<Rightarrow> thread_id" where
  "signal_notified_thread_of [w] = (if kind w = K_wait1 then tid w else tid_none)"
| "signal_notified_thread_of _ = tid_none"

definition broadcast_wait_predecessors :: "'e list \<Rightarrow> nat \<Rightarrow> 'e list" where
  "broadcast_wait_predecessors cps n = (if n \<noteq> 0 then take n cps else [])"

text \<open>
  \<^verbatim>\<open>is_lost()\<close>, \<^verbatim>\<open>notified_thread()\<close>, \<^verbatim>\<open>is_notifying_thread()\<close> and the wait predecessors,
  reached in the source through a \<^verbatim>\<open>static_cast\<close> after a test of the kind.
\<close>

fun is_lost :: "'d event \<Rightarrow> bool" where
  "is_lost (Event t c d (Signal cv tp cps)) = signal_is_lost_of cps"
| "is_lost (Event t c d (Broadcast cv tp cps n)) = (n = 0)"
| "is_lost _ = False"

fun notified_thread :: "'d event \<Rightarrow> thread_id" where
  "notified_thread (Event t c d (Signal cv tp cps)) = signal_notified_thread_of cps"
| "notified_thread _ = tid_none"

fun wait_predecessors :: "'d event \<Rightarrow> 'd event list" where
  "wait_predecessors (Event t c d (Signal cv tp cps)) =
     (case signal_wait_predecessor cps of None \<Rightarrow> [] | Some w \<Rightarrow> [w])"
| "wait_predecessors (Event t c d (Broadcast cv tp cps n)) = broadcast_wait_predecessors cps n"
| "wait_predecessors _ = []"

definition is_notifying_thread :: "'d event \<Rightarrow> thread_id \<Rightarrow> bool" where
  "is_notifying_thread e t \<longleftrightarrow> list_ex (\<lambda>w. tid w = t) (wait_predecessors e)"

fun num_notified :: "'d event \<Rightarrow> nat" where
  "num_notified (Event t c d (Signal cv tp cps)) = (if signal_is_lost_of cps then 0 else 1)"
| "num_notified (Event t c d (Broadcast cv tp cps n)) = n"
| "num_notified _ = 0"

fun notifying_predecessor :: "'d event \<Rightarrow> 'd event option" where
  "notifying_predecessor (Event t c d (Wait2 cv l tp n lp)) = Some n"
| "notifying_predecessor _ = None"

fun joined_thread_predecessor :: "'d event \<Rightarrow> 'd event option" where
  "joined_thread_predecessor (Event t c d (Thread_Join tp j)) = Some j"
| "joined_thread_predecessor _ = None"

fun joined_thread :: "'d event \<Rightarrow> thread_id" where
  "joined_thread (Event t c d (Thread_Join tp j)) = tid j"
| "joined_thread _ = tid_none"

fun thread_creation_predecessor :: "'d event \<Rightarrow> 'd event option" where
  "thread_creation_predecessor (Event t c d (Thread_Init cr)) = Some cr"
| "thread_creation_predecessor _ = None"

fun created_tid :: "'d event \<Rightarrow> thread_id" where
  "created_tid (Event t c d (Thread_Create tp new)) = new"
| "created_tid _ = tid_none"

fun local_path :: "'d event \<Rightarrow> 'd list" where
  "local_path (Event t c d (Local tp path)) = path"
| "local_path _ = []"

section \<open>Predecessors\<close>

text \<open>
  \<^verbatim>\<open>predecessors()\<close> of the classes whose range depends on the pointers: a null or repeated
  lock predecessor is left out.
\<close>

definition opt_lock_predecessors :: "'e \<Rightarrow> 'e option \<Rightarrow> 'e list" where
  "opt_lock_predecessors tp lp =
     (case lp of Some l \<Rightarrow> if tp \<noteq> l then [tp, l] else [tp] | None \<Rightarrow> [tp])"

definition lock_release_predecessors :: "'e \<Rightarrow> 'e \<Rightarrow> 'e list" where
  "lock_release_predecessors tp lp = (if tp = lp then [tp] else [tp, lp])"

fun preds_of :: "('d, 'e) body \<Rightarrow> 'e list" where
  "preds_of Program_Init = []"
| "preds_of (Thread_Init c) = [c]"
| "preds_of (Local tp path) = [tp]"
| "preds_of (Thread_Create tp new) = [tp]"
| "preds_of (Thread_Join tp j) = [tp, j]"
| "preds_of (Thread_Exit tp atomic) = [tp]"
| "preds_of (Lock_Create l tp) = [tp]"
| "preds_of (Lock_Destroy l tp lp) = opt_lock_predecessors tp lp"
| "preds_of (Lock_Acquire l tp lp) = opt_lock_predecessors tp lp"
| "preds_of (Lock_Release l tp lp atomic) = lock_release_predecessors tp lp"
| "preds_of (Cond_Create c tp) = [tp]"
| "preds_of (Cond_Destroy c tp cps) = tp # cps"
| "preds_of (Wait1 c l tp lp cps) = tp # lp # cps"
| "preds_of (Wait2 c l tp n lp) = [tp, n, lp]"
| "preds_of (Signal c tp cps) = tp # cps"
| "preds_of (Broadcast c tp cps n) = tp # cps"

definition predecessors :: "'d event \<Rightarrow> 'd event list" where
  "predecessors e = preds_of (body e)"

lemma preds_of_subset: "set (preds_of b) \<subseteq> set2_body b"
  by (cases b) (auto simp: opt_lock_predecessors_def lock_release_predecessors_def split: option.splits)

lemma size_list_mem: "x \<in> set xs \<Longrightarrow> f x \<le> size_list f xs"
  by (induction xs) auto

lemma size_set2_body: "x \<in> set2_body b \<Longrightarrow> f x \<le> size_body g f b"
  by (cases b) (auto dest!: size_list_mem [where f = f])

lemma size_body_mem: "p \<in> set2_body (body e) \<Longrightarrow> size p < size e"
  using size_set2_body [of p "body e" size "\<lambda>_. 0"] by (cases e) auto

lemma size_predecessor: "p \<in> set (predecessors e) \<Longrightarrow> size p < size e"
  unfolding predecessors_def by (rule size_body_mem, rule subsetD [OF preds_of_subset])

lemma thread_pred_in_preds: "thread_predecessor e = Some p \<Longrightarrow> p \<in> set (predecessors e)"
  unfolding thread_predecessor_def predecessors_def
  by (cases "body e") (auto simp: opt_lock_predecessors_def lock_release_predecessors_def split: option.splits)

lemma lock_pred_in_preds: "lock_predecessor e = Some p \<Longrightarrow> p \<in> set (predecessors e)"
  unfolding lock_predecessor_def predecessors_def
  by (cases "body e") (auto simp: opt_lock_predecessors_def lock_release_predecessors_def split: option.splits)

lemma cond_pred_in_preds: "p \<in> set (condition_variable_predecessors e) \<Longrightarrow> p \<in> set (predecessors e)"
  unfolding condition_variable_predecessors_def predecessors_def
  by (cases "body e") auto

lemma size_thread_predecessor [termination_simp]: "thread_predecessor e = Some p \<Longrightarrow> size p < size e"
  by (rule size_predecessor, rule thread_pred_in_preds)

lemma size_lock_predecessor [termination_simp]: "lock_predecessor e = Some p \<Longrightarrow> size p < size e"
  by (rule size_predecessor, rule lock_pred_in_preds)

text \<open>
  The loop \<^verbatim>\<open>for(e = head; e; e = e->thread_predecessor())\<close>, collected: it ends because an
  object is larger than the objects it points to.
\<close>

function thread_chain :: "'d event \<Rightarrow> 'd event list" where
  "thread_chain e = e # (case thread_predecessor e of None \<Rightarrow> [] | Some p \<Rightarrow> thread_chain p)"
  by pat_completeness auto
termination
  by (relation "measure size") (auto simp: size_thread_predecessor)

declare thread_chain.simps [simp del]

text \<open>The loop along \<^verbatim>\<open>lock_predecessor()\<close>.\<close>

function lock_chain :: "'d event \<Rightarrow> 'd event list" where
  "lock_chain e = e # (case lock_predecessor e of None \<Rightarrow> [] | Some p \<Rightarrow> lock_chain p)"
  by pat_completeness auto
termination
  by (relation "measure size") (auto simp: size_lock_predecessor)

declare lock_chain.simps [simp del]

end
