(* ===== verification/Cone.thy ===== *)
theory Cone
  imports Event
begin

text \<open>
  Model of \<^verbatim>\<open>include/por/cone.h\<close> and \<^verbatim>\<open>lib/Por/cone.cpp\<close> (a cone maps each thread to its
  deepest event below some event or configuration, the program-init event excluded), of the
  causality test \<^verbatim>\<open>is_less_than\<close> of \<^verbatim>\<open>event/base.h\<close>, and of the pairwise filter by which
  \<^verbatim>\<open>cone::max\<close>, \<^verbatim>\<open>comb::max\<close> and \<^verbatim>\<open>comb::min\<close> select maximal or minimal events.
\<close>

section \<open>Construction\<close>

text \<open>\<^verbatim>\<open>if(!has(tid) || at(tid)->depth() < event->depth()) _map[tid] = event;\<close>\<close>

definition cone_update :: "thread_id \<Rightarrow> 'd event \<Rightarrow> 'd cone \<Rightarrow> 'd cone" where
  "cone_update t e c =
     (case map_of c t of None \<Rightarrow> smap_put t e c
      | Some f \<Rightarrow> if depth f < depth e then smap_put t e c else c)"

definition cone_insert :: "'d event \<Rightarrow> 'd cone \<Rightarrow> 'd cone" where
  "cone_insert p c =
     (if kind p = K_program_init then c
      else cone_update (tid p) p (fold (\<lambda>(t, e). cone_update t e) (cone p) c))"

text \<open>\<^verbatim>\<open>cone(immediate_predecessor)\<close>: the program-init event is never entered.\<close>

definition cone_of_event :: "'d event \<Rightarrow> 'd cone" where
  "cone_of_event p =
     (if kind p = K_program_init then cone p else smap_put (tid p) p (cone p))"

text \<open>\<^verbatim>\<open>cone(immediate_predecessor, single_other_predecessor, other_predecessors)\<close>.\<close>

definition cone_of_events :: "'d event \<Rightarrow> 'd event option \<Rightarrow> 'd event list \<Rightarrow> 'd cone" where
  "cone_of_events p single others =
     fold cone_insert others
       (case single of None \<Rightarrow> smap_put (tid p) p (cone p)
        | Some s \<Rightarrow> cone_insert s (smap_put (tid p) p (cone p)))"

text \<open>\<^verbatim>\<open>cone(begin, end)\<close>.\<close>

definition cone_of_range :: "'d event list \<Rightarrow> 'd cone" where
  "cone_of_range es = fold cone_insert es []"

definition cone_events :: "'d cone \<Rightarrow> 'd event list" where
  "cone_events c = map snd c"

definition cone_max_depth :: "'d cone \<Rightarrow> nat" where
  "cone_max_depth c = fold (\<lambda>e m. max (depth e) m) (cone_events c) 0"

section \<open>Comparisons\<close>

text \<open>
  \<^verbatim>\<open>event::is_less_than(cone const&)\<close> and \<^verbatim>\<open>event::is_less_than(event const&)\<close>. Both are only
  meaningful between events that are not in conflict.
\<close>

definition is_less_than_cone :: "'d event \<Rightarrow> 'd cone \<Rightarrow> bool" where
  "is_less_than_cone e rhs =
     (case map_of rhs (tid e) of
        Some f \<Rightarrow> depth e < depth f \<or> depth e = depth f
      | None \<Rightarrow> kind e = K_program_init)"

definition is_less_than :: "'d event \<Rightarrow> 'd event \<Rightarrow> bool" where
  "is_less_than e rhs =
     (if tid rhs = tid e then depth e < depth rhs else is_less_than_cone e (cone rhs))"

definition is_less_than_eq :: "'d event \<Rightarrow> 'd event \<Rightarrow> bool" where
  "is_less_than_eq e rhs \<longleftrightarrow> rhs = e \<or> is_less_than e rhs"

definition is_lte_for_all_of :: "'d cone \<Rightarrow> 'd cone \<Rightarrow> bool" where
  "is_lte_for_all_of c rhs =
     list_all (\<lambda>(t, e). case map_of c t of None \<Rightarrow> True | Some f \<Rightarrow> \<not> depth f > depth e) rhs"

definition is_gte_for_all_of :: "'d cone \<Rightarrow> 'd cone \<Rightarrow> bool" where
  "is_gte_for_all_of c rhs =
     list_all (\<lambda>(t, e). case map_of c t of None \<Rightarrow> False | Some f \<Rightarrow> \<not> depth f < depth e) rhs"

definition extend_unchecked_single :: "'d cone \<Rightarrow> 'd event \<Rightarrow> 'd cone option" where
  "extend_unchecked_single c e =
     (if kind e = K_program_init then None
      else case map_of c (tid e) of
          Some f \<Rightarrow> if depth f \<le> depth e then Some (smap_put (tid e) e c) else None
        | None \<Rightarrow> Some (smap_put (tid e) e c))"

section \<open>Selecting maximal elements\<close>

text \<open>
  One round of the filter: the candidate \<open>t\<close> erases every kept element below it and is dropped,
  with the rest of the kept elements untouched, at the first kept element above it.
\<close>

fun extremal_scan :: "('a \<Rightarrow> 'a \<Rightarrow> bool) \<Rightarrow> 'a \<Rightarrow> 'a list \<Rightarrow> 'a list \<times> bool" where
  "extremal_scan lt t [] = ([], True)"
| "extremal_scan lt t (r # rs) =
     (if lt r t then extremal_scan lt t rs
      else if lt t r then (r # rs, False)
      else (let (rs', b) = extremal_scan lt t rs in (r # rs', b)))"

definition extremal_step :: "('a \<Rightarrow> 'a \<Rightarrow> bool) \<Rightarrow> 'a \<Rightarrow> 'a list \<Rightarrow> 'a list" where
  "extremal_step lt t result =
     (let (result', is_extremal) = extremal_scan lt t result
      in if is_extremal then result' @ [t] else result')"

definition extremal :: "('a \<Rightarrow> 'a \<Rightarrow> bool) \<Rightarrow> 'a list \<Rightarrow> 'a list" where
  "extremal lt xs = fold (extremal_step lt) xs []"

definition cone_max :: "'d cone \<Rightarrow> 'd event list" where
  "cone_max c = extremal is_less_than (cone_events c)"

text \<open>
  The contract of the filter. On a strict partial order it keeps exactly the elements with
  nothing above them, in their original order.
\<close>

locale strict_order =
  fixes lt :: "'a \<Rightarrow> 'a \<Rightarrow> bool"
  assumes irrefl: "\<not> lt x x"
    and trans: "lt x y \<Longrightarrow> lt y z \<Longrightarrow> lt x z"
begin

lemma asym: "lt x y \<Longrightarrow> \<not> lt y x"
  using irrefl trans by blast

definition antichain :: "'a list \<Rightarrow> bool" where
  "antichain xs \<longleftrightarrow> (\<forall>x \<in> set xs. \<forall>y \<in> set xs. \<not> lt x y)"

lemma scan_dominated:
  assumes "antichain rs" "r \<in> set rs" "lt t r"
  shows "extremal_scan lt t rs = (rs, False)"
  using assms
proof (induction rs)
  case (Cons q rs)
  have q: "\<not> lt q t"
    using Cons.prems trans [of q t r] unfolding antichain_def by auto
  show ?case
  proof (cases "lt t q")
    case False
    then have "r \<in> set rs" "antichain rs"
      using Cons.prems unfolding antichain_def by auto
    then show ?thesis using Cons q False by simp
  qed (simp add: q)
qed simp

lemma scan_kept:
  assumes "\<forall>r \<in> set rs. \<not> lt t r"
  shows "extremal_scan lt t rs = (filter (\<lambda>r. \<not> lt r t) rs, True)"
  using assms by (induction rs) auto

lemma extremal_step_eq:
  assumes "antichain rs"
  shows "extremal_step lt t rs =
    (if \<exists>r \<in> set rs. lt t r then rs else filter (\<lambda>r. \<not> lt r t) rs @ [t])"
  using scan_dominated [OF assms] scan_kept [of rs t] by (auto simp: extremal_step_def)

definition maximal_in :: "'a list \<Rightarrow> 'a list" where
  "maximal_in xs = filter (\<lambda>x. \<forall>y \<in> set xs. \<not> lt x y) xs"

lemma above_maximal: "x \<in> set xs \<Longrightarrow> \<exists>y \<in> set (maximal_in xs). x = y \<or> lt x y"
proof (induction xs arbitrary: x)
  case (Cons a xs)
  have up: "\<exists>y \<in> set (maximal_in (a # xs)). z = y \<or> lt z y" if "z \<in> set xs" for z
  proof -
    from Cons.IH [OF that]
    obtain y where y: "y \<in> set (maximal_in xs)" "z = y \<or> lt z y" by blast
    show ?thesis
    proof (cases "lt y a")
      case True
      then have "\<forall>w \<in> set xs. \<not> lt a w"
        using y(1) trans unfolding maximal_in_def by auto
      then have "a \<in> set (maximal_in (a # xs))"
        using irrefl unfolding maximal_in_def by auto
      then show ?thesis using True y(2) trans by blast
    qed (use y in \<open>auto simp: maximal_in_def\<close>)
  qed
  show ?case
  proof (cases "\<exists>z \<in> set xs. x = z \<or> lt x z")
    case True
    then show ?thesis using up trans by blast
  next
    case False
    then have "x = a" using Cons.prems by auto
    then show ?thesis using False irrefl by (auto simp: maximal_in_def)
  qed
qed simp

lemma maximal_in_snoc:
  "maximal_in (xs @ [t]) =
    (if \<exists>r \<in> set (maximal_in xs). lt t r then maximal_in xs
     else filter (\<lambda>r. \<not> lt r t) (maximal_in xs) @ [t])"
proof (cases "\<exists>r \<in> set (maximal_in xs). lt t r")
  case True
  then obtain r where r: "r \<in> set (maximal_in xs)" "lt t r" by blast
  have "\<not> lt x t" if "x \<in> set (maximal_in xs)" for x
    using r that trans [of x t r] unfolding maximal_in_def by auto
  then show ?thesis
    using True unfolding maximal_in_def by (auto intro: filter_cong)
next
  case False
  then have "\<forall>y \<in> set xs. \<not> lt t y"
    using above_maximal trans by blast
  then show ?thesis
    using False irrefl unfolding maximal_in_def by (auto simp: conj_commute)
qed

lemma antichain_maximal_in: "antichain (maximal_in xs)"
  by (auto simp: antichain_def maximal_in_def)

lemma extremal_eq: "extremal lt xs = filter (\<lambda>x. \<forall>y \<in> set xs. \<not> lt x y) xs"
proof -
  have "fold (extremal_step lt) xs [] = maximal_in xs"
    by (induction xs rule: rev_induct)
       (auto simp: maximal_in_snoc extremal_step_eq [OF antichain_maximal_in], simp add: maximal_in_def)
  then show ?thesis by (simp add: extremal_def maximal_in_def)
qed

end

text \<open>The filter only looks at the order between the elements it is given.\<close>

lemma extremal_scan_cong:
  assumes "\<And>x y. x \<in> insert t (set rs) \<Longrightarrow> y \<in> insert t (set rs) \<Longrightarrow> lt x y = lt' x y"
  shows "extremal_scan lt t rs = extremal_scan lt' t rs"
  using assms
proof (induction rs)
  case (Cons a rs)
  then have "extremal_scan lt t rs = extremal_scan lt' t rs" by auto
  then show ?case using Cons.prems by simp
qed simp

lemma set_extremal_scan: "set (fst (extremal_scan lt t rs)) \<subseteq> set rs"
  by (induction rs) (auto split: prod.splits)

lemma set_extremal_step: "set (extremal_step lt t rs) \<subseteq> insert t (set rs)"
  using set_extremal_scan [of lt t rs] 
  by (cases "extremal_scan lt t rs") (auto simp: extremal_step_def)

lemma extremal_cong:
  assumes "\<And>x y. x \<in> set xs \<Longrightarrow> y \<in> set xs \<Longrightarrow> lt x y = lt' x y"
  shows "extremal lt xs = extremal lt' xs"
proof -
  have "fold (extremal_step lt) xs acc = fold (extremal_step lt') xs acc"
    if "set xs \<union> set acc \<subseteq> A" "\<And>x y. x \<in> A \<Longrightarrow> y \<in> A \<Longrightarrow> lt x y = lt' x y" for A acc xs
    using that
  proof (induction xs arbitrary: acc)
    case (Cons t xs)
    have "extremal_step lt t acc = extremal_step lt' t acc"
      unfolding extremal_step_def using Cons.prems
      by (subst extremal_scan_cong [where lt' = lt']) auto
    moreover have "set xs \<union> set (extremal_step lt' t acc) \<subseteq> A"
      using Cons.prems(1) set_extremal_step [of lt' t acc] by auto
    ultimately show ?case
      using Cons.IH [of "extremal_step lt' t acc"] Cons.prems(2) by simp
  qed simp
  from this [of xs "[]" "set xs"] assms show ?thesis
    unfolding extremal_def by simp
qed

section \<open>Lookups in constructed cones\<close>

lemma smap_ok_cone_update [simp, intro]: "smap_ok c \<Longrightarrow> smap_ok (cone_update t e c)"
  by (auto simp: cone_update_def split: option.splits)

lemma smap_ok_cone_insert [simp, intro]: "smap_ok c \<Longrightarrow> smap_ok (cone_insert p c)"
  by (auto simp: cone_insert_def intro!: smap.ok_fold_put)

lemma smap_ok_fold_insert [simp, intro]: "smap_ok c \<Longrightarrow> smap_ok (fold cone_insert es c)"
  by (rule smap.ok_fold_put) auto

lemma map_of_cone_update [map_laws]:
  "smap_ok c \<Longrightarrow> map_of (cone_update t e c) =
     (case map_of c t of None \<Rightarrow> (map_of c)(t \<mapsto> e)
      | Some f \<Rightarrow> if depth f < depth e then (map_of c)(t \<mapsto> e) else map_of c)"
  by (auto simp: cone_update_def map_laws split: option.splits)

text \<open>
  What a sequence of updates does to one thread: every entry of the result is an entry of the
  old cone or one of the new events, and it is at least as deep as all of them.
\<close>

definition covers :: "'d cone \<Rightarrow> thread_id \<Rightarrow> nat \<Rightarrow> bool" where
  "covers c t d \<longleftrightarrow> (\<exists>f. map_of c t = Some f \<and> d \<le> depth f)"

lemma covers_update: "smap_ok c \<Longrightarrow> covers c t d \<Longrightarrow> covers (cone_update u e c) t d"
  by (auto simp: covers_def map_laws split: option.splits)

lemma covers_update_self: "smap_ok c \<Longrightarrow> covers (cone_update t e c) t (depth e)"
  by (auto simp: covers_def map_laws split: option.splits)

lemma covers_put: "smap_ok c \<Longrightarrow> (\<And>f. map_of c t = Some f \<Longrightarrow> depth f \<le> depth e) \<Longrightarrow> covers c u d
    \<Longrightarrow> covers (smap_put t e c) u d"
  by (auto simp: covers_def map_laws intro: order_trans)

lemma covers_put_self: "smap_ok c \<Longrightarrow> covers (smap_put t e c) t (depth e)"
  by (auto simp: covers_def map_laws)

lemma covers_fold_update:
  "smap_ok c \<Longrightarrow> covers c t d \<Longrightarrow> covers (fold (\<lambda>(t, e). cone_update t e) ps c) t d"
  by (induction ps arbitrary: c) (auto intro: covers_update)

lemma covers_fold_update_self:
  "smap_ok c \<Longrightarrow> (t, e) \<in> set ps \<Longrightarrow> covers (fold (\<lambda>(t, e). cone_update t e) ps c) t (depth e)"
proof (induction ps arbitrary: c)
  case (Cons p ps)
  then show ?case
    by (cases p; cases "p = (t, e)") (auto intro: covers_fold_update covers_update_self)
qed simp

lemma covers_insert: "smap_ok c \<Longrightarrow> covers c t d \<Longrightarrow> covers (cone_insert p c) t d"
  by (auto simp: cone_insert_def intro!: covers_update covers_fold_update smap.ok_fold_put)

lemma covers_insert_self:
  "smap_ok c \<Longrightarrow> kind p \<noteq> K_program_init \<Longrightarrow> covers (cone_insert p c) (tid p) (depth p)"
  by (auto simp: cone_insert_def intro!: covers_update_self smap.ok_fold_put)

lemma covers_insert_cone:
  "smap_ok c \<Longrightarrow> kind p \<noteq> K_program_init \<Longrightarrow> (t, e) \<in> set (cone p) \<Longrightarrow> covers (cone_insert p c) t (depth e)"
  by (auto simp: cone_insert_def intro!: covers_update covers_fold_update_self smap.ok_fold_put)

lemma covers_fold_insert: "smap_ok c \<Longrightarrow> covers c t d \<Longrightarrow> covers (fold cone_insert ps c) t d"
  by (induction ps arbitrary: c) (auto intro: covers_insert)

lemma covers_fold_insert_mem:
  "smap_ok c \<Longrightarrow> p \<in> set ps \<Longrightarrow> (\<And>c'. smap_ok c' \<Longrightarrow> covers (cone_insert p c') t d)
    \<Longrightarrow> covers (fold cone_insert ps c) t d"
proof (induction ps arbitrary: c)
  case (Cons a ps)
  then show ?case by (cases "p = a") (auto intro: covers_fold_insert)
qed simp

lemma set_cone_update: "set (cone_update t e c) \<subseteq> insert (t, e) (set c)"
  using set_smap_put [of t e c] by (auto simp: cone_update_def split: option.splits if_splits)

lemma set_fold_update: "set (fold (\<lambda>(t, e). cone_update t e) ps c) \<subseteq> set ps \<union> set c"
proof (induction ps arbitrary: c)
  case (Cons p ps)
  then show ?case using set_cone_update [of "fst p" "snd p" c] by (cases p) fastforce
qed simp

lemma set_cone_insert: "set (cone_insert p c) \<subseteq> insert (tid p, p) (set (cone p) \<union> set c)"
  using set_cone_update [of "tid p" p] set_fold_update [of "cone p" c]
  by (auto simp: cone_insert_def split: if_splits)

lemma set_fold_insert:
  "set (fold cone_insert ps c) \<subseteq> (\<Union>p \<in> set ps. insert (tid p, p) (set (cone p))) \<union> set c"
proof (induction ps arbitrary: c)
  case (Cons p ps)
  then show ?case using set_cone_insert [of p c] by fastforce
qed simp

lemma cone_insert_root [simp]: "kind p = K_program_init \<Longrightarrow> cone_insert p c = c"
  by (simp add: cone_insert_def)

end
