(* ===== verification/Alloc.thy ===== *)
theory Alloc
  imports Cone
begin

text \<open>
  The constructors of \<^verbatim>\<open>include/por/event/*.h\<close>: the three base-class constructors of
  \<^verbatim>\<open>event/base.h\<close> and the static \<^verbatim>\<open>alloc\<close> of every derived class with all its assertions.
  A constructor whose assertion fails aborts the program: its value is \<open>None\<close>. The inductive
  predicate \<open>allocated\<close> holds of the objects that a sequence of \<^verbatim>\<open>alloc\<close> calls can build, and
  its induction principle distinguishes only how many predecessors the base constructor got.

  \<^verbatim>\<open>std::sort\<close> orders the condition variable predecessors by address; the address of an object
  is the parameter \<open>addr\<close>.
\<close>

section \<open>Base class constructors\<close>

definition program_init :: "'d event" where
  "program_init = Event tid_none [] 0 Program_Init"

text \<open>\<^verbatim>\<open>event(kind, tid, immediate_predecessor)\<close>.\<close>

definition event_single :: "thread_id \<Rightarrow> 'd event \<Rightarrow> ('d, 'd event) body \<Rightarrow> 'd event option" where
  "event_single t p b =
     (let d = depth p + 1 in
      if depth p < d then Some (Event t (cone_of_event p) d b) else None)"

text \<open>\<^verbatim>\<open>event(kind, tid, immediate_predecessor, single_other_predecessor, other_predecessors)\<close>.\<close>

definition event_multi ::
  "thread_id \<Rightarrow> 'd event \<Rightarrow> 'd event option \<Rightarrow> 'd event list \<Rightarrow> ('d, 'd event) body \<Rightarrow> 'd event option" where
  "event_multi t p single others b =
     (let c = cone_of_events p single others; d = cone_max_depth c + 1 in
      if depth p < d \<and> (case single of None \<Rightarrow> True | Some s \<Rightarrow> depth s < d)
         \<and> list_all (\<lambda>q. depth q < d) others
      then Some (Event t c d b) else None)"

section \<open>Derived class constructors\<close>

text \<open>The four assertions on the same-thread predecessor that most classes share.\<close>

definition thread_pred_ok :: "thread_id \<Rightarrow> 'd event \<Rightarrow> bool" where
  "thread_pred_ok t tp \<longleftrightarrow> \<not> tid_empty (tid tp) \<and> tid tp = t
     \<and> kind tp \<noteq> K_program_init \<and> kind tp \<noteq> K_thread_exit"

definition alloc_thread_init :: "thread_id \<Rightarrow> 'd event \<Rightarrow> 'd event option" where
  "alloc_thread_init t cr =
     (if tid cr \<noteq> t
         \<and> ((kind cr = K_program_init \<and> tid_empty (tid cr))
            \<or> (kind cr = K_thread_create \<and> \<not> tid_empty (tid cr)))
      then event_single t cr (Thread_Init cr) else None)"

definition alloc_thread_create :: "thread_id \<Rightarrow> 'd event \<Rightarrow> thread_id \<Rightarrow> 'd event option" where
  "alloc_thread_create t tp new_tid =
     (if thread_pred_ok t tp \<and> \<not> tid_empty new_tid \<and> new_tid \<noteq> t
      then event_single t tp (Thread_Create tp new_tid) else None)"

definition alloc_thread_join :: "thread_id \<Rightarrow> 'd event \<Rightarrow> 'd event \<Rightarrow> 'd event option" where
  "alloc_thread_join t tp joined =
     (if thread_pred_ok t tp \<and> \<not> tid_empty (tid joined) \<and> tid joined \<noteq> t
         \<and> kind joined = K_thread_exit
      then event_multi t tp (Some joined) [] (Thread_Join tp joined) else None)"

definition alloc_thread_exit :: "thread_id \<Rightarrow> 'd event \<Rightarrow> bool \<Rightarrow> 'd event option" where
  "alloc_thread_exit t tp atomic =
     (if thread_pred_ok t tp \<and> (atomic \<longrightarrow> kind tp = K_lock_release)
      then event_single t tp (Thread_Exit tp atomic) else None)"

definition alloc_local :: "thread_id \<Rightarrow> 'd event \<Rightarrow> 'd list \<Rightarrow> 'd event option" where
  "alloc_local t tp path =
     (if thread_pred_ok t tp then event_single t tp (Local tp path) else None)"

definition alloc_lock_create :: "thread_id \<Rightarrow> lock_id_t \<Rightarrow> 'd event \<Rightarrow> 'd event option" where
  "alloc_lock_create t l tp =
     (if thread_pred_ok t tp \<and> l \<noteq> 0 then event_single t tp (Lock_Create l tp) else None)"

definition alloc_lock_destroy ::
  "thread_id \<Rightarrow> lock_id_t \<Rightarrow> 'd event \<Rightarrow> 'd event option \<Rightarrow> 'd event option" where
  "alloc_lock_destroy t l tp lp =
     (if thread_pred_ok t tp
         \<and> (case lp of None \<Rightarrow> True
            | Some p \<Rightarrow> kind p \<noteq> K_lock_acquire \<and> (kind p = K_lock_create \<or> kind p = K_lock_release)
                \<and> lid p = l)
      then event_multi t tp lp [] (Lock_Destroy l tp lp) else None)"

definition alloc_lock_acquire ::
  "thread_id \<Rightarrow> lock_id_t \<Rightarrow> 'd event \<Rightarrow> 'd event option \<Rightarrow> 'd event option" where
  "alloc_lock_acquire t l tp lp =
     (if thread_pred_ok t tp
         \<and> (case lp of None \<Rightarrow> True
            | Some p \<Rightarrow> (kind p = K_lock_create \<or> kind p = K_lock_release \<or> kind p = K_wait1) \<and> lid p = l)
         \<and> l \<noteq> 0
      then event_multi t tp lp [] (Lock_Acquire l tp lp) else None)"

definition alloc_lock_release ::
  "thread_id \<Rightarrow> lock_id_t \<Rightarrow> 'd event \<Rightarrow> 'd event \<Rightarrow> bool \<Rightarrow> 'd event option" where
  "alloc_lock_release t l tp lp atomic =
     (if thread_pred_ok t tp \<and> (kind lp = K_lock_acquire \<or> kind lp = K_wait2)
         \<and> tid lp = t \<and> lid lp = l \<and> l \<noteq> 0
         \<and> (atomic \<longrightarrow> lp = tp \<and> kind lp = K_lock_acquire)
      then event_multi t tp (Some lp) [] (Lock_Release l tp lp atomic) else None)"

definition alloc_condition_variable_create ::
  "thread_id \<Rightarrow> cond_id_t \<Rightarrow> 'd event \<Rightarrow> 'd event option" where
  "alloc_condition_variable_create t c tp =
     (if thread_pred_ok t tp \<and> c \<noteq> 0 then event_single t tp (Cond_Create c tp) else None)"

definition alloc_condition_variable_destroy ::
  "('d event \<Rightarrow> nat) \<Rightarrow> thread_id \<Rightarrow> cond_id_t \<Rightarrow> 'd event \<Rightarrow> 'd event list \<Rightarrow> 'd event option" where
  "alloc_condition_variable_destroy addr t c tp cond_preds =
     (let cps = sort_key addr cond_preds in
      if thread_pred_ok t tp
         \<and> list_all (\<lambda>e. (kind e = K_condition_variable_create \<or> kind e = K_broadcast
              \<or> kind e = K_signal \<or> kind e = K_wait2) \<and> cid e = c) cps
         \<and> c \<noteq> 0
      then event_multi t tp None cps (Cond_Destroy c tp cps) else None)"

definition wait1_cond_ok :: "thread_id \<Rightarrow> cond_id_t \<Rightarrow> 'd event \<Rightarrow> bool" where
  "wait1_cond_ok t c e =
     (if kind e = K_signal then is_lost e \<and> cid e = c
      else if kind e = K_broadcast then \<not> is_notifying_thread e t \<and> cid e = c
      else kind e = K_condition_variable_create \<and> cid e = c)"

definition alloc_wait1 ::
  "('d event \<Rightarrow> nat) \<Rightarrow> thread_id \<Rightarrow> cond_id_t \<Rightarrow> lock_id_t \<Rightarrow> 'd event \<Rightarrow> 'd event \<Rightarrow> 'd event list
    \<Rightarrow> 'd event option" where
  "alloc_wait1 addr t c l tp lp cond_preds =
     (let cps = sort_key addr cond_preds in
      if thread_pred_ok t tp
         \<and> (kind lp = K_lock_acquire \<or> kind lp = K_wait2) \<and> tid lp = t \<and> lid lp = l
         \<and> list_all (wait1_cond_ok t c) cps
         \<and> c \<noteq> 0 \<and> l \<noteq> 0
      then event_multi t tp (Some lp) cps (Wait1 c l tp lp cps) else None)"

text \<open>
  The last two assertions of \<^verbatim>\<open>wait2\<close>: the notifying signal or broadcast wakes up exactly
  the \<^verbatim>\<open>wait1\<close> that precedes this event on its thread.
\<close>

definition wait2_notified :: "thread_id \<Rightarrow> cond_id_t \<Rightarrow> 'd event \<Rightarrow> 'd event \<Rightarrow> bool" where
  "wait2_notified t c tp n =
     (if kind n = K_signal
      then notified_thread n = t \<and> cid n = c \<and> wait_predecessors n = [tp]
      else kind n = K_broadcast \<and> is_notifying_thread n t \<and> cid n = c
           \<and> list_ex (\<lambda>e. e = tp) (wait_predecessors n))"

definition alloc_wait2 ::
  "thread_id \<Rightarrow> cond_id_t \<Rightarrow> lock_id_t \<Rightarrow> 'd event \<Rightarrow> 'd event \<Rightarrow> 'd event \<Rightarrow> 'd event option" where
  "alloc_wait2 t c l tp lp n =
     (if \<not> tid_empty (tid tp) \<and> tid tp = t \<and> kind tp = K_wait1
         \<and> (kind lp = K_lock_release \<or> kind lp = K_wait1) \<and> lid lp = l
         \<and> c \<noteq> 0 \<and> l \<noteq> 0
         \<and> tid n \<noteq> t \<and> wait2_notified t c tp n
      then event_multi t tp (Some lp) [n] (Wait2 c l tp n lp) else None)"

text \<open>The notifying \<^verbatim>\<open>signal::alloc\<close> and the one for a lost signal.\<close>

definition alloc_signal ::
  "thread_id \<Rightarrow> cond_id_t \<Rightarrow> 'd event \<Rightarrow> 'd event \<Rightarrow> 'd event option" where
  "alloc_signal t c tp w =
     (if thread_pred_ok t tp
         \<and> \<not> tid_empty (tid w) \<and> tid w \<noteq> t \<and> kind w = K_wait1 \<and> cid w = c \<and> c \<noteq> 0
         \<and> signal_notified_thread_of [w] = tid w
      then event_multi t tp (Some w) [] (Signal c tp [w]) else None)"

text \<open>
  A test shared by the constructors of lost signals and lost broadcasts: the predecessor on the
  condition variable is a notification that is not lost and did not notify this thread, or the
  creation of the variable.
\<close>

definition non_lost_notification :: "thread_id \<Rightarrow> cond_id_t \<Rightarrow> 'd event \<Rightarrow> bool" where
  "non_lost_notification t c e =
     (if kind e = K_signal then \<not> is_lost e \<and> notified_thread e \<noteq> t \<and> cid e = c
      else if kind e = K_broadcast then \<not> is_lost e \<and> \<not> is_notifying_thread e t \<and> cid e = c
      else kind e = K_condition_variable_create \<and> cid e = c)"

definition alloc_signal_lost ::
  "('d event \<Rightarrow> nat) \<Rightarrow> thread_id \<Rightarrow> cond_id_t \<Rightarrow> 'd event \<Rightarrow> 'd event list \<Rightarrow> 'd event option" where
  "alloc_signal_lost addr t c tp cond_preds =
     (let cps = sort_key addr cond_preds in
      if thread_pred_ok t tp \<and> signal_wait_predecessor cps = None
         \<and> list_all (non_lost_notification t c) cps \<and> c \<noteq> 0
         \<and> signal_is_lost_of cps \<and> tid_empty (signal_notified_thread_of cps)
      then event_multi t tp None cps (Signal c tp cps) else None)"

text \<open>
  \<^verbatim>\<open>broadcast\<close>: the base constructor sees the predecessors in the given order; they are stored
  grouped into \<^verbatim>\<open>wait1\<close> events, notifications and the creation event.
\<close>

definition broadcast_group :: "'d event list \<Rightarrow> 'd event list" where
  "broadcast_group cps =
     filter (\<lambda>e. kind e = K_wait1) cps
     @ filter (\<lambda>e. kind e = K_signal \<or> kind e = K_broadcast) cps
     @ filter (\<lambda>e. kind e = K_condition_variable_create) cps"

definition broadcast_cond_ok :: "thread_id \<Rightarrow> cond_id_t \<Rightarrow> 'd event list \<Rightarrow> nat \<Rightarrow> bool" where
  "broadcast_cond_ok t c cps n =
     (if n > 0
      then list_all (\<lambda>e.
             if kind e = K_wait1 then tid e \<noteq> t
             else kind e = K_signal \<and> \<not> is_lost e \<and> notified_thread e \<noteq> t
                  \<and> list_all (\<lambda>w. notified_thread e \<noteq> tid w) (broadcast_wait_predecessors cps n)) cps
      else list_all (non_lost_notification t c) cps)"

definition alloc_broadcast ::
  "('d event \<Rightarrow> nat) \<Rightarrow> thread_id \<Rightarrow> cond_id_t \<Rightarrow> 'd event \<Rightarrow> 'd event list \<Rightarrow> 'd event option" where
  "alloc_broadcast addr t c tp cond_preds =
     (let given = sort_key addr cond_preds;
          wait1 = filter (\<lambda>e. kind e = K_wait1) given;
          create = filter (\<lambda>e. kind e = K_condition_variable_create) given;
          stored = broadcast_group given;
          n = length wait1 in
      if list_all (\<lambda>e. (kind e = K_condition_variable_create \<or> kind e = K_wait1
              \<or> kind e = K_signal \<or> kind e = K_broadcast) \<and> cid e = c) given
         \<and> (n > 0 \<longrightarrow> create = []) \<and> length create \<le> 1
         \<and> length stored = length given
         \<and> c \<noteq> 0 \<and> thread_pred_ok t tp
         \<and> length (broadcast_wait_predecessors stored n) = n
         \<and> list_all (\<lambda>e. kind e = K_wait1 \<and> \<not> tid_empty (tid e) \<and> tid e \<noteq> t)
             (broadcast_wait_predecessors stored n)
         \<and> broadcast_cond_ok t c stored n
      then event_multi t tp None given (Broadcast c tp stored n) else None)"

section \<open>Constructed members\<close>

text \<open>The stored members of a constructed object, with what its assertions say about them.\<close>

lemma event_single_body: "event_single t p b = Some e \<Longrightarrow> tid e = t \<and> body e = b"
  by (auto simp: event_single_def Let_def)

lemma event_multi_body: "event_multi t p s os b = Some e \<Longrightarrow> tid e = t \<and> body e = b"
  by (auto simp: event_multi_def Let_def split: if_split_asm)

lemma alloc_thread_init_Some: "alloc_thread_init t cr = Some e \<Longrightarrow>
    tid e = t \<and> body e = Thread_Init cr \<and> tid cr \<noteq> t
    \<and> (kind cr = K_program_init \<and> tid_empty (tid cr) \<or> kind cr = K_thread_create \<and> \<not> tid_empty (tid cr))"
  unfolding alloc_thread_init_def by (simp split: if_split_asm) (blast dest: event_single_body)

lemma alloc_thread_create_Some: "alloc_thread_create t tp new = Some e \<Longrightarrow>
    tid e = t \<and> body e = Thread_Create tp new \<and> thread_pred_ok t tp \<and> \<not> tid_empty new \<and> new \<noteq> t"
  unfolding alloc_thread_create_def by (simp split: if_split_asm) (blast dest: event_single_body)

lemma alloc_thread_join_Some: "alloc_thread_join t tp j = Some e \<Longrightarrow>
    tid e = t \<and> body e = Thread_Join tp j \<and> thread_pred_ok t tp \<and> kind j = K_thread_exit
    \<and> \<not> tid_empty (tid j) \<and> tid j \<noteq> t"
  unfolding alloc_thread_join_def by (simp split: if_split_asm) (blast dest: event_multi_body)

lemma alloc_thread_exit_Some: "alloc_thread_exit t tp a = Some e \<Longrightarrow>
    tid e = t \<and> body e = Thread_Exit tp a \<and> thread_pred_ok t tp \<and> (a \<longrightarrow> kind tp = K_lock_release)"
  unfolding alloc_thread_exit_def by (simp split: if_split_asm) (blast dest: event_single_body)

lemma alloc_local_Some: "alloc_local t tp path = Some e \<Longrightarrow>
    tid e = t \<and> body e = Local tp path \<and> thread_pred_ok t tp"
  unfolding alloc_local_def by (simp split: if_split_asm) (blast dest: event_single_body)

lemma alloc_lock_create_Some: "alloc_lock_create t l tp = Some e \<Longrightarrow>
    tid e = t \<and> body e = Lock_Create l tp \<and> thread_pred_ok t tp \<and> l \<noteq> 0"
  unfolding alloc_lock_create_def by (simp split: if_split_asm) (blast dest: event_single_body)

lemma alloc_lock_destroy_Some: "alloc_lock_destroy t l tp lp = Some e \<Longrightarrow>
    tid e = t \<and> body e = Lock_Destroy l tp lp \<and> thread_pred_ok t tp
    \<and> pred_option (\<lambda>p. (kind p = K_lock_create \<or> kind p = K_lock_release) \<and> lid p = l) lp"
  unfolding alloc_lock_destroy_def
  by (cases lp) (simp_all split: if_split_asm, (blast dest: event_multi_body)+)

lemma alloc_lock_acquire_Some: "alloc_lock_acquire t l tp lp = Some e \<Longrightarrow>
    tid e = t \<and> body e = Lock_Acquire l tp lp \<and> thread_pred_ok t tp \<and> l \<noteq> 0
    \<and> pred_option (\<lambda>p. (kind p = K_lock_create \<or> kind p = K_lock_release \<or> kind p = K_wait1) \<and> lid p = l) lp"
  unfolding alloc_lock_acquire_def
  by (cases lp) (simp_all split: if_split_asm, (blast dest: event_multi_body)+)

lemma alloc_lock_release_Some: "alloc_lock_release t l tp lp a = Some e \<Longrightarrow>
    tid e = t \<and> body e = Lock_Release l tp lp a \<and> thread_pred_ok t tp \<and> l \<noteq> 0
    \<and> (kind lp = K_lock_acquire \<or> kind lp = K_wait2) \<and> tid lp = t \<and> lid lp = l
    \<and> (a \<longrightarrow> lp = tp \<and> kind lp = K_lock_acquire)"
  unfolding alloc_lock_release_def by (simp split: if_split_asm) (blast dest: event_multi_body)

lemma alloc_condition_variable_create_Some: "alloc_condition_variable_create t c tp = Some e \<Longrightarrow>
    tid e = t \<and> body e = Cond_Create c tp \<and> thread_pred_ok t tp \<and> c \<noteq> 0"
  unfolding alloc_condition_variable_create_def by (simp split: if_split_asm) (blast dest: event_single_body)

lemma alloc_condition_variable_destroy_Some: "alloc_condition_variable_destroy addr t c tp cps = Some e \<Longrightarrow>
    tid e = t \<and> body e = Cond_Destroy c tp (sort_key addr cps) \<and> thread_pred_ok t tp \<and> c \<noteq> 0
    \<and> list_all (\<lambda>e. (kind e = K_condition_variable_create \<or> kind e = K_broadcast
         \<or> kind e = K_signal \<or> kind e = K_wait2) \<and> cid e = c) (sort_key addr cps)"
  unfolding alloc_condition_variable_destroy_def Let_def
  by (simp split: if_split_asm) (blast dest: event_multi_body)

lemma alloc_wait1_Some: "alloc_wait1 addr t c l tp lp cps = Some e \<Longrightarrow>
    tid e = t \<and> body e = Wait1 c l tp lp (sort_key addr cps) \<and> thread_pred_ok t tp \<and> c \<noteq> 0 \<and> l \<noteq> 0
    \<and> (kind lp = K_lock_acquire \<or> kind lp = K_wait2) \<and> tid lp = t \<and> lid lp = l
    \<and> list_all (wait1_cond_ok t c) (sort_key addr cps)"
  unfolding alloc_wait1_def Let_def
  by (simp split: if_split_asm) (blast dest: event_multi_body)

lemma alloc_wait2_Some: "alloc_wait2 t c l tp lp n = Some e \<Longrightarrow>
    tid e = t \<and> body e = Wait2 c l tp n lp \<and> \<not> tid_empty t \<and> tid tp = t \<and> kind tp = K_wait1
    \<and> c \<noteq> 0 \<and> l \<noteq> 0 \<and> (kind lp = K_lock_release \<or> kind lp = K_wait1) \<and> lid lp = l
    \<and> tid n \<noteq> t \<and> wait2_notified t c tp n"
  unfolding alloc_wait2_def by (simp split: if_split_asm) (blast dest: event_multi_body)

lemma alloc_signal_Some: "alloc_signal t c tp w = Some e \<Longrightarrow>
    tid e = t \<and> body e = Signal c tp [w] \<and> thread_pred_ok t tp \<and> c \<noteq> 0
    \<and> kind w = K_wait1 \<and> cid w = c \<and> tid w \<noteq> t \<and> \<not> tid_empty (tid w)"
  unfolding alloc_signal_def by (simp split: if_split_asm) (blast dest: event_multi_body)

lemma alloc_signal_lost_Some: "alloc_signal_lost addr t c tp cps = Some e \<Longrightarrow>
    tid e = t \<and> body e = Signal c tp (sort_key addr cps) \<and> thread_pred_ok t tp \<and> c \<noteq> 0
    \<and> signal_is_lost_of (sort_key addr cps) \<and> list_all (non_lost_notification t c) (sort_key addr cps)"
  unfolding alloc_signal_lost_def Let_def
  by (simp split: if_split_asm) (blast dest: event_multi_body)

lemma alloc_broadcast_Some: "alloc_broadcast addr t c tp cps = Some e \<Longrightarrow>
    tid e = t \<and> thread_pred_ok t tp \<and> c \<noteq> 0
    \<and> body e = Broadcast c tp (broadcast_group (sort_key addr cps))
         (length (filter (\<lambda>e. kind e = K_wait1) (sort_key addr cps)))
    \<and> list_all (\<lambda>e. (kind e = K_condition_variable_create \<or> kind e = K_wait1
              \<or> kind e = K_signal \<or> kind e = K_broadcast) \<and> cid e = c) (sort_key addr cps)
    \<and> broadcast_cond_ok t c (broadcast_group (sort_key addr cps))
         (length (filter (\<lambda>e. kind e = K_wait1) (sort_key addr cps)))"
  unfolding alloc_broadcast_def Let_def
  by (simp split: if_split_asm) (blast dest: event_multi_body)

lemmas alloc_Some = alloc_thread_init_Some alloc_thread_create_Some alloc_thread_join_Some
  alloc_thread_exit_Some alloc_local_Some alloc_lock_create_Some alloc_lock_destroy_Some
  alloc_lock_acquire_Some alloc_lock_release_Some alloc_condition_variable_create_Some
  alloc_condition_variable_destroy_Some alloc_wait1_Some alloc_wait2_Some alloc_signal_Some
  alloc_signal_lost_Some alloc_broadcast_Some

end
