(* ===== verification/Causality.thy ===== *)
theory Causality
  imports Alloc
begin

text \<open>
  Causality of the events that the constructors of theory Alloc can build. The cones that the
  base-class constructors fill work as vector clocks: in a set of events without conflict the
  depth comparison \<^verbatim>\<open>is_less_than\<close> decides causality, and \<^verbatim>\<open>event_iterator\<close>
  (\<^verbatim>\<open>lib/Por/event.cpp\<close>) enumerates the local configuration of an event.
\<close>

section \<open>Objects built by the constructors\<close>

text \<open>
  A thread-init event is only ever built for a non-empty thread id: that is a precondition of
  its callers, its own assertions do not exclude the empty id.
\<close>

inductive allocated :: "('d event \<Rightarrow> nat) \<Rightarrow> 'd event \<Rightarrow> bool" for addr where
  a_program_init: "allocated addr program_init"
| a_thread_init: "allocated addr cr \<Longrightarrow> \<not> tid_empty t \<Longrightarrow> alloc_thread_init t cr = Some e \<Longrightarrow> allocated addr e"
| a_thread_create: "allocated addr tp \<Longrightarrow> alloc_thread_create t tp new = Some e \<Longrightarrow> allocated addr e"
| a_thread_join: "allocated addr tp \<Longrightarrow> allocated addr j \<Longrightarrow> alloc_thread_join t tp j = Some e \<Longrightarrow> allocated addr e"
| a_thread_exit: "allocated addr tp \<Longrightarrow> alloc_thread_exit t tp atomic = Some e \<Longrightarrow> allocated addr e"
| a_local: "allocated addr tp \<Longrightarrow> alloc_local t tp path = Some e \<Longrightarrow> allocated addr e"
| a_lock_create: "allocated addr tp \<Longrightarrow> alloc_lock_create t l tp = Some e \<Longrightarrow> allocated addr e"
| a_lock_destroy: "allocated addr tp \<Longrightarrow> pred_option (allocated addr) lp
    \<Longrightarrow> alloc_lock_destroy t l tp lp = Some e \<Longrightarrow> allocated addr e"
| a_lock_acquire: "allocated addr tp \<Longrightarrow> pred_option (allocated addr) lp
    \<Longrightarrow> alloc_lock_acquire t l tp lp = Some e \<Longrightarrow> allocated addr e"
| a_lock_release: "allocated addr tp \<Longrightarrow> allocated addr lp
    \<Longrightarrow> alloc_lock_release t l tp lp atomic = Some e \<Longrightarrow> allocated addr e"
| a_cond_create: "allocated addr tp \<Longrightarrow> alloc_condition_variable_create t c tp = Some e \<Longrightarrow> allocated addr e"
| a_cond_destroy: "allocated addr tp \<Longrightarrow> list_all (allocated addr) cps
    \<Longrightarrow> alloc_condition_variable_destroy addr t c tp cps = Some e \<Longrightarrow> allocated addr e"
| a_wait1: "allocated addr tp \<Longrightarrow> allocated addr lp \<Longrightarrow> list_all (allocated addr) cps
    \<Longrightarrow> alloc_wait1 addr t c l tp lp cps = Some e \<Longrightarrow> allocated addr e"
| a_wait2: "allocated addr tp \<Longrightarrow> allocated addr lp \<Longrightarrow> allocated addr n
    \<Longrightarrow> alloc_wait2 t c l tp lp n = Some e \<Longrightarrow> allocated addr e"
| a_signal: "allocated addr tp \<Longrightarrow> allocated addr w \<Longrightarrow> alloc_signal t c tp w = Some e \<Longrightarrow> allocated addr e"
| a_signal_lost: "allocated addr tp \<Longrightarrow> list_all (allocated addr) cps
    \<Longrightarrow> alloc_signal_lost addr t c tp cps = Some e \<Longrightarrow> allocated addr e"
| a_broadcast: "allocated addr tp \<Longrightarrow> list_all (allocated addr) cps
    \<Longrightarrow> alloc_broadcast addr t c tp cps = Some e \<Longrightarrow> allocated addr e"

text \<open>What an object looks like after the base constructor with one or with several predecessors.\<close>

definition single_shape :: "'d event \<Rightarrow> 'd event \<Rightarrow> bool" where
  "single_shape e p \<longleftrightarrow>
     cone e = cone_of_event p \<and> depth e = Suc (depth p) \<and> predecessors e = [p]
     \<and> kind e \<noteq> K_program_init \<and> \<not> tid_empty (tid e)
     \<and> (if kind e = K_thread_init
        then (kind p = K_program_init \<or> kind p = K_thread_create) \<and> tid p \<noteq> tid e
          \<and> thread_predecessor e = None
        else thread_pred_ok (tid e) p \<and> thread_predecessor e = Some p)"

definition multi_shape :: "'d event \<Rightarrow> 'd event \<Rightarrow> 'd event option \<Rightarrow> 'd event list \<Rightarrow> bool" where
  "multi_shape e p single others \<longleftrightarrow>
     cone e = cone_of_events p single others
     \<and> depth e = Suc (cone_max_depth (cone_of_events p single others))
     \<and> set (predecessors e) = insert p (set_option single \<union> set others)
     \<and> kind e \<noteq> K_program_init \<and> kind e \<noteq> K_thread_init \<and> \<not> tid_empty (tid e)
     \<and> thread_pred_ok (tid e) p \<and> thread_predecessor e = Some p
     \<and> (\<forall>q \<in> set (predecessors e). kind q \<noteq> K_program_init)"

lemma single_shapeI:
  "event_single t p b = Some e \<Longrightarrow> thread_pred_ok t p \<Longrightarrow> preds_of b = [p] \<Longrightarrow> thread_pred_of b = Some p
    \<Longrightarrow> kind_of b \<noteq> K_program_init \<Longrightarrow> kind_of b \<noteq> K_thread_init \<Longrightarrow> single_shape e p"
  by (auto simp: event_single_def single_shape_def thread_pred_ok_def kind_def predecessors_def
      thread_predecessor_def Let_def)

lemma multi_shapeI:
  "event_multi t p s os b = Some e \<Longrightarrow> thread_pred_ok t p
    \<Longrightarrow> set (preds_of b) = insert p (set_option s \<union> set os) \<Longrightarrow> thread_pred_of b = Some p
    \<Longrightarrow> kind_of b \<noteq> K_program_init \<Longrightarrow> kind_of b \<noteq> K_thread_init
    \<Longrightarrow> (\<And>q. q \<in> set_option s \<union> set os \<Longrightarrow> kind q \<noteq> K_program_init) \<Longrightarrow> multi_shape e p s os"
  by (auto simp: event_multi_def multi_shape_def thread_pred_ok_def kind_def predecessors_def
      thread_predecessor_def Let_def split: if_splits)

text \<open>The side conditions of the two rules, in the form that the assertions give them.\<close>

lemma non_lost_notification_kind: "non_lost_notification t c e \<Longrightarrow> kind e \<noteq> K_program_init"
  by (auto simp: non_lost_notification_def split: if_splits)

lemma set_broadcast_group:
  "list_all (\<lambda>e. (kind e = K_condition_variable_create \<or> kind e = K_wait1
     \<or> kind e = K_signal \<or> kind e = K_broadcast) \<and> P e) xs \<Longrightarrow> set (broadcast_group xs) = set xs"
  by (auto simp: broadcast_group_def list_all_iff)

named_theorems shape_intros

lemma shape_thread_init [shape_intros]:
  "alloc_thread_init t cr = Some e \<Longrightarrow> \<not> tid_empty t \<Longrightarrow> single_shape e cr"
  by (auto simp: alloc_thread_init_def event_single_def single_shape_def thread_pred_ok_def kind_def
      predecessors_def thread_predecessor_def Let_def split: if_splits)

lemma shape_thread_create [shape_intros]: "alloc_thread_create t tp new = Some e \<Longrightarrow> single_shape e tp"
  by (auto simp: alloc_thread_create_def intro: single_shapeI split: if_splits)

lemma shape_thread_exit [shape_intros]: "alloc_thread_exit t tp a = Some e \<Longrightarrow> single_shape e tp"
  by (auto simp: alloc_thread_exit_def intro: single_shapeI split: if_split_asm)

lemma shape_local [shape_intros]: "alloc_local t tp path = Some e \<Longrightarrow> single_shape e tp"
  by (auto simp: alloc_local_def intro: single_shapeI split: if_splits)

lemma shape_lock_create [shape_intros]: "alloc_lock_create t l tp = Some e \<Longrightarrow> single_shape e tp"
  by (auto simp: alloc_lock_create_def intro: single_shapeI split: if_splits)

lemma shape_cond_create [shape_intros]: "alloc_condition_variable_create t c tp = Some e \<Longrightarrow> single_shape e tp"
  by (auto simp: alloc_condition_variable_create_def intro: single_shapeI split: if_splits)

lemma shape_thread_join [shape_intros]: "alloc_thread_join t tp j = Some e \<Longrightarrow> multi_shape e tp (Some j) []"
  unfolding alloc_thread_join_def by (rule multi_shapeI) (auto split: if_split_asm)

lemma shape_lock_destroy [shape_intros]: "alloc_lock_destroy t l tp lp = Some e \<Longrightarrow> multi_shape e tp lp []"
  unfolding alloc_lock_destroy_def
  by (rule multi_shapeI) (auto simp: opt_lock_predecessors_def split: if_split_asm option.splits)

lemma shape_lock_acquire [shape_intros]: "alloc_lock_acquire t l tp lp = Some e \<Longrightarrow> multi_shape e tp lp []"
  unfolding alloc_lock_acquire_def
  by (rule multi_shapeI) (auto simp: opt_lock_predecessors_def split: if_split_asm option.splits)

lemma shape_lock_release [shape_intros]:
  "alloc_lock_release t l tp lp a = Some e \<Longrightarrow> multi_shape e tp (Some lp) []"
  unfolding alloc_lock_release_def
  by (rule multi_shapeI) (auto simp: lock_release_predecessors_def split: if_split_asm)

lemma shape_wait2 [shape_intros]: "alloc_wait2 t c l tp lp n = Some e \<Longrightarrow> multi_shape e tp (Some lp) [n]"
  unfolding alloc_wait2_def
  by (rule multi_shapeI) (auto simp: thread_pred_ok_def wait2_notified_def split: if_split_asm)

lemma shape_signal [shape_intros]: "alloc_signal t c tp w = Some e \<Longrightarrow> multi_shape e tp (Some w) []"
  unfolding alloc_signal_def by (rule multi_shapeI) (auto split: if_split_asm)

lemma shape_cond_destroy [shape_intros]:
  "alloc_condition_variable_destroy addr t c tp cps = Some e \<Longrightarrow> multi_shape e tp None (sort_key addr cps)"
  unfolding alloc_condition_variable_destroy_def Let_def
  by (rule multi_shapeI) (auto simp: list_all_iff split: if_split_asm)

lemma shape_wait1 [shape_intros]:
  "alloc_wait1 addr t c l tp lp cps = Some e \<Longrightarrow> multi_shape e tp (Some lp) (sort_key addr cps)"
  unfolding alloc_wait1_def Let_def
  by (rule multi_shapeI) (auto simp: list_all_iff wait1_cond_ok_def split: if_split_asm)

lemma shape_signal_lost [shape_intros]:
  "alloc_signal_lost addr t c tp cps = Some e \<Longrightarrow> multi_shape e tp None (sort_key addr cps)"
  unfolding alloc_signal_lost_def Let_def
  by (rule multi_shapeI) (auto simp: list_all_iff split: if_split_asm dest: non_lost_notification_kind)

lemma shape_broadcast [shape_intros]:
  assumes "alloc_broadcast addr t c tp cps = Some e"
  shows "multi_shape e tp None (sort_key addr cps)"
proof -
  let ?g = "sort_key addr cps"
  have all: "list_all (\<lambda>e. (kind e = K_condition_variable_create \<or> kind e = K_wait1
              \<or> kind e = K_signal \<or> kind e = K_broadcast) \<and> cid e = c) ?g"
    using assms unfolding alloc_broadcast_def Let_def by (simp split: if_split_asm)
  have tp: "thread_pred_ok t tp"
    using assms unfolding alloc_broadcast_def Let_def by (simp split: if_split_asm)
  have "event_multi t tp None ?g
      (Broadcast c tp (broadcast_group ?g) (length (filter (\<lambda>e. kind e = K_wait1) ?g))) = Some e"
    using assms unfolding alloc_broadcast_def Let_def by (simp split: if_split_asm)
  then show ?thesis
    by (rule multi_shapeI) (use all tp set_broadcast_group [OF all] in \<open>auto simp: list_all_iff\<close>)
qed

text \<open>The induction principle with one case per base constructor.\<close>

lemma allocated_shape_induct [consumes 1, case_names root single multi]:
  assumes "allocated addr e"
    and root: "P program_init"
    and single: "\<And>e p. single_shape e p \<Longrightarrow> allocated addr p \<Longrightarrow> P p \<Longrightarrow> P e"
    and multi: "\<And>e p s os. multi_shape e p s os \<Longrightarrow> (\<And>q. q \<in> set (predecessors e) \<Longrightarrow> allocated addr q)
      \<Longrightarrow> (\<And>q. q \<in> set (predecessors e) \<Longrightarrow> P q) \<Longrightarrow> P e"
  shows "P e"
proof -
  have m: "P e" if "multi_shape e p s os" "allocated addr p \<and> P p"
    "pred_option (\<lambda>q. allocated addr q \<and> P q) s" "list_all (\<lambda>q. allocated addr q \<and> P q) os" for e p s os
    using multi [OF that(1)] that unfolding multi_shape_def by (auto simp: list_all_iff pred_option_def)
  have one: "P e" if "single_shape e p" "allocated addr p \<and> P p" for e p
    using single that by blast
  show ?thesis
    using assms(1)
  proof (induction rule: allocated.induct)
    case a_program_init show ?case by (rule root)
  qed (((rule one, erule (1) shape_intros | rule one, erule shape_intros | rule m, erule shape_intros);
        simp add: list_all_iff)+)
qed

section \<open>Happens-before\<close>

definition hb :: "'d event \<Rightarrow> 'd event \<Rightarrow> bool" where
  "hb = (\<lambda>a b. a \<in> set (predecessors b))\<^sup>+\<^sup>+"

lemma hb_pred: "p \<in> set (predecessors e) \<Longrightarrow> hb p e"
  unfolding hb_def by blast

lemma hb_trans [trans]: "hb a b \<Longrightarrow> hb b c \<Longrightarrow> hb a c"
  unfolding hb_def by (rule tranclp_trans)

lemma hb_last: "hb g e \<longleftrightarrow> (\<exists>p \<in> set (predecessors e). g = p \<or> hb g p)"
  unfolding hb_def using tranclp_last [of "\<lambda>a b. a \<in> set (predecessors b)" g e] by blast

lemma size_hb: "hb a b \<Longrightarrow> size a < size b"
  unfolding hb_def by (induction rule: tranclp_induct) (auto dest: size_predecessor)

interpretation hb: strict_order hb
  by unfold_locales (auto dest: size_hb intro: hb_trans)

lemma kind_program_init [simp]: "kind program_init = K_program_init"
  by (simp add: program_init_def kind_def)

lemma program_init_simps [simp]:
  "cone program_init = []" "depth program_init = 0" "tid program_init = tid_none"
  "predecessors program_init = []" "thread_predecessor program_init = None"
  by (simp_all add: program_init_def predecessors_def thread_predecessor_def)

lemma not_hb_program_init [simp]: "\<not> hb g program_init"
  by (simp add: hb_last [of g program_init])

lemma allocated_pred: "allocated addr e \<Longrightarrow> p \<in> set (predecessors e) \<Longrightarrow> allocated addr p"
  by (induction rule: allocated_shape_induct) (auto simp: single_shape_def)

lemma allocated_hb: "hb g e \<Longrightarrow> allocated addr e \<Longrightarrow> allocated addr g"
  unfolding hb_def by (induction rule: tranclp_induct) (auto dest: allocated_pred)

lemma allocated_root: "allocated addr e \<Longrightarrow> kind e = K_program_init \<longleftrightarrow> e = program_init"
  by (induction rule: allocated_shape_induct) (auto simp: single_shape_def multi_shape_def)

lemma allocated_tid: "allocated addr e \<Longrightarrow> tid_empty (tid e) \<longleftrightarrow> e = program_init"
  by (induction rule: allocated_shape_induct)
     (auto simp: single_shape_def multi_shape_def tid_none_def tid_empty_def program_init_def)

lemma root_hb: "allocated addr e \<Longrightarrow> e = program_init \<or> hb program_init e"
proof (induction rule: allocated_shape_induct)
  case (single e p)
  then have "p \<in> set (predecessors e)" by (simp add: single_shape_def)
  then show ?case using single.IH by (auto simp: hb_last [of _ e])
next
  case (multi e p s os)
  then have "p \<in> set (predecessors e)" by (simp add: multi_shape_def)
  then show ?case using multi.IH by (auto simp: hb_last [of _ e])
qed simp

text \<open>
  The deepest event of the cone determines the depth, and depth increases along
  \<^verbatim>\<open>predecessors()\<close>: none of the depth assertions of the base constructors can fail.
\<close>

lemma fold_max_ge: "(a::nat) \<le> fold (\<lambda>e m. max (f e) m) xs a"
proof (induction xs arbitrary: a)
  case (Cons x xs)
  show ?case using Cons.IH [of "max (f x) a"] by simp
qed simp

lemma fold_max_mem: "x \<in> set xs \<Longrightarrow> f x \<le> fold (\<lambda>e m. max (f e) m) xs (a::nat)"
proof (induction xs arbitrary: a)
  case (Cons y xs)
  then show ?case using fold_max_ge [of "max (f y) a" f xs] by auto
qed simp

lemma cone_max_depth_ge: "(t, f) \<in> set c \<Longrightarrow> depth f \<le> cone_max_depth c"
  unfolding cone_max_depth_def cone_events_def by (rule fold_max_mem) force

lemma cone_max_depth_covers: "covers c t d \<Longrightarrow> d \<le> cone_max_depth c"
  unfolding covers_def using cone_max_depth_ge by (metis map_of_SomeD order_trans)

text \<open>Every cone entry is an event of that thread below the event that owns the cone.\<close>

definition cone_sound :: "'d event \<Rightarrow> bool" where
  "cone_sound e \<longleftrightarrow> smap_ok (cone e)
     \<and> (\<forall>(t, f) \<in> set (cone e). tid f = t \<and> hb f e \<and> depth f < depth e \<and> kind f \<noteq> K_program_init)"

lemma cone_soundD:
  assumes "cone_sound e" "(t, f) \<in> set (cone e)"
  shows "tid f = t" "hb f e" "depth f < depth e" "kind f \<noteq> K_program_init"
  using assms unfolding cone_sound_def by auto

lemma cone_sound_covers_put:
  assumes "cone_sound p" "covers (cone p) u d"
  shows "covers (smap_put (tid p) p (cone p)) u d"
proof (rule covers_put)
  show "depth f \<le> depth p" if "map_of (cone p) (tid p) = Some f" for f
    using cone_soundD(3) [OF assms(1) map_of_SomeD [OF that]] by simp
qed (use assms cone_sound_def in auto)

lemma smap_ok_cone_of_events: "smap_ok (cone p) \<Longrightarrow> smap_ok (cone_of_events p s os)"
  unfolding cone_of_events_def by (auto split: option.splits)

lemma set_cone_of_events:
  "set (cone_of_events p s os) \<subseteq> (\<Union>q \<in> insert p (set_option s \<union> set os). insert (tid q, q) (set (cone q)))"
  unfolding cone_of_events_def
  using set_smap_put [of "tid p" p "cone p"]
    set_fold_insert [of os "smap_put (tid p) p (cone p)"]
    set_cone_insert [of "the s" "smap_put (tid p) p (cone p)"]
    set_fold_insert [of os "cone_insert (the s) (smap_put (tid p) p (cone p))"]
  by (cases s) fastforce+

lemma covers_le: "covers c t d \<Longrightarrow> d' \<le> d \<Longrightarrow> covers c t d'"
  unfolding covers_def using order_trans by blast

lemma covers_memD: "smap_ok c \<Longrightarrow> covers c t d \<Longrightarrow> \<exists>f. (t, f) \<in> set c \<and> d \<le> depth f"
  unfolding covers_def by (auto dest: map_of_SomeD)

text \<open>The constructed cone covers what the predecessors' cones cover, and the predecessors.\<close>

lemma cone_of_events_covers_cone:
  assumes "\<forall>q \<in> insert p (set_option s \<union> set os). cone_sound q \<and> kind q \<noteq> K_program_init"
    and "q \<in> insert p (set_option s \<union> set os)" "covers (cone q) t d"
  shows "covers (cone_of_events p s os) t d"
proof -
  have ok: "smap_ok (smap_put (tid p) p (cone p))" using assms(1) by (simp add: cone_sound_def)
  have ins: "covers (cone_insert q c) t d" if "smap_ok c" "cone_sound q" "kind q \<noteq> K_program_init"
    "covers (cone q) t d" for q c
    using covers_memD [OF _ that(4)] that cone_sound_def covers_insert_cone covers_le by metis
  show ?thesis
    using assms(2)
  proof (elim insertE UnE)
    assume "q = p"
    then have "covers (smap_put (tid p) p (cone p)) t d"
      using cone_sound_covers_put assms by blast
    then show ?thesis using ok
      by (auto simp: cone_of_events_def split: option.splits intro: covers_fold_insert covers_insert)
  next
    assume "q \<in> set_option s"
    then show ?thesis using ok ins [of "smap_put (tid p) p (cone p)" q] assms
      by (auto simp: cone_of_events_def intro: covers_fold_insert)
  next
    assume "q \<in> set os"
    then show ?thesis using ok ins assms
      by (auto simp: cone_of_events_def split: option.splits intro!: covers_fold_insert_mem)
  qed
qed

lemma cone_of_events_covers_self:
  assumes "smap_ok (cone p)" "\<forall>q \<in> insert p (set_option s \<union> set os). kind q \<noteq> K_program_init"
    and "q \<in> insert p (set_option s \<union> set os)"
  shows "covers (cone_of_events p s os) (tid q) (depth q)"
proof (cases "q \<in> set os")
  case True
  then show ?thesis
    using assms unfolding cone_of_events_def
    by (auto split: option.splits intro!: covers_fold_insert_mem [of _ q] covers_insert_self)
next
  case False
  then show ?thesis
    using assms covers_put_self [of "cone p" "tid p" p] unfolding cone_of_events_def
    by (auto split: option.splits intro!: covers_fold_insert intro: covers_insert covers_insert_self)
qed

text \<open>
  The three facts that make cones vector clocks: they are sound, depth grows with causality, and
  every event below has an entry on its thread that is at least as deep.
\<close>

lemma single_cone:
  assumes "single_shape e p" "allocated addr p"
  shows "cone e = (if p = program_init then [] else smap_put (tid p) p (cone p))"
  using assms allocated_root [OF assms(2)] by (auto simp: single_shape_def cone_of_event_def)

lemma allocated_cone_sound: "allocated addr e \<Longrightarrow> cone_sound e"
proof (induction rule: allocated_shape_induct)
  case root
  show ?case by (simp add: cone_sound_def)
next
  case (single e p)
  have hb: "hb p e" and d: "depth e = Suc (depth p)"
    using single.hyps by (auto simp: single_shape_def intro: hb_pred)
  show ?case
  proof (cases "p = program_init")
    case True
    then show ?thesis using single_cone [OF single.hyps] by (simp add: cone_sound_def)
  next
    case False
    have "tid f = t \<and> hb f e \<and> depth f < depth e \<and> kind f \<noteq> K_program_init"
      if "(t, f) \<in> insert (tid p, p) (set (cone p))" for t f
      using that cone_soundD [OF single.IH, of t f] hb d False allocated_root [OF single.hyps(2)]
        hb_trans [OF _ hb] by auto
    moreover have "smap_ok (cone e)"
      using single_cone [OF single.hyps] single.IH by (simp add: cone_sound_def False)
    ultimately show ?thesis
      using single_cone [OF single.hyps] subsetD [OF set_smap_put [of "tid p" p "cone p"]] False
      unfolding cone_sound_def by fastforce
  qed
next
  case (multi e p s os)
  let ?Q = "insert p (set_option s \<union> set os)"
  have Q: "set (predecessors e) = ?Q" and c: "cone e = cone_of_events p s os"
    and k: "\<forall>q \<in> ?Q. kind q \<noteq> K_program_init"
    and d: "depth e = Suc (cone_max_depth (cone e))"
    using multi.hyps by (auto simp: multi_shape_def)
  have "tid f = t \<and> hb f e \<and> depth f < depth e \<and> kind f \<noteq> K_program_init"
    if mem: "(t, f) \<in> set (cone e)" for t f
  proof -
    obtain q where q: "q \<in> ?Q" "(t, f) \<in> insert (tid q, q) (set (cone q))"
      using subsetD [OF set_cone_of_events mem [unfolded c]] by blast
    then have "tid f = t" "f = q \<or> hb f q" "kind f \<noteq> K_program_init"
      using cone_soundD [of q t f] multi.IH Q k by auto
    moreover have "hb q e" using q(1) Q by (intro hb_pred) simp
    ultimately show ?thesis
      using cone_max_depth_ge [OF mem] d hb_trans by (auto simp: less_Suc_eq_le)
  qed
  moreover have "smap_ok (cone e)"
    using multi.IH [of p] Q unfolding c by (intro smap_ok_cone_of_events) (simp add: cone_sound_def)
  ultimately show ?case by (auto simp: cone_sound_def)
qed

lemma allocated_multi_sound:
  assumes "multi_shape e p s os" "\<And>q. q \<in> set (predecessors e) \<Longrightarrow> allocated addr q"
  shows "\<forall>q \<in> insert p (set_option s \<union> set os). cone_sound q \<and> kind q \<noteq> K_program_init"
    and "set (predecessors e) = insert p (set_option s \<union> set os)" "cone e = cone_of_events p s os"
  using assms allocated_cone_sound unfolding multi_shape_def by auto

lemma covers_pred:
  assumes "allocated addr e" "p \<in> set (predecessors e)" "kind p \<noteq> K_program_init"
  shows "covers (cone e) (tid p) (depth p)" and "covers (cone p) t d \<Longrightarrow> covers (cone e) t d"
proof -
  have "covers (cone e) (tid p) (depth p) \<and> (covers (cone p) t d \<longrightarrow> covers (cone e) t d)"
    using assms
  proof (induction rule: allocated_shape_induct)
    case (single e q)
    then have "q = p" by (simp add: single_shape_def)
    with single have c: "cone e = smap_put (tid p) p (cone p)" and s: "cone_sound p"
      using single_cone allocated_cone_sound by (force, blast)
    show ?case
      using s cone_sound_covers_put covers_put_self unfolding c cone_sound_def by blast
  next
    case (multi e q s os)
    note m = allocated_multi_sound [OF multi.hyps]
    show ?case
      using cone_of_events_covers_cone [OF m(1)] cone_of_events_covers_self [of q s os p] m multi.prems
      by (auto simp: cone_sound_def)
  qed simp
  then show "covers (cone e) (tid p) (depth p)" "covers (cone p) t d \<Longrightarrow> covers (cone e) t d"
    by blast+
qed

lemma depth_pred: "allocated addr e \<Longrightarrow> p \<in> set (predecessors e) \<Longrightarrow> depth p < depth e"
proof (induction rule: allocated_shape_induct)
  case (multi e q s os)
  note m = allocated_multi_sound [OF multi.hyps]
  show ?case
    using cone_max_depth_covers [OF cone_of_events_covers_self [of q s os p]] m multi.hyps multi.prems
    by (auto simp: cone_sound_def multi_shape_def)
qed (auto simp: single_shape_def)

lemma depth_hb: "hb g e \<Longrightarrow> allocated addr e \<Longrightarrow> depth g < depth e"
  unfolding hb_def
proof (induction rule: tranclp_induct)
  case (step y z)
  then show ?case using depth_pred [of addr z y] allocated_pred [of addr z y] by simp
qed (auto dest: depth_pred)

lemma covers_hb: "hb g e \<Longrightarrow> allocated addr e \<Longrightarrow> g \<noteq> program_init \<Longrightarrow> covers (cone e) (tid g) (depth g)"
  unfolding hb_def
proof (induction rule: tranclp_induct)
  case (base y)
  then show ?case using covers_pred(1) allocated_root allocated_pred by metis
next
  case (step y z)
  have y: "allocated addr y" using step.prems step.hyps allocated_pred by blast
  have "y \<noteq> program_init" using step.hyps(1) not_hb_program_init unfolding hb_def by blast
  then show ?case using step y covers_pred(2) allocated_root by metis
qed

section \<open>Threads\<close>

lemma thread_chain_unfold:
  "thread_chain e = e # (case thread_predecessor e of None \<Rightarrow> [] | Some p \<Rightarrow> thread_chain p)"
  by (rule thread_chain.simps)

lemma thread_chain_self [simp]: "e \<in> set (thread_chain e)"
  by (subst thread_chain_unfold) simp

lemma thread_chain_mem:
  "g \<in> set (thread_chain e) \<longleftrightarrow> g = e \<or> (\<exists>p. thread_predecessor e = Some p \<and> g \<in> set (thread_chain p))"
  by (subst thread_chain_unfold) (auto split: option.splits)

lemma allocated_thread_pred:
  "allocated addr e \<Longrightarrow> thread_predecessor e = Some p \<Longrightarrow> tid p = tid e \<and> allocated addr p"
  by (induction rule: allocated_shape_induct)
     (auto simp: single_shape_def multi_shape_def thread_pred_ok_def split: if_splits)

lemma allocated_no_thread_pred:
  "allocated addr e \<Longrightarrow> thread_predecessor e = None \<longleftrightarrow> kind e = K_program_init \<or> kind e = K_thread_init"
  by (induction rule: allocated_shape_induct)
     (auto simp: single_shape_def multi_shape_def split: if_splits)

lemma thread_chain_hb: "g \<in> set (thread_chain e) \<Longrightarrow> g = e \<or> hb g e"
proof (induction e rule: thread_chain.induct)
  case (1 e)
  then show ?case
    using thread_chain_mem [of g e] thread_pred_in_preds [of e] hb_pred [of _ e] hb_trans by metis
qed

lemma thread_chain_tid: "g \<in> set (thread_chain e) \<Longrightarrow> allocated addr e \<Longrightarrow> tid g = tid e \<and> allocated addr g"
proof (induction e rule: thread_chain.induct)
  case (1 e)
  then show ?case
    using thread_chain_mem [of g e] allocated_thread_pred [of addr e] by metis
qed

lemma thread_chain_depth: "g \<in> set (thread_chain e) \<Longrightarrow> allocated addr e \<Longrightarrow> g = e \<or> depth g < depth e"
  using thread_chain_hb depth_hb by blast

lemma distinct_thread_chain: "distinct (thread_chain e)"
proof (induction e rule: thread_chain.induct)
  case (1 e)
  have "e \<notin> set (thread_chain p)" if "thread_predecessor e = Some p" for p
    using thread_chain_hb [of e p] hb_pred [OF thread_pred_in_preds [OF that]] hb.asym hb.irrefl by blast
  then show ?case using 1 by (subst thread_chain_unfold) (auto split: option.splits)
qed

text \<open>
  The events of a configuration: built by constructors, closed under predecessors, and with the
  events of each thread on one chain of thread predecessors. Events of one thread on different
  chains would be in conflict.
\<close>

definition causally_closed :: "'d event set \<Rightarrow> bool" where
  "causally_closed C \<longleftrightarrow> (\<forall>e \<in> C. set (predecessors e) \<subseteq> C)"

definition threads_linear :: "'d event set \<Rightarrow> bool" where
  "threads_linear C \<longleftrightarrow> (\<forall>a \<in> C. \<forall>b \<in> C. tid a = tid b \<longrightarrow> a \<in> set (thread_chain b) \<or> b \<in> set (thread_chain a))"

definition is_configuration :: "('d event \<Rightarrow> nat) \<Rightarrow> 'd event set \<Rightarrow> bool" where
  "is_configuration addr C \<longleftrightarrow> (\<forall>e \<in> C. allocated addr e) \<and> causally_closed C \<and> threads_linear C"

lemma configuration_allocated: "is_configuration addr C \<Longrightarrow> e \<in> C \<Longrightarrow> allocated addr e"
  by (simp add: is_configuration_def)

lemma configuration_hb: "hb g e \<Longrightarrow> is_configuration addr C \<Longrightarrow> e \<in> C \<Longrightarrow> g \<in> C"
  unfolding hb_def is_configuration_def causally_closed_def by (induction rule: tranclp_induct) blast+

lemma configuration_same_thread:
  assumes "is_configuration addr C" "a \<in> C" "b \<in> C" "tid a = tid b"
  shows "a = b \<or> hb a b \<or> hb b a"
  using assms thread_chain_hb unfolding is_configuration_def threads_linear_def by metis

lemma configuration_chain:
  assumes "is_configuration addr C" "a \<in> C" "b \<in> C" "tid a = tid b" "depth a \<le> depth b"
  shows "a \<in> set (thread_chain b)"
proof -
  consider "a \<in> set (thread_chain b)" | "b \<in> set (thread_chain a)"
    using assms unfolding is_configuration_def threads_linear_def by blast
  then show ?thesis
  proof cases
    case 2
    then have "b = a" using thread_chain_depth [OF 2 configuration_allocated [OF assms(1,2)]] assms(5) by auto
    then show ?thesis by simp
  qed
qed

lemma cone_memD:
  assumes "allocated addr e" "map_of (cone e) t = Some f"
  shows "tid f = t" "hb f e" "depth f < depth e" "f \<noteq> program_init"
  using cone_soundD [OF allocated_cone_sound [OF assms(1)] map_of_SomeD [OF assms(2)]] by auto

lemma cone_tid_none: "allocated addr e \<Longrightarrow> map_of (cone e) tid_none = None"
proof (rule ccontr)
  assume e: "allocated addr e" and "map_of (cone e) tid_none \<noteq> None"
  then obtain f where f: "map_of (cone e) tid_none = Some f" by auto
  then have "allocated addr f" "tid f = tid_none" "f \<noteq> program_init"
    using cone_memD [OF e f] allocated_hb e by blast+
  then show False using allocated_tid [of addr f] by (simp add: tid_none_def tid_empty_def)
qed

text \<open>Extending a configuration by an event whose predecessors it has.\<close>

lemma configuration_subset:
  "is_configuration addr C \<Longrightarrow> D \<subseteq> C \<Longrightarrow> causally_closed D \<Longrightarrow> is_configuration addr D"
  unfolding is_configuration_def threads_linear_def by blast

lemma configuration_program_init: "is_configuration addr {program_init}"
  by (auto simp: is_configuration_def causally_closed_def threads_linear_def intro: a_program_init)

lemma configuration_insert:
  assumes "is_configuration addr C" "allocated addr e" "set (predecessors e) \<subseteq> C"
    and "\<And>a. a \<in> C \<Longrightarrow> tid a = tid e \<Longrightarrow> a \<in> set (thread_chain e)"
  shows "is_configuration addr (insert e C)"
  using assms unfolding is_configuration_def causally_closed_def threads_linear_def
  by (auto simp: subset_iff)

lemma configuration_insert_chain:
  assumes "is_configuration addr C" "allocated addr e" "set (predecessors e) \<subseteq> C"
    and "thread_predecessor e = Some p" "\<And>a. a \<in> C \<Longrightarrow> tid a = tid e \<Longrightarrow> a \<in> set (thread_chain p)"
  shows "is_configuration addr (insert e C)"
  using assms thread_chain_mem by (intro configuration_insert) blast+

section \<open>The causality test\<close>

lemma hb_is_less_than:
  assumes "allocated addr e" "hb g e"
  shows "is_less_than g e"
proof (cases "g = program_init")
  case True
  have "e \<noteq> program_init" using assms(2) by auto
  then have "tid e \<noteq> tid_none"
    using allocated_tid [OF assms(1)] by (auto simp: tid_none_def tid_empty_def)
  then show ?thesis
    using True cone_tid_none [OF assms(1)] by (simp add: is_less_than_def is_less_than_cone_def)
next
  case False
  then show ?thesis
    using covers_hb [OF assms(2,1) False] depth_hb [OF assms(2,1)]
    by (auto simp: is_less_than_def is_less_than_cone_def covers_def)
qed

lemma less_than_cone_hb:
  assumes "is_configuration addr C" "g \<in> C" "f \<in> C" "tid f = tid g" "depth g \<le> depth f"
  shows "g = f \<or> hb g f"
  using configuration_chain [OF assms(1-3) _ assms(5)] assms(4) thread_chain_hb by metis

lemma configuration_less_than:
  assumes "is_configuration addr C" "g \<in> C" "e \<in> C"
  shows "is_less_than g e \<longleftrightarrow> hb g e"
proof
  note e = configuration_allocated [OF assms(1,3)]
  assume lt: "is_less_than g e"
  show "hb g e"
  proof (cases "tid e = tid g")
    case True
    then show ?thesis
      using lt configuration_same_thread [OF assms(1,2,3)] depth_hb [of e g addr]
        configuration_allocated [OF assms(1,2)]
      by (auto simp: is_less_than_def)
  next
    case False
    show ?thesis
    proof (cases "map_of (cone e) (tid g)")
      case None
      then have "g = program_init" "e \<noteq> program_init"
        using lt False configuration_allocated [OF assms(1,2)] allocated_root
        by (auto simp: is_less_than_def is_less_than_cone_def)
      then show ?thesis using root_hb [OF e] by blast
    next
      case (Some f)
      then have "g = f \<or> hb g f"
        using lt False cone_memD [OF e Some] configuration_hb [OF _ assms(1,3), of f]
        by (intro less_than_cone_hb [OF assms(1,2)]) (auto simp: is_less_than_def is_less_than_cone_def)
      then show ?thesis using cone_memD(2) [OF e Some] hb_trans by blast
    qed
  qed
qed (rule hb_is_less_than [OF configuration_allocated [OF assms(1,3)]])

text \<open>
  C1. In a configuration the depth comparison \<^verbatim>\<open>event::is_less_than\<close> decides causality: it
  holds of two events exactly when the first is reachable from the second by predecessors.
\<close>

theorem is_less_than_iff_hb:
  assumes "is_configuration addr C" "g \<in> C" "e \<in> C"
  shows "is_less_than g e \<longleftrightarrow> hb g e"
  by (rule configuration_less_than [OF assms])

section \<open>A small configuration\<close>

text \<open>The main thread starts and creates a second thread, which starts.\<close>

definition ex_init :: "nat event" where
  "ex_init = Event (Thread_Id [1]) [] 1 (Thread_Init program_init)"

definition ex_create :: "nat event" where
  "ex_create = Event (Thread_Id [1]) [(Thread_Id [1], ex_init)] 2 (Thread_Create ex_init (Thread_Id [1, 1]))"

definition ex_child :: "nat event" where
  "ex_child = Event (Thread_Id [1, 1]) [(Thread_Id [1], ex_create)] 3 (Thread_Init ex_create)"

lemmas ex_defs = ex_init_def ex_create_def ex_child_def

definition ex_set :: "nat event set" where
  "ex_set = {ex_child, ex_create, ex_init, program_init}"

lemma ex_alloc:
  "alloc_thread_init (Thread_Id [1]) program_init = Some ex_init"
  "alloc_thread_create (Thread_Id [1]) ex_init (Thread_Id [1, 1]) = Some ex_create"
  "alloc_thread_init (Thread_Id [1, 1]) ex_create = Some ex_child"
  by (simp_all add: ex_defs alloc_thread_init_def alloc_thread_create_def event_single_def kind_def
      thread_pred_ok_def tid_empty_def tid_none_def cone_of_event_def program_init_def)

lemma ex_allocated: "allocated addr ex_init" "allocated addr ex_create" "allocated addr ex_child"
proof -
  show i: "allocated addr ex_init"
    by (rule a_thread_init [OF a_program_init _ ex_alloc(1)]) (simp add: tid_empty_def)
  show c: "allocated addr ex_create" by (rule a_thread_create [OF i ex_alloc(2)])
  show "allocated addr ex_child"
    by (rule a_thread_init [OF c _ ex_alloc(3)]) (simp add: tid_empty_def)
qed

lemma ex_configuration: "is_configuration addr ex_set"
  unfolding ex_set_def
  by (intro configuration_insert configuration_program_init ex_allocated;
      simp add: ex_defs predecessors_def tid_none_def thread_chain.simps thread_predecessor_def
        program_init_def split: if_splits; auto)

theorem is_less_than_iff_hb_witness:
  "is_configuration (\<lambda>_. 0) ex_set \<and> ex_init \<in> ex_set \<and> ex_child \<in> ex_set
    \<and> is_less_than ex_init ex_child \<and> hb ex_init ex_child \<and> \<not> hb ex_child ex_init"
proof -
  have mem: "ex_init \<in> ex_set" "ex_child \<in> ex_set" by (simp_all add: ex_set_def)
  have "is_less_than ex_init ex_child" "\<not> is_less_than ex_child ex_init"
    by (simp_all add: ex_defs is_less_than_def is_less_than_cone_def kind_def)
  then show ?thesis
    using ex_configuration [of "\<lambda>_. 0"] mem is_less_than_iff_hb [OF ex_configuration mem]
      is_less_than_iff_hb [OF ex_configuration mem(2,1)] by blast
qed

end
