(* ===== verification/Independence.thy ===== *)
theory Independence
  imports Causality
begin

text \<open>
  The dependence relation between events of \<^verbatim>\<open>lib/Por/event.cpp\<close>
  (\<^verbatim>\<open>event::is_independent_of\<close> and its helpers). A failing assertion is \<open>None\<close>.
\<close>

definition lock_is_independent :: "'d event \<Rightarrow> 'd event \<Rightarrow> bool option" where
  "lock_is_independent lock_event other =
     (if kind lock_event \<in> {K_lock_create, K_lock_acquire, K_lock_release, K_lock_destroy, K_wait1, K_wait2}
         \<and> lid lock_event \<noteq> 0
      then Some (if lid other \<noteq> 0 then lid lock_event \<noteq> lid other else True)
      else None)"

definition lost_notification_is_independent :: "'d event \<Rightarrow> 'd event \<Rightarrow> bool option" where
  "lost_notification_is_independent lost other =
     (if \<not> ((kind lost = K_signal \<or> kind lost = K_broadcast) \<and> is_lost lost) then None
      else if kind other = K_wait2 then Some True
      else if cid lost \<noteq> cid other then Some True
      else if (kind other = K_signal \<or> kind other = K_broadcast) \<and> is_lost other then Some True
      else if kind other = K_wait1 then Some False
      else Some (cid lost \<noteq> cid other))"

definition is_thread_kind :: "event_kind \<Rightarrow> bool" where
  "is_thread_kind k \<longleftrightarrow> k \<in> {K_thread_create, K_thread_exit, K_thread_init, K_thread_join}"

definition thread_event_is_independent :: "'d event \<Rightarrow> 'd event \<Rightarrow> bool" where
  "thread_event_is_independent thread_event other =
     (case kind thread_event of
        K_thread_create \<Rightarrow> if kind other = K_thread_init then created_tid thread_event \<noteq> tid other else True
      | K_thread_exit \<Rightarrow> if kind other = K_thread_join then tid thread_event \<noteq> joined_thread other else True
      | K_thread_join \<Rightarrow>
          if kind other = K_thread_join then joined_thread thread_event \<noteq> joined_thread other
          else if kind other = K_thread_exit then joined_thread thread_event \<noteq> tid other else True
      | K_thread_init \<Rightarrow> if kind other = K_thread_create then tid thread_event \<noteq> created_tid other else True
      | _ \<Rightarrow> True)"

definition thread_is_independent :: "'d event \<Rightarrow> 'd event \<Rightarrow> bool" where
  "thread_is_independent a b =
     (if is_thread_kind (kind a) then thread_event_is_independent a b
      else if is_thread_kind (kind b) then thread_event_is_independent b a
      else True)"

text \<open>The branches for condition variable operations, after the lock test of the waits.\<close>

definition wait1_is_independent :: "'d event \<Rightarrow> 'd event \<Rightarrow> bool" where
  "wait1_is_independent e other =
     (case kind other of
        K_signal \<Rightarrow>
          if cid e \<noteq> cid other then True
          else if is_lost other then False
          else if tid e = notified_thread other then False else True
      | K_broadcast \<Rightarrow> cid e \<noteq> cid other
      | K_condition_variable_create \<Rightarrow> cid e \<noteq> cid other
      | K_condition_variable_destroy \<Rightarrow> cid e \<noteq> cid other
      | _ \<Rightarrow> True)"

definition wait2_is_independent :: "'d event \<Rightarrow> 'd event \<Rightarrow> bool" where
  "wait2_is_independent e other =
     (let same_cid = (cid e = cid other) in
      case kind other of
        K_wait1 \<Rightarrow> True
      | K_wait2 \<Rightarrow> True
      | K_condition_variable_create \<Rightarrow> \<not> same_cid
      | K_condition_variable_destroy \<Rightarrow> \<not> same_cid
      | K_signal \<Rightarrow> \<not> same_cid \<or> notified_thread other \<noteq> tid e
      | K_broadcast \<Rightarrow> \<not> same_cid \<or> \<not> is_notifying_thread other (tid e)
      | _ \<Rightarrow> True)"

definition signal_is_independent :: "'d event \<Rightarrow> 'd event \<Rightarrow> bool option" where
  "signal_is_independent e other =
     (if is_lost e then lost_notification_is_independent e other
      else Some (let same_cid = (cid e = cid other) in
        case kind other of
          K_wait1 \<Rightarrow> \<not> same_cid \<or> notified_thread e \<noteq> tid other
        | K_wait2 \<Rightarrow> \<not> same_cid \<or> notified_thread e \<noteq> tid other
        | K_condition_variable_create \<Rightarrow> \<not> same_cid
        | K_condition_variable_destroy \<Rightarrow> \<not> same_cid
        | K_broadcast \<Rightarrow> \<not> same_cid
        | K_signal \<Rightarrow> \<not> same_cid
        | _ \<Rightarrow> True))"

definition broadcast_is_independent :: "'d event \<Rightarrow> 'd event \<Rightarrow> bool option" where
  "broadcast_is_independent e other =
     (if is_lost e then lost_notification_is_independent e other
      else Some (let same_cid = (cid e = cid other) in
        case kind other of
          K_wait1 \<Rightarrow> \<not> same_cid
        | K_wait2 \<Rightarrow> \<not> same_cid \<or> \<not> is_notifying_thread e (tid other)
        | K_condition_variable_create \<Rightarrow> \<not> same_cid
        | K_condition_variable_destroy \<Rightarrow> \<not> same_cid
        | K_broadcast \<Rightarrow> \<not> same_cid
        | K_signal \<Rightarrow> \<not> same_cid
        | _ \<Rightarrow> True))"

definition is_independent_of :: "'d event \<Rightarrow> 'd event \<Rightarrow> bool option" where
  "is_independent_of e other =
     (if tid e = tid other then Some False
      else if kind e = K_local \<or> kind other = K_local then Some True
      else if kind e = K_program_init \<or> kind other = K_program_init then Some False
      else if \<not> thread_is_independent e other then Some False
      else case kind e of
          K_lock_create \<Rightarrow> lock_is_independent e other
        | K_lock_acquire \<Rightarrow> lock_is_independent e other
        | K_lock_release \<Rightarrow> lock_is_independent e other
        | K_lock_destroy \<Rightarrow> lock_is_independent e other
        | K_wait1 \<Rightarrow> (case lock_is_independent e other of None \<Rightarrow> None
            | Some i \<Rightarrow> Some (i \<and> wait1_is_independent e other))
        | K_wait2 \<Rightarrow> (case lock_is_independent e other of None \<Rightarrow> None
            | Some i \<Rightarrow> Some (i \<and> wait2_is_independent e other))
        | K_signal \<Rightarrow> signal_is_independent e other
        | K_broadcast \<Rightarrow> broadcast_is_independent e other
        | K_condition_variable_create \<Rightarrow> Some (cid e = 0 \<or> cid e \<noteq> cid other)
        | K_condition_variable_destroy \<Rightarrow> Some (cid e = 0 \<or> cid e \<noteq> cid other)
        | K_thread_create \<Rightarrow> Some (thread_is_independent e other)
        | K_thread_init \<Rightarrow> Some (thread_is_independent e other)
        | K_thread_exit \<Rightarrow> Some (thread_is_independent e other)
        | K_thread_join \<Rightarrow> Some (thread_is_independent e other)
        | _ \<Rightarrow> None)"

section \<open>Ids of constructed events\<close>

text \<open>
  What the constructors guarantee about lock and condition variable ids. Only the lock id of a
  destroy event is not checked there; its caller does.
\<close>

definition is_lock_kind :: "event_kind \<Rightarrow> bool" where
  "is_lock_kind k \<longleftrightarrow> k \<in> {K_lock_create, K_lock_acquire, K_lock_release, K_lock_destroy, K_wait1, K_wait2}"

definition is_cond_kind :: "event_kind \<Rightarrow> bool" where
  "is_cond_kind k \<longleftrightarrow> k \<in> {K_condition_variable_create, K_condition_variable_destroy,
     K_wait1, K_wait2, K_signal, K_broadcast}"

lemma lid_kind: "lid e \<noteq> 0 \<Longrightarrow> is_lock_kind (kind e)"
  unfolding lid_def kind_def is_lock_kind_def by (cases "body e") auto

lemma cid_kind: "cid e \<noteq> 0 \<Longrightarrow> is_cond_kind (kind e)"
  unfolding cid_def kind_def is_cond_kind_def by (cases "body e") auto

lemma is_lost_kind: "is_lost e \<Longrightarrow> kind e = K_signal \<or> kind e = K_broadcast"
  by (cases e rule: is_lost.cases) (auto simp: kind_def)

lemma notified_thread_lost: "kind e = K_signal \<Longrightarrow> is_lost e \<Longrightarrow> notified_thread e = tid_none"
  by (cases e rule: is_lost.cases) (auto simp: kind_def elim!: signal_is_lost_of.elims)

lemma is_notifying_thread_lost: "kind e = K_broadcast \<Longrightarrow> is_lost e \<Longrightarrow> \<not> is_notifying_thread e t"
  by (cases e rule: is_lost.cases) (auto simp: kind_def is_notifying_thread_def broadcast_wait_predecessors_def)

definition ids_ok :: "'d event \<Rightarrow> bool" where
  "ids_ok e \<longleftrightarrow> (is_cond_kind (kind e) \<longrightarrow> cid e \<noteq> 0)
     \<and> (is_lock_kind (kind e) \<longrightarrow> kind e \<noteq> K_lock_destroy \<longrightarrow> lid e \<noteq> 0)"

lemma allocated_ids_ok: "allocated addr e \<Longrightarrow> ids_ok e"
proof (induction rule: allocated.induct)
  case a_program_init
  show ?case by (simp add: ids_ok_def is_cond_kind_def is_lock_kind_def)
qed (drule alloc_Some, simp add: ids_ok_def is_cond_kind_def is_lock_kind_def kind_def cid_def lid_def)+

section \<open>Symmetry\<close>

text \<open>The facts about one event that decide its row and column of the relation.\<close>

definition event_facts :: "'d event \<Rightarrow> bool" where
  "event_facts e \<longleftrightarrow> (lid e \<noteq> 0 \<longleftrightarrow> is_lock_kind (kind e)) \<and> (cid e \<noteq> 0 \<longleftrightarrow> is_cond_kind (kind e))
     \<and> (is_lost e \<longrightarrow> kind e = K_signal \<or> kind e = K_broadcast)
     \<and> (kind e = K_signal \<longrightarrow> is_lost e \<longrightarrow> notified_thread e = tid_none)
     \<and> (kind e = K_broadcast \<longrightarrow> is_lost e \<longrightarrow> (\<forall>t. \<not> is_notifying_thread e t))
     \<and> (kind e \<noteq> K_program_init \<longrightarrow> tid e \<noteq> tid_none)"

lemma allocated_event_facts:
  assumes "allocated addr e" "kind e = K_lock_destroy \<longrightarrow> lid e \<noteq> 0"
  shows "event_facts e"
proof -
  have "tid e \<noteq> tid_none" if "kind e \<noteq> K_program_init"
    using allocated_tid [OF assms(1)] allocated_root [OF assms(1)] that by (auto simp: tid_empty_def tid_none_def)
  then show ?thesis
    using allocated_ids_ok [OF assms(1)] assms(2) lid_kind [of e] cid_kind [of e] is_lost_kind [of e]
      notified_thread_lost [of e] is_notifying_thread_lost [of e]
    unfolding event_facts_def ids_ok_def by blast
qed

lemmas independence_defs = is_independent_of_def lock_is_independent_def lost_notification_is_independent_def
  thread_is_independent_def thread_event_is_independent_def is_thread_kind_def wait1_is_independent_def
  wait2_is_independent_def signal_is_independent_def broadcast_is_independent_def Let_def

text \<open>One row of the relation per kind of the first event.\<close>

definition row_guard :: "'d event \<Rightarrow> 'd event \<Rightarrow> bool" where
  "row_guard a b \<longleftrightarrow> tid a \<noteq> tid b \<and> kind a \<noteq> K_local \<and> kind b \<noteq> K_local
     \<and> kind a \<noteq> K_program_init \<and> kind b \<noteq> K_program_init"

lemma independence_guard:
  "\<not> row_guard a b \<Longrightarrow> is_independent_of a b = is_independent_of b a \<and> is_independent_of a b \<noteq> None"
  unfolding row_guard_def is_independent_of_def by auto

definition same_lock :: "'d event \<Rightarrow> 'd event \<Rightarrow> bool" where
  "same_lock a b \<longleftrightarrow> lid a \<noteq> 0 \<and> lid b = lid a"

definition same_cond :: "'d event \<Rightarrow> 'd event \<Rightarrow> bool" where
  "same_cond a b \<longleftrightarrow> cid a \<noteq> 0 \<and> cid b = cid a"

text \<open>Dependence through a condition variable, by the kinds of the two events.\<close>

definition cond_dep :: "'d event \<Rightarrow> 'd event \<Rightarrow> bool" where
  "cond_dep a b \<longleftrightarrow> same_cond a b \<and>
     (case kind a of
        K_condition_variable_create \<Rightarrow> True
      | K_condition_variable_destroy \<Rightarrow> True
      | K_signal \<Rightarrow>
          (if kind b = K_wait1 then is_lost a \<or> notified_thread a = tid b
           else if kind b = K_wait2 then \<not> is_lost a \<and> notified_thread a = tid b
           else if kind b = K_signal \<or> kind b = K_broadcast then \<not> (is_lost a \<and> is_lost b) else True)
      | K_broadcast \<Rightarrow>
          (if kind b = K_wait2 then \<not> is_lost a \<and> is_notifying_thread a (tid b)
           else if kind b = K_signal \<or> kind b = K_broadcast then \<not> (is_lost a \<and> is_lost b) else True)
      | K_wait1 \<Rightarrow>
          (if kind b = K_signal then is_lost b \<or> notified_thread b = tid a
           else \<not> (kind b = K_wait1 \<or> kind b = K_wait2))
      | K_wait2 \<Rightarrow>
          (if kind b = K_signal then \<not> is_lost b \<and> notified_thread b = tid a
           else if kind b = K_broadcast then \<not> is_lost b \<and> is_notifying_thread b (tid a)
           else \<not> (kind b = K_wait1 \<or> kind b = K_wait2))
      | _ \<Rightarrow> False)"

lemma cond_dep_sym: "event_facts a \<Longrightarrow> event_facts b \<Longrightarrow> cond_dep a b = cond_dep b a"
proof (cases "same_cond a b")
  case True
  assume "event_facts a" "event_facts b"
  then have "kind a \<in> {K_condition_variable_create, K_condition_variable_destroy, K_wait1, K_wait2, K_signal, K_broadcast}"
    "kind b \<in> {K_condition_variable_create, K_condition_variable_destroy, K_wait1, K_wait2, K_signal, K_broadcast}"
    using True by (auto simp: same_cond_def event_facts_def is_cond_kind_def)
  moreover have "same_cond b a" using True by (simp add: same_cond_def)
  ultimately show ?thesis
    using True by (elim insertE emptyE; simp add: cond_dep_def; blast?)
qed (auto simp: cond_dep_def same_cond_def)

lemma thread_is_independent_sym: "thread_is_independent a b = thread_is_independent b a"
proof (cases "is_thread_kind (kind a) \<and> is_thread_kind (kind b)")
  case True
  then show ?thesis
    unfolding is_thread_kind_def insert_iff empty_iff
    by (elim conjE disjE; simp add: thread_is_independent_def thread_event_is_independent_def is_thread_kind_def eq_commute)
qed (auto simp: thread_is_independent_def)

text \<open>Two events are dependent through their threads, a common lock or a common condition variable.\<close>

lemma lock_row:
  "event_facts a \<Longrightarrow> is_lock_kind (kind a) \<Longrightarrow> lock_is_independent a b = Some (\<not> same_lock a b)"
proof -
  assume "event_facts a" "is_lock_kind (kind a)"
  then have "lid a \<noteq> 0" unfolding event_facts_def by blast
  then show "lock_is_independent a b = Some (\<not> same_lock a b)"
    using \<open>is_lock_kind (kind a)\<close>
    unfolding lock_is_independent_def same_lock_def is_lock_kind_def [symmetric] by auto
qed

lemma wait1_row: "event_facts a \<Longrightarrow> event_facts b \<Longrightarrow> kind a = K_wait1 \<Longrightarrow> wait1_is_independent a b = (\<not> cond_dep a b)"
  unfolding wait1_is_independent_def cond_dep_def same_cond_def event_facts_def is_cond_kind_def
  by (cases "kind b") auto

lemma wait2_row: "event_facts a \<Longrightarrow> event_facts b \<Longrightarrow> kind a = K_wait2 \<Longrightarrow> wait2_is_independent a b = (\<not> cond_dep a b)"
  unfolding wait2_is_independent_def cond_dep_def same_cond_def event_facts_def is_cond_kind_def Let_def
  by (cases "kind b") auto

lemma signal_row: "event_facts a \<Longrightarrow> event_facts b \<Longrightarrow> kind a = K_signal \<Longrightarrow> signal_is_independent a b = Some (\<not> cond_dep a b)"
  unfolding signal_is_independent_def lost_notification_is_independent_def cond_dep_def same_cond_def
    event_facts_def is_cond_kind_def Let_def
  by (cases "kind b"; cases "is_lost a") auto

lemma broadcast_row: "event_facts a \<Longrightarrow> event_facts b \<Longrightarrow> kind a = K_broadcast \<Longrightarrow> broadcast_is_independent a b = Some (\<not> cond_dep a b)"
  unfolding broadcast_is_independent_def lost_notification_is_independent_def cond_dep_def same_cond_def
    event_facts_def is_cond_kind_def Let_def
  by (cases "kind b"; cases "is_lost a") auto

lemma no_lock_row: "event_facts a \<Longrightarrow> \<not> is_lock_kind (kind a) \<Longrightarrow> \<not> same_lock a b"
  unfolding event_facts_def same_lock_def by auto

lemma no_cond_row: "event_facts a \<Longrightarrow> \<not> is_cond_kind (kind a) \<Longrightarrow> \<not> cond_dep a b"
  unfolding event_facts_def cond_dep_def same_cond_def by auto

lemma create_row:
  "kind a = K_condition_variable_create \<or> kind a = K_condition_variable_destroy
    \<Longrightarrow> (cid a = 0 \<or> cid a \<noteq> cid b) = (\<not> cond_dep a b)"
  unfolding cond_dep_def same_cond_def by auto

lemma independence_char:
  assumes "event_facts a" "event_facts b" "row_guard a b"
  shows "is_independent_of a b = Some (thread_is_independent a b \<and> \<not> same_lock a b \<and> \<not> cond_dep a b)"
  using assms(3) lock_row [OF assms(1), of b] wait1_row [OF assms(1,2)] wait2_row [OF assms(1,2)]
    signal_row [OF assms(1,2)] broadcast_row [OF assms(1,2)] no_lock_row [OF assms(1), of b]
    no_cond_row [OF assms(1), of b] create_row [of a b]
  unfolding is_independent_of_def row_guard_def is_lock_kind_def is_cond_kind_def
  by (cases "kind a") auto

lemma same_lock_sym: "same_lock a b = same_lock b a"
  by (auto simp: same_lock_def)

lemma independence_sym:
  assumes "event_facts a" "event_facts b"
  shows "is_independent_of a b = is_independent_of b a \<and> is_independent_of a b \<noteq> None"
proof (cases "row_guard a b")
  case True
  then have "row_guard b a" by (auto simp: row_guard_def)
  then show ?thesis
    using independence_char [OF assms True] independence_char [OF assms(2,1)]
      thread_is_independent_sym [of a b] same_lock_sym [of a b] cond_dep_sym [OF assms] by simp
qed (rule independence_guard)

section \<open>Causality is generated by dependence\<close>

lemma dependentI:
  assumes "event_facts p" "event_facts e"
    and "tid p = tid e \<or> kind p \<noteq> K_local \<and> kind e \<noteq> K_local \<and>
      (kind p = K_program_init \<or> \<not> thread_is_independent p e \<or> same_lock p e \<or> cond_dep p e)"
  shows "is_independent_of p e = Some False"
proof (cases "row_guard p e")
  case True
  then have "tid p \<noteq> tid e" "kind p \<noteq> K_program_init" by (auto simp: row_guard_def)
  then show ?thesis
    using independence_char [OF assms(1,2) True] assms(3) by auto
next
  case False
  then show ?thesis using assms(3) by (auto simp: row_guard_def is_independent_of_def)
qed

text \<open>What the accessors read from a stored body.\<close>

lemma body_facts:
  "body e = Thread_Join tp j \<Longrightarrow> joined_thread e = tid j"
  "body e = Signal c tp cps \<Longrightarrow> is_lost e = signal_is_lost_of cps"
  "body e = Signal c tp cps \<Longrightarrow> notified_thread e = signal_notified_thread_of cps"
  "body e = Broadcast c tp cps n \<Longrightarrow> is_lost e \<longleftrightarrow> n = 0"
  "body e = Broadcast c tp cps n \<Longrightarrow> wait_predecessors e = broadcast_wait_predecessors cps n"
  by (cases e; simp)+

lemma is_lost_no_waits: "kind n = K_signal \<or> kind n = K_broadcast \<Longrightarrow> is_lost n \<Longrightarrow> wait_predecessors n = []"
  by (cases n rule: is_lost.cases)
     (auto simp: kind_def signal_wait_predecessor_def broadcast_wait_predecessors_def)

lemma wait2_notified_dep:
  assumes "wait2_notified t c tp n"
  shows "kind n = K_signal \<and> notified_thread n = t \<and> \<not> is_lost n \<and> cid n = c
    \<or> kind n = K_broadcast \<and> is_notifying_thread n t \<and> \<not> is_lost n \<and> cid n = c"
  using assms is_lost_no_waits [of n] unfolding wait2_notified_def is_notifying_thread_def
  by (auto split: if_split_asm)

lemma broadcast_cond_dep:
  assumes "broadcast_cond_ok t c cps n" "p \<in> set cps" "kind p = K_signal \<or> kind p = K_broadcast"
  shows "\<not> is_lost p"
  using assms unfolding broadcast_cond_ok_def non_lost_notification_def
  by (auto simp: list_all_iff split: if_split_asm)

lemma pred_dependent_cases:
  assumes "allocated addr e" "p \<in> set (predecessors e)" "kind e = K_lock_destroy \<longrightarrow> lid e \<noteq> 0"
    and "kind e = K_thread_init \<and> kind p = K_thread_create \<longrightarrow> created_tid p = tid e"
  shows "tid p = tid e \<or> kind p \<noteq> K_local \<and> kind e \<noteq> K_local \<and>
      (kind p = K_program_init \<or> \<not> thread_is_independent p e \<or> same_lock p e \<or> cond_dep p e)"
  using assms
proof (cases rule: allocated.cases)
  case a_program_init
  then show ?thesis using assms(2) by simp
next
  case (a_thread_init cr t)
  note f = alloc_thread_init_Some [OF a_thread_init(3)]
  then have p: "p = cr" "kind e = K_thread_init" using assms(2) by (auto simp: predecessors_def kind_def)
  have "\<not> thread_is_independent cr e" if "kind cr = K_thread_create"
    using assms(4) p that
    by (simp add: thread_is_independent_def thread_event_is_independent_def is_thread_kind_def)
  then show ?thesis using f p by auto
next
  case (a_thread_join tp j t)
  note f = alloc_thread_join_Some [OF a_thread_join(3)]
  have "\<not> thread_is_independent j e"
    using f body_facts(1) [of e tp j]
    by (simp add: kind_def thread_is_independent_def thread_event_is_independent_def is_thread_kind_def)
  then show ?thesis using f assms(2) by (auto simp: predecessors_def thread_pred_ok_def kind_def)
next
  case (a_lock_destroy tp lp t l)
  note f = alloc_lock_destroy_Some [OF a_lock_destroy(3)]
  then show ?thesis using assms(2,3)
    by (auto simp: predecessors_def thread_pred_ok_def kind_def lid_def same_lock_def opt_lock_predecessors_def
        pred_option_def split: option.splits if_split_asm)
next
  case (a_lock_acquire tp lp t l)
  note f = alloc_lock_acquire_Some [OF a_lock_acquire(3)]
  then show ?thesis using assms(2)
    by (auto simp: predecessors_def thread_pred_ok_def kind_def lid_def same_lock_def opt_lock_predecessors_def
        pred_option_def split: option.splits if_split_asm)
next
  case (a_lock_release tp lp t l atomic)
  note f = alloc_lock_release_Some [OF a_lock_release(3)]
  then show ?thesis using assms(2)
    by (auto simp: predecessors_def thread_pred_ok_def lock_release_predecessors_def split: if_split_asm)
next
  case (a_cond_destroy tp cps t c)
  note f = alloc_condition_variable_destroy_Some [OF a_cond_destroy(3)]
  then show ?thesis using assms(2)
    by (auto simp: predecessors_def thread_pred_ok_def list_all_iff cond_dep_def same_cond_def cid_def kind_def)
next
  case (a_wait1 tp lp cps t c l)
  note f = alloc_wait1_Some [OF a_wait1(4)]
  then have "cond_dep q e \<and> kind q \<noteq> K_local" if "q \<in> set (sort_key addr cps)" for q
    using that by (auto simp: list_all_iff wait1_cond_ok_def cond_dep_def same_cond_def cid_def kind_def
        split: if_split_asm)
  then show ?thesis using f assms(2) by (auto simp: predecessors_def thread_pred_ok_def kind_def)
next
  case (a_wait2 tp lp n t c l)
  note f = alloc_wait2_Some [OF a_wait2(4)]
  have "cond_dep n e \<and> kind n \<noteq> K_local"
    using f wait2_notified_dep [of t c tp n] by (auto simp: cond_dep_def same_cond_def cid_def kind_def)
  moreover have "same_lock lp e \<and> kind lp \<noteq> K_local" using f by (auto simp: same_lock_def lid_def)
  ultimately show ?thesis using f assms(2) by (auto simp: predecessors_def kind_def)
next
  case (a_signal tp w t c)
  note f = alloc_signal_Some [OF a_signal(3)]
  have "cond_dep w e"
    using f body_facts(2,3) [of e c tp "[w]"] by (simp add: cond_dep_def same_cond_def cid_def kind_def)
  then show ?thesis using f assms(2) by (auto simp: predecessors_def thread_pred_ok_def kind_def)
next
  case (a_signal_lost tp cps t c)
  note f = alloc_signal_lost_Some [OF a_signal_lost(3)]
  have "cond_dep q e \<and> kind q \<noteq> K_local" if "q \<in> set (sort_key addr cps)" for q
    using f that body_facts(2) [of e c tp "sort_key addr cps"]
    by (auto simp: list_all_iff non_lost_notification_def cond_dep_def same_cond_def cid_def kind_def
        split: if_split_asm)
  then show ?thesis using f assms(2) by (auto simp: predecessors_def thread_pred_ok_def kind_def)
next
  case (a_broadcast tp cps t c)
  note f = alloc_broadcast_Some [OF a_broadcast(3)]
  let ?xs = "broadcast_group (sort_key addr cps)"
  have "cond_dep q e \<and> kind q \<noteq> K_local" if "q \<in> set ?xs" for q
  proof -
    have "q \<in> set (sort_key addr cps)" using that by (auto simp: broadcast_group_def)
    then have "cid q = c" and k: "kind q = K_condition_variable_create \<or> kind q = K_wait1
        \<or> kind q = K_signal \<or> kind q = K_broadcast"
      using f by (auto simp: list_all_iff)
    moreover have "\<not> is_lost q" if "kind q = K_signal \<or> kind q = K_broadcast"
      using broadcast_cond_dep [OF _ \<open>q \<in> set ?xs\<close> that] f by blast
    moreover have "kind e = K_broadcast" "cid e = c" "c \<noteq> 0" using f by (auto simp: kind_def cid_def)
    ultimately show ?thesis by (auto simp: cond_dep_def same_cond_def)
  qed
  then show ?thesis using f assms(2) by (auto simp: predecessors_def thread_pred_ok_def kind_def)
qed (auto simp: predecessors_def thread_pred_ok_def dest!: alloc_Some)

text \<open>
  C11. \<^verbatim>\<open>is_independent_of\<close> is symmetric and total: for any two constructed events (lock
  ids of destroy events being non-zero, as their only caller asserts) both orders of the
  arguments reach no assertion and give the same answer.
\<close>

theorem is_independent_of_symmetric:
  assumes "allocated addr a" "allocated addr b"
    and "kind a = K_lock_destroy \<longrightarrow> lid a \<noteq> 0" "kind b = K_lock_destroy \<longrightarrow> lid b \<noteq> 0"
  shows "\<exists>r. is_independent_of a b = Some r \<and> is_independent_of b a = Some r"
  using independence_sym [OF allocated_event_facts [OF assms(1,3)] allocated_event_facts [OF assms(2,4)]]
  by (metis not_None_eq)

theorem is_independent_of_symmetric_witness:
  "\<exists>r. is_independent_of ex_create ex_child = Some r \<and> is_independent_of ex_child ex_create = Some r \<and> \<not> r"
proof -
  have "\<exists>r. is_independent_of ex_create ex_child = Some r \<and> is_independent_of ex_child ex_create = Some r"
    by (rule is_independent_of_symmetric [OF ex_allocated(2,3) [of "\<lambda>_. 0"]])
       (simp_all add: ex_defs kind_def)
  moreover have "is_independent_of ex_create ex_child = Some False"
    by (simp add: is_independent_of_def thread_is_independent_def thread_event_is_independent_def
        is_thread_kind_def ex_defs kind_def)
  ultimately show ?thesis by auto
qed

text \<open>Lock ids of destroy events are not checked, but such an event has only predecessors and successors on its thread.\<close>

lemma destroy_pred_thread:
  assumes "allocated addr e" "p \<in> set (predecessors e)" "kind e = K_lock_destroy \<and> lid e = 0 \<or> kind p = K_lock_destroy"
  shows "tid p = tid e"
  using assms(1)
proof (cases rule: allocated.cases)
  case (a_lock_destroy tp lp t l)
  note f = alloc_lock_destroy_Some [OF a_lock_destroy(3)]
  have "lid q \<noteq> 0" if "lp = Some q" for q
    using that f allocated_ids_ok [of addr q] a_lock_destroy(2) by (auto simp: ids_ok_def is_lock_kind_def)
  then show ?thesis using f assms(2,3) by (cases lp) (auto simp: predecessors_def opt_lock_predecessors_def thread_pred_ok_def lid_def split: if_split_asm)
next
  case (a_lock_acquire tp lp t l)
  then show ?thesis using alloc_lock_acquire_Some [OF a_lock_acquire(3)] assms(2,3)
    by (cases lp) (auto simp: predecessors_def opt_lock_predecessors_def thread_pred_ok_def kind_def split: if_split_asm)
next
  case (a_wait1 tp lp cps t c l)
  note f = alloc_wait1_Some [OF a_wait1(4)]
  have "kind q \<noteq> K_lock_destroy" if "q \<in> set (sort_key addr cps)" for q
    using f that by (auto simp: list_all_iff wait1_cond_ok_def split: if_split_asm)
  then show ?thesis using f assms(2,3) by (auto simp: predecessors_def thread_pred_ok_def kind_def split: if_split_asm)
next
  case (a_wait2 tp lp n t c l)
  note f = alloc_wait2_Some [OF a_wait2(4)]
  have "kind n \<noteq> K_lock_destroy" using f wait2_notified_dep [of t c tp n] by auto
  then show ?thesis using f assms(2,3) by (auto simp: predecessors_def kind_def split: if_split_asm)
next
  case (a_cond_destroy tp cps t c)
  then show ?thesis using alloc_condition_variable_destroy_Some [OF a_cond_destroy(3)] assms(2,3)
    by (auto simp: predecessors_def thread_pred_ok_def kind_def list_all_iff split: if_split_asm)
next
  case (a_signal_lost tp cps t c)
  note f = alloc_signal_lost_Some [OF a_signal_lost(3)]
  have "kind q \<noteq> K_lock_destroy" if "q \<in> set (sort_key addr cps)" for q
    using f that by (auto simp: list_all_iff non_lost_notification_def split: if_split_asm)
  then show ?thesis using f assms(2,3) by (auto simp: predecessors_def thread_pred_ok_def kind_def split: if_split_asm)
next
  case (a_broadcast tp cps t c)
  note f = alloc_broadcast_Some [OF a_broadcast(3)]
  have "kind q \<noteq> K_lock_destroy" if "q \<in> set (broadcast_group (sort_key addr cps))" for q
    using f that by (auto simp: list_all_iff broadcast_group_def)
  then show ?thesis using f assms(2,3) by (auto simp: predecessors_def thread_pred_ok_def kind_def split: if_split_asm)
qed (use assms(2,3) in \<open>auto simp: program_init_def predecessors_def thread_pred_ok_def lock_release_predecessors_def kind_def dest!: alloc_Some split: if_split_asm\<close>)

lemma foreign_init_independent:
  assumes "allocated addr e" "p \<in> set (predecessors e)" "kind e = K_thread_init" "kind p = K_thread_create" "created_tid p \<noteq> tid e"
  shows "is_independent_of p e = Some True"
proof -
  have "tid p \<noteq> tid e" using assms(1)
  proof (cases rule: allocated.cases)
    case (a_thread_init cr t)
    then show ?thesis using alloc_thread_init_Some [OF a_thread_init(3)] assms(2) by (auto simp: predecessors_def)
  qed (use assms(2,3) in \<open>auto simp: kind_def dest!: alloc_Some\<close>)
  then show ?thesis
    using assms(3-5) by (simp add: is_independent_of_def thread_is_independent_def thread_event_is_independent_def is_thread_kind_def)
qed

text \<open>
  C14. Every direct predecessor of a constructed event is dependent on it, whatever the kinds, with exactly one
  exception: a thread-init event with a thread id other than the one that its thread-create event has announced is reported
  independent of that event. Neither the constructor nor \<^verbatim>\<open>configuration::init_thread\<close> rules this out. Otherwise the causal order
  of the unfolding is generated by the dependence relation.
\<close>

theorem predecessors_are_dependent:
  assumes "allocated addr e" "p \<in> set (predecessors e)"
  shows "is_independent_of p e = Some (kind e = K_thread_init \<and> kind p = K_thread_create \<and> created_tid p \<noteq> tid e)"
proof (cases "kind e = K_thread_init \<and> kind p = K_thread_create \<and> created_tid p \<noteq> tid e")
  case True
  then show ?thesis using foreign_init_independent [OF assms] by simp
next
  case init: False
  have "is_independent_of p e = Some False"
  proof (cases "kind e = K_lock_destroy \<and> lid e = 0 \<or> kind p = K_lock_destroy")
    case True
    then show ?thesis using destroy_pred_thread [OF assms] by (simp add: is_independent_of_def)
  next
    case False
    then have "event_facts p" "event_facts e"
      using allocated_event_facts [OF allocated_pred [OF assms]] allocated_event_facts [OF assms(1)] by auto
    then show ?thesis using dependentI pred_dependent_cases [OF assms] False init by blast
  qed
  then show ?thesis using init by simp
qed

text \<open>The creator and its child, and a child that starts with another id.\<close>

theorem predecessors_are_dependent_witness:
  "is_independent_of ex_create ex_child = Some False
    \<and> is_independent_of ex_create (Event (Thread_Id [2]) [(Thread_Id [1], ex_create)] 3 (Thread_Init ex_create)) = Some True"
proof -
  let ?e = "Event (Thread_Id [2]) [(Thread_Id [1], ex_create)] 3 (Thread_Init ex_create)"
  have "alloc_thread_init (Thread_Id [2]) ex_create = Some ?e"
    by (simp add: ex_defs alloc_thread_init_def event_single_def kind_def tid_empty_def cone_of_event_def)
  then have "allocated (\<lambda>_. 0) ?e" by (intro a_thread_init [OF ex_allocated(2)]) (simp_all add: tid_empty_def)
  then show ?thesis
    using predecessors_are_dependent [of "\<lambda>_. 0" ?e ex_create]
      predecessors_are_dependent [OF ex_allocated(3) [of "\<lambda>_. 0"], of ex_create]
    by (simp add: ex_defs predecessors_def kind_def)
qed

end
