(* ===== verification/Comb.thy ===== *)
theory Comb
  imports Causality
begin

text \<open>
  Model of \<^verbatim>\<open>include/por/comb.h\<close> and \<^verbatim>\<open>lib/Por/comb.cpp\<close>: a tooth holds events of one
  thread with its minimum first and its maximum last, a comb maps threads to teeth. Also
  \<^verbatim>\<open>cone::setminus\<close> and \<^verbatim>\<open>event::synchronized_events\<close>, which build combs.

  \<open>None\<close> stands for a failing assertion and for undefined behaviour.
\<close>

section \<open>Teeth\<close>

record 'd tooth =
  t_events :: "'d event list"
  t_sorted :: bool

definition tooth_empty :: "'d tooth" where
  "tooth_empty = \<lparr>t_events = [], t_sorted = True\<rparr>"

definition tooth_insert :: "'d event \<Rightarrow> 'd tooth \<Rightarrow> 'd tooth option" where
  "tooth_insert e t =
     (let es = t_events t in
      if es = [] then (if t_sorted t then Some (t\<lparr>t_events := [e]\<rparr>) else None)
      else if is_less_than e (hd es) then Some (t\<lparr>t_events := e # es\<rparr>)
      else if (length es = 1 \<and> hd es \<noteq> e) \<or> is_less_than (last es) e then Some (t\<lparr>t_events := es @ [e]\<rparr>)
      else if e \<in> set es then Some t
      else let es' = butlast es @ [e, last es] in
        if length es' = 3 then (if t_sorted t then Some (t\<lparr>t_events := es'\<rparr>) else None)
        else if length es' > 3 then Some \<lparr>t_events = es', t_sorted = False\<rparr> else None)"

text \<open>
  \<^verbatim>\<open>tooth::remove\<close>. The last two branches of the source apply \<^verbatim>\<open>std::min\<close> and
  \<^verbatim>\<open>std::max\<close> to the iterators \<^verbatim>\<open>begin()\<close> and \<^verbatim>\<open>end()\<close>, so that the comparator dereferences
  \<^verbatim>\<open>end()\<close>: removing the first or the last event of an unsorted tooth is undefined.
\<close>

definition tooth_remove :: "'d event \<Rightarrow> 'd tooth \<Rightarrow> 'd tooth option" where
  "tooth_remove e t =
     (let es = t_events t in
      if e \<notin> set es then Some t
      else if t_sorted t \<or> length es \<le> 3 then Some \<lparr>t_events = remove1 e es, t_sorted = True\<rparr>
      else if hd es \<noteq> e \<and> e \<in> set (butlast es)
        then Some \<lparr>t_events = remove1 e es, t_sorted = (if length es = 4 then True else t_sorted t)\<rparr>
      else None)"

text \<open>\<^verbatim>\<open>std::sort\<close> with a comparator.\<close>

fun cmp_insort :: "('a \<Rightarrow> 'a \<Rightarrow> bool) \<Rightarrow> 'a \<Rightarrow> 'a list \<Rightarrow> 'a list" where
  "cmp_insort lt x [] = [x]"
| "cmp_insort lt x (y # ys) = (if lt y x then y # cmp_insort lt x ys else x # y # ys)"

definition cmp_sort :: "('a \<Rightarrow> 'a \<Rightarrow> bool) \<Rightarrow> 'a list \<Rightarrow> 'a list" where
  "cmp_sort lt xs = foldr (cmp_insort lt) xs []"

definition tooth_sort :: "'d tooth \<Rightarrow> 'd tooth" where
  "tooth_sort t =
     (if t_sorted t then t else \<lparr>t_events = cmp_sort is_less_than (t_events t), t_sorted = True\<rparr>)"

definition tooth_min :: "'d tooth \<Rightarrow> 'd event option" where
  "tooth_min t = (if t_events t = [] then None else Some (hd (t_events t)))"

definition tooth_max :: "'d tooth \<Rightarrow> 'd event option" where
  "tooth_max t = (if t_events t = [] then None else Some (last (t_events t)))"

text \<open>
  The class invariant: the events are on one thread at different depths, the first is the
  minimum, the last the maximum, and the flag is only set on an ordered sequence.
\<close>

definition tooth_ok :: "thread_id \<Rightarrow> 'd tooth \<Rightarrow> bool" where
  "tooth_ok u t \<longleftrightarrow>
     (let es = t_events t in
      (\<forall>e \<in> set es. tid e = u) \<and> distinct (map depth es)
      \<and> (es \<noteq> [] \<longrightarrow> (\<forall>e \<in> set es. depth (hd es) \<le> depth e \<and> depth e \<le> depth (last es)))
      \<and> (t_sorted t \<longrightarrow> sorted (map depth es)) \<and> (length es \<le> 3 \<longrightarrow> t_sorted t))"

lemma same_thread_less: "tid a = tid b \<Longrightarrow> is_less_than a b \<longleftrightarrow> depth a < depth b"
  by (simp add: is_less_than_def)

lemma configuration_depth_inj:
  "is_configuration addr C \<Longrightarrow> (\<And>a. a \<in> A \<Longrightarrow> a \<in> C \<and> tid a = u) \<Longrightarrow> inj_on depth A"
proof (rule inj_onI)
  fix a b assume c: "is_configuration addr C" and A: "\<And>a. a \<in> A \<Longrightarrow> a \<in> C \<and> tid a = u"
    and ab: "a \<in> A" "b \<in> A" "depth a = depth b"
  then have "a = b \<or> hb a b \<or> hb b a"
    using configuration_same_thread [OF c, of a b] by simp
  moreover have "allocated addr a" "allocated addr b"
    using A ab configuration_allocated [OF c] by blast+
  ultimately show "a = b"
    using ab(3) depth_hb [of a b addr] depth_hb [of b a addr] by auto
qed

lemma tooth_tid: "tooth_ok u t \<Longrightarrow> e \<in> set (t_events t) \<Longrightarrow> tid e = u"
  by (simp add: tooth_ok_def Let_def)

lemma tooth_ok_empty [simp]: "tooth_ok u tooth_empty"
  by (simp add: tooth_ok_def tooth_empty_def)

lemma map_remove1_inj: "inj_on f (insert e (set xs)) \<Longrightarrow> map f (remove1 e xs) = remove1 (f e) (map f xs)"
  by (induction xs) (auto simp: inj_on_def)

text \<open>The invariant on the two members separately, and the three ways an insertion extends it.\<close>

definition row_ok :: "thread_id \<Rightarrow> 'd event list \<Rightarrow> bool \<Rightarrow> bool" where
  "row_ok u es srt \<longleftrightarrow> (\<forall>e \<in> set es. tid e = u) \<and> distinct (map depth es)
     \<and> (\<forall>e \<in> set es. depth (hd es) \<le> depth e \<and> depth e \<le> depth (last es))
     \<and> (srt \<longrightarrow> sorted (map depth es)) \<and> (length es \<le> 3 \<longrightarrow> srt)"

lemma tooth_ok_row: "tooth_ok u t \<longleftrightarrow> row_ok u (t_events t) (t_sorted t)"
  by (cases "t_events t") (auto simp: tooth_ok_def row_ok_def Let_def)

lemma row_front:
  assumes "row_ok u es srt" "tid e = u" "\<And>a. a \<in> set es \<Longrightarrow> depth e < depth a" "es \<noteq> []"
  shows "row_ok u (e # es) srt"
proof -
  have "depth e \<notin> depth ` set es" using assms(3) by force
  moreover have "depth e \<le> depth (last es)" using assms(3,4) last_in_set less_imp_le by metis
  ultimately show ?thesis using assms by (auto simp: row_ok_def less_imp_le)
qed

lemma row_above:
  assumes "row_ok u es srt" "tid e = u" "\<And>a. a \<in> set es \<Longrightarrow> depth a < depth e" "es \<noteq> []"
  shows "row_ok u (es @ [e]) srt"
proof -
  have "depth e \<notin> depth ` set es" using assms(3) by force
  moreover have "depth (hd es) \<le> depth e" using assms(3,4) hd_in_set less_imp_le by metis
  ultimately show ?thesis using assms by (auto simp: row_ok_def less_imp_le sorted_append)
qed

lemma row_mid:
  assumes "row_ok u (a # xs @ [b]) srt" "tid e = u" "depth a < depth e" "depth e < depth b"
    and "depth e \<notin> depth ` set xs"
  shows "row_ok u (a # xs @ [e, b]) (srt \<and> xs = [])"
  using assms by (cases xs) (auto simp: row_ok_def sorted_append)

lemma tooth_insert_ok:
  assumes "tooth_ok u t" "tid e = u" "inj_on depth (insert e (set (t_events t)))"
  shows "\<exists>t'. tooth_insert e t = Some t' \<and> tooth_ok u t' \<and> set (t_events t') = insert e (set (t_events t))"
proof (cases "t_events t")
  case Nil
  then show ?thesis using assms by (auto simp: tooth_insert_def tooth_ok_def)
next
  case (Cons x xs)
  let ?es = "t_events t"
  have ne: "?es \<noteq> []" using Cons by simp
  note ok = assms(1) [unfolded tooth_ok_row]
  have tids: "\<And>a. a \<in> set ?es \<Longrightarrow> tid a = u"
    and bnd: "\<And>a. a \<in> set ?es \<Longrightarrow> depth (hd ?es) \<le> depth a \<and> depth a \<le> depth (last ?es)"
    and few: "length ?es \<le> 3 \<longrightarrow> t_sorted t"
    using ok by (auto simp: row_ok_def)
  have hl: "hd ?es \<in> set ?es" "last ?es \<in> set ?es" using ne by auto
  have lt_hd: "is_less_than e (hd ?es) \<longleftrightarrow> depth e < depth (hd ?es)"
    and lt_last: "is_less_than (last ?es) e \<longleftrightarrow> depth (last ?es) < depth e"
    using tids hl assms(2) by (simp_all add: same_thread_less)
  have inj: "depth a = depth e \<Longrightarrow> a = e" if "a \<in> set ?es" for a
    using assms(3) that by (auto simp: inj_on_def)
  note red = tooth_insert_def Let_def lt_hd lt_last ne
  show ?thesis
  proof (cases "depth e < depth (hd ?es)")
    case True
    then have "row_ok u (e # ?es) (t_sorted t)"
      using bnd by (intro row_front [OF ok assms(2) _ ne]) (meson less_le_trans)
    then show ?thesis using True by (simp add: red tooth_ok_row)
  next
    case False
    note not_front = False
    show ?thesis
    proof (cases "(length ?es = 1 \<and> hd ?es \<noteq> e) \<or> depth (last ?es) < depth e")
      case True
      have "depth (last ?es) < depth e"
        using True
      proof
        assume one: "length ?es = 1 \<and> hd ?es \<noteq> e"
        then have "last ?es = hd ?es" by (cases ?es) auto
        then show ?thesis using not_front one inj [OF hl(1)] by force
      qed
      then have "row_ok u (?es @ [e]) (t_sorted t)"
        using bnd by (intro row_above [OF ok assms(2) _ ne]) (meson le_less_trans)
      then show ?thesis using True not_front by (simp add: red tooth_ok_row)
    next
      case False
      note not_above = False
      show ?thesis
      proof (cases "e \<in> set ?es")
        case True
        then show ?thesis using not_front not_above assms(1) by (auto simp: red)
      next
        case False
        then have "length ?es \<noteq> 1" "hd ?es \<noteq> e" using not_above hl by auto
        then obtain a ys b where es: "?es = a # ys @ [b]"
          using ne by (cases ?es; cases "tl ?es" rule: rev_cases) auto
        have "depth a < depth e" "depth e < depth b"
          using not_front not_above False inj [OF hl(1)] inj [OF hl(2)] hl es by (auto simp: not_less le_less)
        then have row: "row_ok u (a # ys @ [e, b]) (t_sorted t \<and> ys = [])"
          using ok es assms(2) False inj by (intro row_mid) force+
        have lts: "\<not> is_less_than e a" "\<not> is_less_than b e" "is_less_than b e \<longleftrightarrow> False"
          using not_front not_above lt_hd lt_last es by auto
        have "butlast ?es @ [e, last ?es] = a # ys @ [e, b]" using es by (simp add: butlast_append)
        then show ?thesis
          using not_front not_above False row few
          by (cases ys) (auto simp: tooth_insert_def Let_def tooth_ok_row es lts)
      qed
    qed
  qed
qed

lemma row_sorted: "(\<forall>e \<in> set es. tid e = u) \<Longrightarrow> distinct (map depth es) \<Longrightarrow> sorted (map depth es) \<Longrightarrow> row_ok u es True"
proof (induction es rule: rev_induct)
  case (snoc e es)
  then show ?case by (cases es) (auto simp: row_ok_def sorted_append)
qed (simp add: row_ok_def)

lemma distinct_map_depth: "distinct (map depth es) \<Longrightarrow> distinct es"
  by (simp add: distinct_map)

lemma sorted_remove1_map: "sorted (map f xs) \<Longrightarrow> sorted (map f (remove1 x xs))"
  by (induction xs) (auto dest!: subsetD [OF set_remove1_subset])

lemma distinct_remove1_map: "distinct (map f xs) \<Longrightarrow> distinct (map f (remove1 x xs))"
  by (induction xs) (auto dest!: subsetD [OF set_remove1_subset])

lemma row_remove_mid:
  assumes "row_ok u (a # xs @ [b]) srt" "e \<in> set xs"
  shows "row_ok u (a # remove1 e xs @ [b]) (srt \<or> length xs = 2)"
proof -
  have sub: "set (remove1 e xs) \<subseteq> set xs" by (rule set_remove1_subset)
  have few: "sorted (map depth (a # remove1 e xs @ [b]))" if "length xs = 2"
    using assms that by (auto simp: row_ok_def length_Suc_conv numeral_eq_Suc split: if_splits)
  have "srt \<Longrightarrow> sorted (map depth (a # remove1 e xs @ [b]))"
    using assms(1) sorted_remove1_map [of depth xs e] sub by (auto simp: row_ok_def sorted_append)
  then have "srt \<or> length xs = 2 \<longrightarrow> sorted (map depth (a # remove1 e xs @ [b]))"
    using few by blast
  moreover have "length (a # remove1 e xs @ [b]) \<le> 3 \<longrightarrow> srt \<or> length xs = 2"
    using assms by (auto simp: row_ok_def length_remove1)
  moreover have "distinct (map depth (a # remove1 e xs @ [b]))"
    using assms(1) distinct_remove1_map [of depth xs e] sub by (auto simp: row_ok_def)
  moreover have "\<forall>x \<in> set (a # remove1 e xs @ [b]). tid x = u \<and> depth a \<le> depth x \<and> depth x \<le> depth b"
    using assms(1) sub by (auto simp: row_ok_def)
  ultimately show ?thesis by (simp add: row_ok_def)
qed

lemma tooth_remove_ok:
  assumes "tooth_ok u t" "tooth_remove e t = Some t'"
  shows "tooth_ok u t'" "set (t_events t') = set (t_events t) - {e}"
proof -
  let ?es = "t_events t"
  note ok = assms(1) [unfolded tooth_ok_row]
  have dist: "distinct ?es" using ok by (auto simp: row_ok_def intro: distinct_map_depth)
  then show "set (t_events t') = set ?es - {e}"
    using assms(2) by (auto simp: tooth_remove_def Let_def split: if_splits)
  show "tooth_ok u t'"
  proof (cases "e \<notin> set ?es \<or> t_sorted t \<or> length ?es \<le> 3")
    case True
    have "row_ok u (remove1 e ?es) True" if "t_sorted t \<or> length ?es \<le> 3"
      using ok that set_remove1_subset [of e ?es]
      by (intro row_sorted) (auto simp: row_ok_def intro!: sorted_remove1_map distinct_remove1_map)
    then show ?thesis using True assms by (auto simp: tooth_remove_def Let_def tooth_ok_row split: if_splits)
  next
    case False
    then have mid: "hd ?es \<noteq> e" "e \<in> set (butlast ?es)"
      and t': "t' = \<lparr>t_events = remove1 e ?es, t_sorted = (length ?es = 4)\<rparr>"
      using assms(2) by (auto simp: tooth_remove_def Let_def split: if_splits)
    obtain a ys b where es: "?es = a # ys @ [b]"
      using False by (cases ?es; cases "tl ?es" rule: rev_cases) auto
    then have ys: "e \<in> set ys" "e \<noteq> a" "e \<noteq> b" using mid dist by (auto simp: butlast_append)
    then have "remove1 e ?es = a # remove1 e ys @ [b]" using es by (simp add: remove1_append)
    moreover have "\<not> t_sorted t" using False by simp
    ultimately show ?thesis
      using row_remove_mid [of u a ys b False e] ok es ys t' by (auto simp: tooth_ok_row)
  qed
qed

lemma tooth_length_single:
  assumes "tooth_ok u t" "set (t_events t) \<subseteq> {x}"
  shows "length (t_events t) \<le> 1"
proof -
  have "distinct (t_events t)" using assms(1) by (auto simp: tooth_ok_def Let_def intro: distinct_map_depth)
  then show ?thesis using card_mono [OF _ assms(2)] by (simp add: distinct_card)
qed

text \<open>Where removal is defined: on a sorted or short tooth, and strictly inside any tooth.\<close>

lemma tooth_remove_defined:
  "t_sorted t \<or> length (t_events t) \<le> 3 \<or> e \<notin> {hd (t_events t), last (t_events t)}
    \<Longrightarrow> \<exists>t'. tooth_remove e t = Some t'"
  by (cases "t_events t" rule: rev_cases) (auto simp: tooth_remove_def Let_def)

section \<open>Combs\<close>

type_synonym 'd comb = "(thread_id, 'd tooth) smap"

definition comb_insert :: "'d event \<Rightarrow> 'd comb \<Rightarrow> 'd comb option" where
  "comb_insert e c =
     map_option (\<lambda>t. smap_put (tid e) t c)
       (tooth_insert e (case map_of c (tid e) of None \<Rightarrow> tooth_empty | Some t \<Rightarrow> t))"

text \<open>\<^verbatim>\<open>_teeth[tid]\<close> creates a missing tooth, which the emptiness test then erases again.\<close>

definition comb_remove :: "'d event \<Rightarrow> 'd comb \<Rightarrow> 'd comb option" where
  "comb_remove e c =
     map_option (\<lambda>t. if t_events t = [] then smap_erase (tid e) c else smap_put (tid e) t c)
       (tooth_remove e (case map_of c (tid e) of None \<Rightarrow> tooth_empty | Some t \<Rightarrow> t))"

text \<open>\<^verbatim>\<open>comb::remove(begin, end)\<close> skips events of threads without a tooth.\<close>

definition comb_remove_range :: "'d event list \<Rightarrow> 'd comb \<Rightarrow> 'd comb option" where
  "comb_remove_range = foldM (\<lambda>e c. if smap_has (tid e) c then comb_remove e c else Some c)"

text \<open>The order of \<^verbatim>\<open>comb_iterator\<close>: threads ascending, each tooth front to back.\<close>

definition comb_events :: "'d comb \<Rightarrow> 'd event list" where
  "comb_events c = concat (map (\<lambda>(u, t). t_events t) c)"

definition comb_of_range :: "'d event list \<Rightarrow> 'd comb option" where
  "comb_of_range es = foldM comb_insert es []"

definition comb_filter :: "('d event \<Rightarrow> bool) \<Rightarrow> 'd comb \<Rightarrow> 'd comb option" where
  "comb_filter P c =
     foldM (\<lambda>(u, t). foldM (\<lambda>e r. if P e then comb_insert e r else Some r) (t_events t)) c []"

definition comb_size :: "'d comb \<Rightarrow> nat option" where
  "comb_size c = foldM (\<lambda>(u, t) n. if t_events t = [] then None else Some (n + length (t_events t))) c 0"

definition comb_is_sorted :: "'d comb \<Rightarrow> bool" where
  "comb_is_sorted c = list_all (\<lambda>(u, t). t_sorted t) c"

definition comb_sort :: "'d comb \<Rightarrow> 'd comb" where
  "comb_sort c = map (\<lambda>(u, t). (u, tooth_sort t)) c"

text \<open>
  \<^verbatim>\<open>comb::max\<close> dereferences the maximum of every tooth, \<^verbatim>\<open>comb::min\<close> asserts that no tooth is
  empty. The two loops are the filter of \<^verbatim>\<open>cone::max\<close>, with the comparison reversed for
  minima.
\<close>

definition comb_max :: "'d comb \<Rightarrow> 'd event list option" where
  "comb_max c = map_option (extremal is_less_than) (those (map (\<lambda>(u, t). tooth_max t) c))"

definition comb_min :: "'d comb \<Rightarrow> 'd event list option" where
  "comb_min c = map_option (extremal (\<lambda>a b. is_less_than b a)) (those (map (\<lambda>(u, t). tooth_min t) c))"

definition comb_ok :: "'d comb \<Rightarrow> bool" where
  "comb_ok c \<longleftrightarrow> smap_ok c \<and> (\<forall>(u, t) \<in> set c. t_events t \<noteq> [] \<and> tooth_ok u t)"

lemma comb_ok_Nil [simp]: "comb_ok []"
  by (simp add: comb_ok_def)

lemma comb_ok_tooth:
  assumes "comb_ok c" "map_of c u = Some t"
  shows "t_events t \<noteq> []" "tooth_ok u t"
  using assms map_of_SomeD [OF assms(2)] by (auto simp: comb_ok_def)

text \<open>The events of a comb, thread by thread.\<close>

lemma comb_events_iff:
  assumes "comb_ok c"
  shows "e \<in> set (comb_events c) \<longleftrightarrow> (\<exists>t. map_of c (tid e) = Some t \<and> e \<in> set (t_events t))"
proof
  assume "e \<in> set (comb_events c)"
  then obtain u t where ut: "(u, t) \<in> set c" "e \<in> set (t_events t)"
    by (auto simp: comb_events_def)
  then have "tid e = u" using assms by (auto simp: comb_ok_def tooth_ok_def Let_def)
  moreover have "map_of c u = Some t"
    using ut(1) assms by (auto simp: comb_ok_def intro: map_of_is_SomeI smap_ok_distinct)
  ultimately show "\<exists>t. map_of c (tid e) = Some t \<and> e \<in> set (t_events t)" using ut(2) by auto
next
  assume "\<exists>t. map_of c (tid e) = Some t \<and> e \<in> set (t_events t)"
  then show "e \<in> set (comb_events c)" by (force simp: comb_events_def dest: map_of_SomeD)
qed

lemma comb_ok_put:
  "comb_ok c \<Longrightarrow> tooth_ok u t \<Longrightarrow> t_events t \<noteq> [] \<Longrightarrow> comb_ok (smap_put u t c)"
  using set_smap_put [of u t c] by (auto simp: comb_ok_def)

lemma comb_insert_ok:
  assumes "comb_ok c" "inj_on depth {a \<in> insert e (set (comb_events c)). tid a = tid e}"
  shows "\<exists>c'. comb_insert e c = Some c' \<and> comb_ok c' \<and> set (comb_events c') = insert e (set (comb_events c))"
proof -
  let ?t = "case map_of c (tid e) of None \<Rightarrow> tooth_empty | Some t \<Rightarrow> t"
  have ok: "tooth_ok (tid e) ?t" using comb_ok_tooth [OF assms(1)] by (auto split: option.splits)
  have mem: "a \<in> set (comb_events c) \<and> tid a = tid e" if "a \<in> set (t_events ?t)" for a
  proof -
    have "tid a = tid e" using tooth_tid [OF ok that] .
    then show ?thesis
      using that comb_events_iff [OF assms(1), of a]
      by (cases "map_of c (tid e)") (auto simp: tooth_empty_def)
  qed
  have "inj_on depth (insert e (set (t_events ?t)))"
    by (rule inj_on_subset [OF assms(2)]) (use mem in auto)
  then obtain t' where t': "tooth_insert e ?t = Some t'" "tooth_ok (tid e) t'"
      "set (t_events t') = insert e (set (t_events ?t))"
    using tooth_insert_ok [OF ok] by blast
  have ne: "t_events t' \<noteq> []" using t'(3) by force
  have ok': "comb_ok (smap_put (tid e) t' c)" by (rule comb_ok_put [OF assms(1) t'(2) ne])
  have "a \<in> set (comb_events (smap_put (tid e) t' c)) \<longleftrightarrow> a \<in> insert e (set (comb_events c))" for a
    using t'(3) assms(1) unfolding comb_events_iff [OF ok'] comb_events_iff [OF assms(1)] insert_iff
    by (auto simp: map_laws comb_ok_def tooth_empty_def split: option.splits)
  then show ?thesis using t'(1) ok' by (auto simp: comb_insert_def)
qed

lemma comb_remove_ok:
  assumes "comb_ok c" "comb_remove e c = Some c'"
  shows "comb_ok c'" "set (comb_events c') = set (comb_events c) - {e}"
proof -
  let ?t = "case map_of c (tid e) of None \<Rightarrow> tooth_empty | Some t \<Rightarrow> t"
  have ok: "tooth_ok (tid e) ?t" using comb_ok_tooth [OF assms(1)] by (auto split: option.splits)
  obtain t' where t': "tooth_remove e ?t = Some t'"
    and c': "c' = (if t_events t' = [] then smap_erase (tid e) c else smap_put (tid e) t' c)"
    using assms(2) by (auto simp: comb_remove_def)
  note r = tooth_remove_ok [OF ok t']
  show ok': "comb_ok c'"
  proof (cases "t_events t' = []")
    case True
    then have "c' = smap_erase (tid e) c" using c' by simp
    moreover have "set (smap_erase (tid e) c) \<subseteq> set c" by (auto simp: smap_erase_def)
    ultimately show ?thesis using assms(1) by (auto simp: comb_ok_def)
  qed (use c' r comb_ok_put assms in auto)
  have "a \<in> set (comb_events c') \<longleftrightarrow> a \<in> set (comb_events c) \<and> a \<noteq> e" for a
    using r(2) assms(1) c' unfolding comb_events_iff [OF ok'] comb_events_iff [OF assms(1)]
    by (auto simp: map_laws comb_ok_def tooth_empty_def split: option.splits if_splits)
  then show "set (comb_events c') = set (comb_events c) - {e}" by auto
qed

text \<open>Building combs from events of a configuration never aborts.\<close>

lemma comb_insert_configuration:
  assumes "is_configuration addr C" "comb_ok c" "insert e (set (comb_events c)) \<subseteq> C"
  shows "\<exists>c'. comb_insert e c = Some c' \<and> comb_ok c' \<and> set (comb_events c') = insert e (set (comb_events c))"
  by (rule comb_insert_ok [OF assms(2)], rule configuration_depth_inj [OF assms(1), where u = "tid e"])
     (use assms(3) in auto)

lemma comb_insert_all:
  assumes "is_configuration addr C" "comb_ok c" "set es \<union> set (comb_events c) \<subseteq> C"
  shows "\<exists>c'. foldM comb_insert es c = Some c' \<and> comb_ok c' \<and> set (comb_events c') = set es \<union> set (comb_events c)"
proof (rule foldM_invariant [where I = "\<lambda>es c'. comb_ok c' \<and> set (comb_events c') = set es \<union> set (comb_events c)"])
  fix ys x zs t
  assume "es = ys @ x # zs" "comb_ok t \<and> set (comb_events t) = set ys \<union> set (comb_events c)"
  then show "\<exists>t'. comb_insert x t = Some t' \<and> comb_ok t' \<and> set (comb_events t') = set (ys @ [x]) \<union> set (comb_events c)"
    using comb_insert_configuration [OF assms(1), of t x] assms(3) by auto
qed (use assms in auto)

section \<open>Sorted combs\<close>

lemma cmp_insort_key:
  "\<forall>y \<in> set ys. lt y x \<longleftrightarrow> f y < f x \<Longrightarrow> cmp_insort lt x ys = insort_key f x ys" for f :: "'a \<Rightarrow> 'b::linorder"
  by (induction ys) auto

lemma cmp_sort_key:
  "(\<And>x y. x \<in> set xs \<Longrightarrow> y \<in> set xs \<Longrightarrow> lt x y \<longleftrightarrow> f x < f y) \<Longrightarrow> cmp_sort lt xs = sort_key f xs" for f :: "'a \<Rightarrow> 'b::linorder"
proof (induction xs)
  case (Cons x xs)
  then have "cmp_sort lt xs = sort_key f xs" by simp
  then show ?case using Cons.prems cmp_insort_key [of "sort_key f xs" lt x f] by (simp add: cmp_sort_def)
qed (simp add: cmp_sort_def)

lemma tooth_sort_ok:
  assumes "tooth_ok u t"
  shows "tooth_ok u (tooth_sort t)" "t_sorted (tooth_sort t)" "set (t_events (tooth_sort t)) = set (t_events t)"
proof -
  have "cmp_sort is_less_than (t_events t) = sort_key depth (t_events t)"
    using tooth_tid [OF assms] by (intro cmp_sort_key same_thread_less) simp
  moreover have "row_ok u (sort_key depth (t_events t)) True"
    using assms by (intro row_sorted) (auto simp: tooth_ok_def Let_def distinct_map)
  ultimately show "tooth_ok u (tooth_sort t)" "t_sorted (tooth_sort t)"
      "set (t_events (tooth_sort t)) = set (t_events t)"
    using assms by (cases "t_sorted t"; simp add: tooth_sort_def tooth_ok_row)+
qed

definition comb_sorted :: "'d comb \<Rightarrow> bool" where
  "comb_sorted c \<longleftrightarrow> comb_ok c \<and> (\<forall>(u, t) \<in> set c. t_sorted t)"

lemma comb_sort_ok:
  assumes "comb_ok c"
  shows "comb_sorted (comb_sort c)" "set (comb_events (comb_sort c)) = set (comb_events c)"
proof -
  have fst: "map fst (comb_sort c) = map fst c" by (simp add: comb_sort_def case_prod_unfold)
  have t: "tooth_ok u (tooth_sort t) \<and> t_sorted (tooth_sort t) \<and> set (t_events (tooth_sort t)) = set (t_events t)
      \<and> t_events (tooth_sort t) \<noteq> []" if "(u, t) \<in> set c" for u t
  proof -
    have "tooth_ok u t" "t_events t \<noteq> []" using assms that by (auto simp: comb_ok_def)
    moreover have "t_events (tooth_sort t) \<noteq> []"
      using tooth_sort_ok(3) [OF \<open>tooth_ok u t\<close>] \<open>t_events t \<noteq> []\<close> by (metis set_empty)
    ultimately show ?thesis using tooth_sort_ok by blast
  qed
  have "smap_ok (comb_sort c)" using assms fst by (simp add: comb_ok_def smap_ok_def)
  then show "comb_sorted (comb_sort c)" using t by (auto simp: comb_sorted_def comb_ok_def comb_sort_def)
  have "set (comb_events (comb_sort c)) = (\<Union>x \<in> set c. set (t_events (tooth_sort (snd x))))"
    by (simp add: comb_events_def comb_sort_def case_prod_unfold)
  also have "\<dots> = (\<Union>x \<in> set c. set (t_events (snd x)))" using t by (intro SUP_cong refl) auto
  finally show "set (comb_events (comb_sort c)) = set (comb_events c)"
    by (simp add: comb_events_def case_prod_unfold)
qed

lemma comb_remove_sorted:
  assumes "comb_sorted c"
  shows "\<exists>c'. comb_remove e c = Some c' \<and> comb_sorted c' \<and> set (comb_events c') = set (comb_events c) - {e}"
proof -
  let ?t = "case map_of c (tid e) of None \<Rightarrow> tooth_empty | Some t \<Rightarrow> t"
  have srt: "t_sorted ?t"
    using assms map_of_SomeD [of c "tid e"] by (cases "map_of c (tid e)") (auto simp: comb_sorted_def tooth_empty_def)
  then obtain t' where t': "tooth_remove e ?t = Some t'" using tooth_remove_defined [of ?t e] by blast
  then have "t_sorted t'" using srt by (auto simp: tooth_remove_def Let_def split: if_splits)
  moreover obtain c' where c': "comb_remove e c = Some c'"
      "c' = (if t_events t' = [] then smap_erase (tid e) c else smap_put (tid e) t' c)"
    using t' by (simp add: comb_remove_def)
  ultimately have "\<forall>(u, t) \<in> set c'. t_sorted t"
    using assms subsetD [OF set_smap_put [of "tid e" t' c]]
    by (cases "t_events t' = []") (auto simp: comb_sorted_def smap_erase_def, blast)
  then show ?thesis using comb_remove_ok [OF _ c'(1)] assms c'(1) by (auto simp: comb_sorted_def)
qed

lemma comb_remove_range_ok:
  assumes "comb_sorted c"
  shows "\<exists>c'. comb_remove_range es c = Some c' \<and> comb_sorted c' \<and> set (comb_events c') = set (comb_events c) - set es"
  unfolding comb_remove_range_def
proof (rule foldM_invariant [where I = "\<lambda>ys t. comb_sorted t \<and> set (comb_events t) = set (comb_events c) - set ys"])
  fix ys x zs t
  assume t: "comb_sorted t \<and> set (comb_events t) = set (comb_events c) - set ys"
  have "x \<notin> set (comb_events t)" if "\<not> smap_has (tid x) t"
    using that t comb_events_iff [of t x] by (auto simp: smap_has_def comb_sorted_def)
  then show "\<exists>t'. (if smap_has (tid x) t then comb_remove x t else Some t) = Some t'
      \<and> comb_sorted t' \<and> set (comb_events t') = set (comb_events c) - set (ys @ [x])"
    using t comb_remove_sorted [of t x] by auto
qed (use assms in simp)

end
