(* ===== verification/Comb_Algebra.thy ===== *)
theory Comb_Algebra
  imports Comb
begin

text \<open>
  \<^verbatim>\<open>cone::setminus\<close> (\<^verbatim>\<open>lib/Por/cone.cpp\<close>), \<^verbatim>\<open>event::synchronized_events\<close>
  (\<^verbatim>\<open>event/base.h\<close>) and the extremal events of a comb, with what they compute in a
  configuration: the events below a cone, set difference, maximal and minimal events.
\<close>

section \<open>Differences of cones\<close>

text \<open>
  For a thread that the right cone does not have, the loop inserts the whole chain; otherwise it
  stops at the depth of the right cone's event.
\<close>

definition setminus_thread :: "'d cone \<Rightarrow> thread_id \<times> 'd event \<Rightarrow> 'd comb \<Rightarrow> 'd comb option" where
  "setminus_thread rhs = (\<lambda>(u, e) result.
     case map_of rhs u of
       None \<Rightarrow> foldM comb_insert (thread_chain e) result
     | Some r \<Rightarrow>
         if depth r > depth e then Some result
         else foldM comb_insert (takeWhile (\<lambda>x. depth r < depth x) (thread_chain e)) result)"

definition cone_setminus :: "'d cone \<Rightarrow> 'd cone \<Rightarrow> 'd comb option" where
  "cone_setminus c rhs = foldM (setminus_thread rhs) c []"

definition synchronized_events :: "'d event \<Rightarrow> 'd comb option" where
  "synchronized_events e =
     (case thread_predecessor e of None \<Rightarrow> None
      | Some tp \<Rightarrow>
          Option.bind (cone_setminus (cone e) (cone tp)) (\<lambda>res.
          Option.bind (comb_remove tp res) (\<lambda>res.
          if smap_has (tid e) res then None else Some res)))"

text \<open>The events at or below the events of a cone, the program-init event excluded.\<close>

definition down :: "'d cone \<Rightarrow> 'd event set" where
  "down c = (\<Union>(u, e) \<in> set c. set (thread_chain e))"

definition cone_in :: "'d event set \<Rightarrow> 'd cone \<Rightarrow> bool" where
  "cone_in C c \<longleftrightarrow> smap_ok c \<and> (\<forall>(u, e) \<in> set c. e \<in> C \<and> tid e = u)"

lemma thread_chain_configuration:
  "is_configuration addr C \<Longrightarrow> e \<in> C \<Longrightarrow> x \<in> set (thread_chain e) \<Longrightarrow> x \<in> C \<and> tid x = tid e"
  using thread_chain_hb configuration_hb thread_chain_tid configuration_allocated by metis

lemma cone_inD: "cone_in C c \<Longrightarrow> map_of c u = Some e \<Longrightarrow> e \<in> C \<and> tid e = u"
  by (auto simp: cone_in_def dest!: map_of_SomeD)

lemma thread_chain_descending:
  assumes "allocated addr e"
  shows "sorted_wrt (\<lambda>x y. depth y < depth x) (thread_chain e)"
  using assms
proof (induction e rule: thread_chain.induct)
  case (1 e)
  show ?case
  proof (cases "thread_predecessor e")
    case (Some p)
    have "allocated addr p" using allocated_thread_pred [OF "1.prems" Some] by simp
    moreover have "depth x < depth e" if "x \<in> set (thread_chain p)" for x
      using thread_chain_depth [OF that \<open>allocated addr p\<close>]
        depth_pred [OF "1.prems" thread_pred_in_preds [OF Some]] by auto
    ultimately show ?thesis
      using "1.IH" [OF Some] Some by (subst thread_chain_unfold) simp
  qed (subst thread_chain_unfold, simp)
qed

lemma takeWhile_descending:
  "sorted_wrt (\<lambda>x y. f y < (f x :: nat)) xs \<Longrightarrow> takeWhile (\<lambda>x. n < f x) xs = filter (\<lambda>x. n < f x) xs"
proof (induction xs)
  case (Cons x xs)
  show ?case
  proof (cases "n < f x")
    case False
    then have "filter (\<lambda>x. n < f x) xs = []" using Cons.prems by (force simp: filter_empty_conv)
    then show ?thesis using False by simp
  qed (use Cons in simp)
qed simp

lemma thread_chain_minus:
  assumes "is_configuration addr C" "e \<in> C" "r \<in> C" "tid r = tid e"
  shows "set (takeWhile (\<lambda>x. depth r < depth x) (thread_chain e)) = set (thread_chain e) - set (thread_chain r)"
proof -
  have "x \<in> set (thread_chain r) \<longleftrightarrow> \<not> depth r < depth x" if "x \<in> set (thread_chain e)" for x
    using thread_chain_configuration [OF assms(1,2) that] configuration_chain [OF assms(1) _ assms(3), of x]
      thread_chain_depth [of x r addr] configuration_allocated [OF assms(1,3)] assms(4) by auto
  then show ?thesis
    using takeWhile_descending [OF thread_chain_descending [OF configuration_allocated [OF assms(1,2)]]]
    by auto
qed

lemma down_other_thread:
  assumes "is_configuration addr C" "cone_in C c" "x \<in> C"
  shows "x \<in> down c \<longleftrightarrow> (\<exists>e. map_of c (tid x) = Some e \<and> x \<in> set (thread_chain e))"
proof
  assume "x \<in> down c"
  then obtain u e where ue: "(u, e) \<in> set c" "x \<in> set (thread_chain e)" by (auto simp: down_def)
  then have "e \<in> C" "tid e = u" using assms(2) by (auto simp: cone_in_def)
  then have "tid x = u" using thread_chain_configuration [OF assms(1) _ ue(2)] by blast
  moreover have "map_of c u = Some e"
    using ue(1) assms(2) by (auto simp: cone_in_def intro: map_of_is_SomeI smap_ok_distinct)
  ultimately show "\<exists>e. map_of c (tid x) = Some e \<and> x \<in> set (thread_chain e)" using ue(2) by auto
qed (force simp: down_def dest: map_of_SomeD)

lemma setminus_thread_ok:
  assumes "is_configuration addr C" "cone_in C rhs" "e \<in> C" "tid e = u"
    and "comb_ok result" "set (comb_events result) \<subseteq> C"
  shows "\<exists>res. setminus_thread rhs (u, e) result = Some res \<and> comb_ok res
    \<and> set (comb_events res) = (set (thread_chain e) - down rhs) \<union> set (comb_events result)"
proof -
  have chain: "x \<in> C \<and> tid x = u" if "x \<in> set (thread_chain e)" for x
    using thread_chain_configuration [OF assms(1,3) that] assms(4) by simp
  have rhs: "x \<in> down rhs \<longleftrightarrow> (\<exists>r. map_of rhs u = Some r \<and> x \<in> set (thread_chain r))"
    if "x \<in> set (thread_chain e)" for x
    using down_other_thread [OF assms(1,2), of x] chain [OF that] by simp
  note ins = comb_insert_all [OF assms(1,5)]
  show ?thesis
  proof (cases "map_of rhs u")
    case None
    then have "set (thread_chain e) - down rhs = set (thread_chain e)" using rhs by auto
    then show ?thesis
      using None ins [of "thread_chain e"] chain assms(6) by (auto simp: setminus_thread_def)
  next
    case (Some r)
    then have r: "r \<in> C" "tid r = tid e" using cone_inD [OF assms(2) Some] assms(4) by auto
    have "set (thread_chain e) - down rhs = set (thread_chain e) - set (thread_chain r)"
      using rhs Some by auto
    then have new: "set (takeWhile (\<lambda>x. depth r < depth x) (thread_chain e)) = set (thread_chain e) - down rhs"
      using thread_chain_minus [OF assms(1,3) r] by simp
    show ?thesis
    proof (cases "depth r > depth e")
      case True
      then have "takeWhile (\<lambda>x. depth r < depth x) (thread_chain e) = []"
        by (subst thread_chain_unfold) simp
      then show ?thesis using True Some new assms(5) by (auto simp: setminus_thread_def)
    next
      case False
      have "set (takeWhile (\<lambda>x. depth r < depth x) (thread_chain e)) \<union> set (comb_events result) \<subseteq> C"
        using new chain assms(6) by auto
      from ins [OF this] show ?thesis using False Some new by (simp add: setminus_thread_def)
    qed
  qed
qed

lemma cone_setminus_ok:
  assumes "is_configuration addr C" "cone_in C c" "cone_in C rhs"
  shows "\<exists>res. cone_setminus c rhs = Some res \<and> comb_ok res \<and> set (comb_events res) = down c - down rhs"
  unfolding cone_setminus_def
proof (rule foldM_invariant [where I = "\<lambda>c' res. comb_ok res \<and> set (comb_events res) = down c' - down rhs"])
  fix ys x zs t
  assume c: "c = ys @ x # zs" and t: "comb_ok t \<and> set (comb_events t) = down ys - down rhs"
  obtain u e where x: "x = (u, e)" by (cases x)
  have e: "e \<in> C" "tid e = u" and ys: "\<And>v f. (v, f) \<in> set ys \<Longrightarrow> f \<in> C"
    using assms(2) c x by (auto simp: cone_in_def)
  have "down ys \<subseteq> C"
    using ys thread_chain_configuration [OF assms(1)] by (auto simp: down_def)
  then have "\<exists>res. setminus_thread rhs (u, e) t = Some res \<and> comb_ok res
      \<and> set (comb_events res) = (set (thread_chain e) - down rhs) \<union> set (comb_events t)"
    using t e by (intro setminus_thread_ok [OF assms(1,3)]) (auto simp: x)
  moreover have "down (ys @ [x]) = set (thread_chain e) \<union> down ys" by (auto simp: down_def x)
  ultimately show "\<exists>t'. setminus_thread rhs x t = Some t' \<and> comb_ok t'
      \<and> set (comb_events t') = down (ys @ [x]) - down rhs"
    using t x by (auto simp: Un_Diff)
qed (auto simp: down_def comb_events_def)

text \<open>The events below an event are its cone's events and what precedes them on their threads.\<close>

lemma cone_in_configuration:
  assumes "is_configuration addr C" "e \<in> C"
  shows "cone_in C (cone e)"
proof -
  have s: "cone_sound e" using allocated_cone_sound configuration_allocated [OF assms] .
  then show ?thesis
    using configuration_hb [OF _ assms] by (auto simp: cone_in_def cone_sound_def)
qed

lemma down_cone:
  assumes "is_configuration addr C" "e \<in> C"
  shows "down (cone e) = {g. hb g e \<and> g \<noteq> program_init}"
proof (intro set_eqI iffI)
  fix g
  note a = configuration_allocated [OF assms] and ci = cone_in_configuration [OF assms]
  assume "g \<in> down (cone e)"
  then obtain u f where f: "(u, f) \<in> set (cone e)" "g \<in> set (thread_chain f)" by (auto simp: down_def)
  note fs = cone_soundD [OF allocated_cone_sound [OF a] f(1)]
  have "allocated addr f" using allocated_hb fs(2) a by blast
  then have "tid g = tid f" "f \<noteq> program_init" "allocated addr g"
    using thread_chain_tid [OF f(2)] fs(4) by auto
  then have "g \<noteq> program_init"
    using allocated_tid [of addr g] allocated_tid [OF \<open>allocated addr f\<close>] by metis
  then show "g \<in> {g. hb g e \<and> g \<noteq> program_init}"
    using thread_chain_hb [OF f(2)] fs(2) hb_trans by blast
next
  fix g
  note a = configuration_allocated [OF assms]
  assume "g \<in> {g. hb g e \<and> g \<noteq> program_init}"
  then have g: "hb g e" "g \<noteq> program_init" by auto
  obtain f where f: "map_of (cone e) (tid g) = Some f" "depth g \<le> depth f"
    using covers_hb [OF g(1) a g(2)] by (auto simp: covers_def)
  have "tid f = tid g" "hb f e" using cone_memD [OF a f(1)] by auto
  then have "g \<in> set (thread_chain f)"
    using configuration_chain [OF assms(1) _ _ _ f(2)] configuration_hb [OF _ assms] g(1) by metis
  then show "g \<in> down (cone e)" using map_of_SomeD [OF f(1)] by (auto simp: down_def)
qed

text \<open>The cone entry on an event's own thread is its thread predecessor.\<close>

lemma own_thread_below:
  assumes "is_configuration addr C" "e \<in> C" "thread_predecessor e = Some tp" "hb g e" "tid g = tid e"
  shows "g = tp \<or> hb g tp"
proof -
  have "depth g < depth e" using depth_hb [OF assms(4) configuration_allocated [OF assms(1,2)]] .
  then have "g \<in> set (thread_chain e)"
    using configuration_chain [OF assms(1) configuration_hb [OF assms(4,1,2)] assms(2,5)] by simp
  then have "g \<in> set (thread_chain tp)"
    using assms(3,4) thread_chain_mem [of g e] hb.irrefl by auto
  then show ?thesis using thread_chain_hb by blast
qed

text \<open>
  C29. In a configuration \<^verbatim>\<open>cone::setminus\<close> does not abort and yields a well-formed comb of
  exactly the events below the left cone that are not below the right cone.
\<close>

theorem cone_setminus_spec:
  assumes "is_configuration addr C" "cone_in C c" "cone_in C rhs"
  shows "\<exists>res. cone_setminus c rhs = Some res \<and> comb_ok res \<and> set (comb_events res) = down c - down rhs"
  by (rule cone_setminus_ok [OF assms])

lemma ex_mem: "program_init \<in> ex_set" "ex_init \<in> ex_set" "ex_create \<in> ex_set" "ex_child \<in> ex_set"
  by (simp_all add: ex_set_def)

lemmas ex_cone_in = cone_in_configuration [OF ex_configuration]

lemma ex_chain: "thread_chain ex_init = [ex_init]" "thread_chain ex_create = [ex_create, ex_init]"
  by (simp_all add: ex_defs thread_chain.simps thread_predecessor_def)

lemma ex_cone: "cone ex_create = [(Thread_Id [1], ex_init)]" "cone ex_child = [(Thread_Id [1], ex_create)]"
  by (simp_all add: ex_defs)

lemma ex_down: "down (cone ex_child) = {ex_create, ex_init}" "down (cone ex_create) = {ex_init}"
  by (simp_all add: down_def ex_cone ex_chain)

lemma ex_distinct: "ex_create \<noteq> ex_init" "ex_child \<noteq> ex_create" "ex_child \<noteq> ex_init"
    "ex_init \<noteq> program_init" "ex_create \<noteq> program_init" "ex_child \<noteq> program_init"
  by (simp_all add: ex_defs program_init_def)

theorem cone_setminus_spec_witness:
  "\<exists>res. cone_setminus (cone ex_child) (cone ex_create) = Some res \<and> comb_ok res \<and> set (comb_events res) = {ex_create}"
  using cone_setminus_spec [OF ex_configuration [of "\<lambda>_. 0"] ex_cone_in [OF ex_mem(4)] ex_cone_in [OF ex_mem(3)]]
  by (simp add: ex_down ex_distinct insert_Diff_if)


text \<open>
  \<^verbatim>\<open>synchronized_events\<close> of an event with a thread predecessor does not abort (in
  particular the assertion that nothing remains on its own thread holds) and yields the events
  that causally precede the event but neither are nor precede its thread predecessor.
\<close>

theorem synchronized_events_spec:
  assumes "is_configuration addr C" "e \<in> C" "thread_predecessor e = Some tp"
  shows "\<exists>res. synchronized_events e = Some res \<and> comb_ok res
    \<and> set (comb_events res) = {g. hb g e \<and> g \<noteq> program_init \<and> g \<noteq> tp \<and> \<not> hb g tp}"
proof -
  have tp: "hb tp e" "tp \<in> C" "tid tp = tid e"
    using hb_pred [OF thread_pred_in_preds [OF assms(3)]] configuration_hb [OF _ assms(1,2)]
      allocated_thread_pred [OF configuration_allocated [OF assms(1,2)] assms(3)] by auto
  obtain res where res: "cone_setminus (cone e) (cone tp) = Some res" "comb_ok res"
      "set (comb_events res) = down (cone e) - down (cone tp)"
    using cone_setminus_ok [OF assms(1) cone_in_configuration [OF assms(1,2)]
      cone_in_configuration [OF assms(1) tp(2)]] by blast
  have S: "set (comb_events res) = {g. hb g e \<and> g \<noteq> program_init \<and> \<not> hb g tp}"
    using res(3) down_cone [OF assms(1,2)] down_cone [OF assms(1) tp(2)] by auto
  have own: "g = tp" if "g \<in> set (comb_events res)" "tid g = tid e" for g
    using that own_thread_below [OF assms] S by auto
  have "set (t_events t) \<subseteq> {tp}" if "map_of res (tid e) = Some t" for t
    using that own comb_events_iff [OF res(2)] tooth_tid [OF comb_ok_tooth(2) [OF res(2) that]] by force
  then have "length (t_events t) \<le> 3" if "map_of res (tid e) = Some t" for t
    using tooth_length_single [OF comb_ok_tooth(2) [OF res(2) that]] that by fastforce
  then have "\<exists>t'. tooth_remove tp (case map_of res (tid e) of None \<Rightarrow> tooth_empty | Some t \<Rightarrow> t) = Some t'"
    by (intro tooth_remove_defined) (auto simp: tooth_empty_def split: option.splits)
  then obtain res' where res': "comb_remove tp res = Some res'"
    using tp(3) by (auto simp: comb_remove_def)
  note r = comb_remove_ok [OF res(2) res']
  have "map_of res' (tid e) = None"
  proof (rule ccontr)
    assume "map_of res' (tid e) \<noteq> None"
    then obtain t where t: "map_of res' (tid e) = Some t" by auto
    then obtain g where "g \<in> set (t_events t)" "tid g = tid e"
      using comb_ok_tooth [OF r(1) t] tooth_tid by (metis hd_in_set)
    then have "g \<in> set (comb_events res')" using t comb_events_iff [OF r(1)] by simp
    then show False using own \<open>tid g = tid e\<close> r(2) by auto
  qed
  then have "synchronized_events e = Some res'"
    using assms(3) res(1) res' by (simp add: synchronized_events_def smap_has_def)
  then show ?thesis using r S by auto
qed

theorem synchronized_events_spec_witness:
  "\<exists>res. synchronized_events ex_create = Some res \<and> comb_ok res \<and> ex_init \<notin> set (comb_events res)"
proof -
  have "thread_predecessor ex_create = Some ex_init" by (simp add: ex_defs thread_predecessor_def)
  from synchronized_events_spec [OF ex_configuration [of "\<lambda>_. 0"] ex_mem(3) this]
  show ?thesis by auto
qed

end
