(* ===== verification/Immediate.thy ===== *)
theory Immediate
  imports Comb_Algebra
begin

text \<open>
  The immediate predecessors of an event (\<^verbatim>\<open>immediate_predecessors()\<close> of the event classes and
  \<^verbatim>\<open>immediate_predecessors_from_cone\<close>), the selection of extremal events of cones and combs,
  and the enumeration of a local configuration by \<^verbatim>\<open>event_iterator\<close>.
\<close>

section \<open>Maximal and minimal events\<close>

interpretation hb_flip: strict_order "\<lambda>a b. hb b a"
  by unfold_locales (auto intro: hb_trans simp: hb.irrefl)

text \<open>Inside a configuration the pairwise filter selects by causality.\<close>

lemma extremal_configuration:
  assumes "is_configuration addr C" "set xs \<subseteq> C"
  shows "extremal is_less_than xs = filter (\<lambda>x. \<forall>y \<in> set xs. \<not> hb x y) xs"
proof -
  have "is_less_than x y = hb x y" if "x \<in> set xs" "y \<in> set xs" for x y
    using configuration_less_than [OF assms(1)] that assms(2) by blast
  then have "extremal is_less_than xs = extremal hb xs" by (rule extremal_cong)
  then show ?thesis by (simp add: hb.extremal_eq)
qed

lemma set_extremal_configuration:
  assumes "is_configuration addr C" "set xs \<subseteq> C"
  shows "set (extremal is_less_than xs) = {x \<in> set xs. \<forall>y \<in> set xs. \<not> hb x y}"
  using extremal_configuration [OF assms] by auto

lemma extremal_min_configuration:
  assumes "is_configuration addr C" "set xs \<subseteq> C"
  shows "extremal (\<lambda>a b. is_less_than b a) xs = filter (\<lambda>x. \<forall>y \<in> set xs. \<not> hb y x) xs"
proof -
  have "(\<lambda>a b. is_less_than b a) x y = (\<lambda>a b. hb b a) x y" if "x \<in> set xs" "y \<in> set xs" for x y
    using configuration_less_than [OF assms(1)] that assms(2) by blast
  then have "extremal (\<lambda>a b. is_less_than b a) xs = extremal (\<lambda>a b. hb b a) xs" by (rule extremal_cong)
  then show ?thesis by (simp add: hb_flip.extremal_eq)
qed

text \<open>Every event of a comb lies between the minimum and the maximum of its tooth.\<close>

lemma tooth_extremes:
  assumes "is_configuration addr C" "comb_ok c" "set (comb_events c) \<subseteq> C" "e \<in> set (comb_events c)"
  shows "\<exists>t. (tid e, t) \<in> set c \<and> (e = last (t_events t) \<or> hb e (last (t_events t)))
    \<and> (e = hd (t_events t) \<or> hb (hd (t_events t)) e)"
proof -
  obtain t where t: "map_of c (tid e) = Some t" "e \<in> set (t_events t)"
    using comb_events_iff [OF assms(2)] assms(4) by blast
  note ok = comb_ok_tooth [OF assms(2) t(1)]
  have bnd: "depth (hd (t_events t)) \<le> depth e" "depth e \<le> depth (last (t_events t))"
    using ok t(2) by (auto simp: tooth_ok_row row_ok_def)
  have mem: "x \<in> C \<and> tid x = tid e" if "x \<in> set (t_events t)" for x
    using that t(1) assms(2,3) comb_events_iff [OF assms(2), of x] tooth_tid [OF ok(2) that] by auto
  have ends: "hd (t_events t) \<in> set (t_events t)" "last (t_events t) \<in> set (t_events t)" using ok(1) by auto
  have e: "e \<in> C" using assms(3,4) by blast
  have "e = last (t_events t) \<or> hb e (last (t_events t))"
    using mem [OF ends(2)] by (intro less_than_cone_hb [OF assms(1) e _ _ bnd(2)]) simp_all
  moreover have "e = hd (t_events t) \<or> hb (hd (t_events t)) e"
    using less_than_cone_hb [OF assms(1) _ e _ bnd(1)] mem [OF ends(1)] by metis
  ultimately have "e = last (t_events t) \<or> hb e (last (t_events t))" "e = hd (t_events t) \<or> hb (hd (t_events t)) e"
    by blast+
  then show ?thesis using map_of_SomeD [OF t(1)] by blast
qed

lemma comb_max_teeth:
  assumes "comb_ok c"
  shows "comb_max c = Some (extremal is_less_than (map (\<lambda>(u, t). last (t_events t)) c))"
    and "comb_min c = Some (extremal (\<lambda>a b. is_less_than b a) (map (\<lambda>(u, t). hd (t_events t)) c))"
proof -
  have ne: "\<forall>(u, t) \<in> set c. t_events t \<noteq> []" using assms by (auto simp: comb_ok_def)
  then have "those (map (\<lambda>(u, t). tooth_max t) c) = Some (map (\<lambda>(u, t). last (t_events t)) c)"
    by (induction c) (auto simp: tooth_max_def)
  then show "comb_max c = Some (extremal is_less_than (map (\<lambda>(u, t). last (t_events t)) c))"
    by (simp add: comb_max_def)
  from ne have "those (map (\<lambda>(u, t). tooth_min t) c) = Some (map (\<lambda>(u, t). hd (t_events t)) c)"
    by (induction c) (auto simp: tooth_min_def)
  then show "comb_min c = Some (extremal (\<lambda>a b. is_less_than b a) (map (\<lambda>(u, t). hd (t_events t)) c))"
    by (simp add: comb_min_def)
qed

lemma comb_ends:
  assumes "comb_ok c" "(u, t) \<in> set c"
  shows "last (t_events t) \<in> set (comb_events c)" "hd (t_events t) \<in> set (comb_events c)"
proof -
  have "t_events t \<noteq> []" using assms by (auto simp: comb_ok_def)
  then show "last (t_events t) \<in> set (comb_events c)" "hd (t_events t) \<in> set (comb_events c)"
    using assms(2) by (auto simp: comb_events_def intro!: bexI [of _ "(u, t)"])
qed

lemma maximal_via:
  assumes "L \<subseteq> E" "\<And>e. e \<in> E \<Longrightarrow> \<exists>l \<in> L. e = l \<or> R e l" "\<And>a b c. R a b \<Longrightarrow> R b c \<Longrightarrow> R a c"
  shows "{x \<in> L. \<forall>y \<in> L. \<not> R x y} = {e \<in> E. \<forall>f \<in> E. \<not> R e f}"
proof (intro set_eqI iffI)
  fix x assume x: "x \<in> {x \<in> L. \<forall>y \<in> L. \<not> R x y}"
  have "\<not> R x f" if "f \<in> E" for f
  proof
    assume "R x f"
    obtain l where "l \<in> L" "f = l \<or> R f l" using assms(2) [OF \<open>f \<in> E\<close>] by blast
    then have "R x l" using \<open>R x f\<close> assms(3) by blast
    then show False using x \<open>l \<in> L\<close> by blast
  qed
  then show "x \<in> {e \<in> E. \<forall>f \<in> E. \<not> R e f}" using x assms(1) by blast
next
  fix x assume x: "x \<in> {e \<in> E. \<forall>f \<in> E. \<not> R e f}"
  then obtain l where l: "l \<in> L" "x = l \<or> R x l" using assms(2) [of x] by auto
  then have "x \<in> L" using x assms(1) by blast
  then show "x \<in> {x \<in> L. \<forall>y \<in> L. \<not> R x y}" using x assms(1) by blast
qed

lemma comb_extremes:
  assumes "is_configuration addr C" "comb_ok c" "set (comb_events c) \<subseteq> C"
  shows "(\<exists>ms. comb_max c = Some ms \<and> set ms = {e \<in> set (comb_events c). \<forall>f \<in> set (comb_events c). \<not> hb e f})
    \<and> (\<exists>ms. comb_min c = Some ms \<and> set ms = {e \<in> set (comb_events c). \<forall>f \<in> set (comb_events c). \<not> hb f e})"
proof -
  let ?E = "set (comb_events c)"
  let ?L = "map (\<lambda>(u, t). last (t_events t)) c" and ?H = "map (\<lambda>(u, t). hd (t_events t)) c"
  have sub: "set ?L \<subseteq> ?E" "set ?H \<subseteq> ?E" using comb_ends [OF assms(2)] by auto
  have up: "\<exists>l \<in> set ?L. e = l \<or> hb e l" and dn: "\<exists>h \<in> set ?H. e = h \<or> hb h e" if e: "e \<in> ?E" for e
  proof -
    obtain t where t: "(tid e, t) \<in> set c" "e = last (t_events t) \<or> hb e (last (t_events t))"
        "e = hd (t_events t) \<or> hb (hd (t_events t)) e"
      using tooth_extremes [OF assms e] by blast
    have m: "last (t_events t) \<in> set ?L" "hd (t_events t) \<in> set ?H" using t(1) by force+
    show "\<exists>l \<in> set ?L. e = l \<or> hb e l" by (rule bexI [OF _ m(1)], rule t(2))
    show "\<exists>h \<in> set ?H. e = h \<or> hb h e" by (rule bexI [OF _ m(2)], rule t(3))
  qed
  have "{x \<in> set ?L. \<forall>y \<in> set ?L. \<not> hb x y} = {e \<in> ?E. \<forall>f \<in> ?E. \<not> hb e f}"
    by (rule maximal_via [OF sub(1) up]) (auto intro: hb_trans)
  moreover have "{x \<in> set ?H. \<forall>y \<in> set ?H. \<not> hb y x} = {e \<in> ?E. \<forall>f \<in> ?E. \<not> hb f e}"
    by (rule maximal_via [where R = "\<lambda>a b. hb b a", OF sub(2) dn]) (auto intro: hb_trans)
  moreover have "set ?L \<subseteq> C" "set ?H \<subseteq> C" using sub assms(3) by auto
  ultimately show ?thesis
    using comb_max_teeth [OF assms(2)] extremal_configuration [OF assms(1), of ?L]
      extremal_min_configuration [OF assms(1), of ?H] by (simp del: set_map)
qed

text \<open>
  \<^verbatim>\<open>comb::max\<close> and \<^verbatim>\<open>comb::min\<close>, which only look at the ends of the teeth, return
  exactly the causally maximal and minimal events of a comb of events of one configuration.
\<close>

theorem comb_extremes_spec:
  assumes "is_configuration addr C" "comb_ok c" "set (comb_events c) \<subseteq> C"
  shows "(\<exists>ms. comb_max c = Some ms \<and> set ms = {e \<in> set (comb_events c). \<forall>f \<in> set (comb_events c). \<not> hb e f})
    \<and> (\<exists>ms. comb_min c = Some ms \<and> set ms = {e \<in> set (comb_events c). \<forall>f \<in> set (comb_events c). \<not> hb f e})"
  by (rule comb_extremes [OF assms])

theorem comb_extremes_spec_witness:
  "\<exists>c ms ns. comb_insert ex_child [] = Some c \<and> comb_max c = Some ms \<and> set ms = {ex_child}
    \<and> comb_min c = Some ns \<and> set ns = {ex_child}"
proof -
  obtain c where c: "comb_insert ex_child [] = Some c" "comb_ok c" "set (comb_events c) = {ex_child}"
    using comb_insert_configuration [OF ex_configuration [of "\<lambda>_. 0"], of "[]" ex_child] ex_mem
    by (auto simp: comb_ok_def comb_events_def)
  from comb_extremes_spec [OF ex_configuration [of "\<lambda>_. 0"] c(2)] show ?thesis
    using c ex_mem hb.irrefl [of ex_child] by auto
qed

section \<open>Immediate predecessors\<close>

definition join_immediate_predecessors :: "'d event \<Rightarrow> 'd event \<Rightarrow> 'd event list" where
  "join_immediate_predecessors tp j = (if is_less_than tp j then [j] else [tp, j])"

definition acquire_immediate_predecessors :: "'d event \<Rightarrow> 'd event option \<Rightarrow> 'd event list" where
  "acquire_immediate_predecessors tp lp =
     (case lp of None \<Rightarrow> [tp]
      | Some l \<Rightarrow> if is_less_than_eq tp l then [l] else if is_less_than l tp then [tp] else [tp, l])"

definition destroy_immediate_predecessors :: "'d event \<Rightarrow> 'd event option \<Rightarrow> 'd event list" where
  "destroy_immediate_predecessors tp lp =
     (case lp of None \<Rightarrow> [tp]
      | Some l \<Rightarrow> if is_less_than_eq tp l then [l] else if is_less_than l tp then [tp] else [tp, l])"

definition release_immediate_predecessors :: "'d event \<Rightarrow> 'd event \<Rightarrow> 'd event list" where
  "release_immediate_predecessors tp l =
     (if is_less_than_eq tp l then [l] else if is_less_than l tp then [tp] else [tp, l])"

definition wait2_immediate_predecessors :: "'d event \<Rightarrow> 'd event \<Rightarrow> 'd event list" where
  "wait2_immediate_predecessors n l =
     (if is_less_than n l then [l] else if is_less_than l n then [n] else [n, l])"

definition signal_immediate_predecessors :: "'d cone \<Rightarrow> 'd event \<Rightarrow> 'd event list \<Rightarrow> 'd event list" where
  "signal_immediate_predecessors c tp cps =
     (if signal_is_lost_of cps then cone_max c
      else if is_less_than (hd cps) tp then [tp]
      else if is_less_than tp (hd cps) then [hd cps] else [tp, hd cps])"

text \<open>The remaining classes return \<^verbatim>\<open>predecessors()\<close> or the maximal events of the cone.\<close>

definition immediate_predecessors :: "'d event \<Rightarrow> 'd event list" where
  "immediate_predecessors e =
     (case body e of
        Program_Init \<Rightarrow> []
      | Thread_Join tp j \<Rightarrow> join_immediate_predecessors tp j
      | Lock_Acquire l tp lp \<Rightarrow> acquire_immediate_predecessors tp lp
      | Lock_Destroy l tp lp \<Rightarrow> destroy_immediate_predecessors tp lp
      | Lock_Release l tp lp atomic \<Rightarrow> release_immediate_predecessors tp lp
      | Wait2 c l tp n lp \<Rightarrow> wait2_immediate_predecessors n lp
      | Signal c tp cps \<Rightarrow> signal_immediate_predecessors (cone e) tp cps
      | Cond_Destroy c tp cps \<Rightarrow> cone_max (cone e)
      | Wait1 c l tp lp cps \<Rightarrow> cone_max (cone e)
      | Broadcast c tp cps n \<Rightarrow> cone_max (cone e)
      | _ \<Rightarrow> predecessors e)"

definition maximal_preds :: "'d event \<Rightarrow> 'd event set" where
  "maximal_preds e = {p \<in> set (predecessors e). \<forall>q \<in> set (predecessors e). \<not> hb p q}"

lemma pred_not_root:
  "allocated addr e \<Longrightarrow> p \<in> set (predecessors e) \<Longrightarrow> kind e \<noteq> K_thread_init \<Longrightarrow> kind p \<noteq> K_program_init"
  by (induction rule: allocated_shape_induct)
     (auto simp: single_shape_def multi_shape_def thread_pred_ok_def split: if_splits)

lemma cone_max_maximal:
  assumes "is_configuration addr C" "e \<in> C" "kind e \<noteq> K_thread_init"
  shows "set (cone_max (cone e)) = maximal_preds e"
proof -
  note a = configuration_allocated [OF assms(1,2)]
  let ?L = "set (cone_events (cone e))" and ?P = "set (predecessors e)"
  have L: "hb f e" if "f \<in> ?L" for f
    using that cone_soundD [OF allocated_cone_sound [OF a]] by (auto simp: cone_events_def)
  have sub: "?L \<subseteq> C" using L configuration_hb [OF _ assms(1,2)] by blast
  have P: "\<exists>f \<in> ?L. p = f \<or> hb p f" if "p \<in> ?P" for p
  proof -
    have "covers (cone e) (tid p) (depth p)" using covers_pred(1) [OF a that] pred_not_root [OF a that assms(3)] by blast
    then obtain f where f: "map_of (cone e) (tid p) = Some f" "depth p \<le> depth f" by (auto simp: covers_def)
    have "f \<in> ?L" using map_of_SomeD [OF f(1)] by (force simp: cone_events_def)
    moreover have "p = f \<or> hb p f"
      using less_than_cone_hb [OF assms(1) configuration_hb [OF hb_pred [OF that] assms(1,2)] _ _ f(2)]
        sub \<open>f \<in> ?L\<close> cone_memD(1) [OF a f(1)] by blast
    ultimately show ?thesis by blast
  qed
  have below: "\<exists>p \<in> ?P. f = p \<or> hb f p" if "hb f e" for f
    using that hb_last [of f e] by blast
  have m1: "{x \<in> ?L. \<forall>y \<in> ?L. \<not> hb x y} = {x \<in> ?L \<union> ?P. \<forall>y \<in> ?L \<union> ?P. \<not> hb x y}"
    by (rule maximal_via) (use P in \<open>auto intro: hb_trans\<close>)
  have m2: "{x \<in> ?P. \<forall>y \<in> ?P. \<not> hb x y} = {x \<in> ?L \<union> ?P. \<forall>y \<in> ?L \<union> ?P. \<not> hb x y}"
    by (rule maximal_via) (use L below in \<open>auto intro: hb_trans\<close>)
  show ?thesis
    using set_extremal_configuration [OF assms(1) sub] m1 m2 unfolding cone_max_def maximal_preds_def by simp
qed

text \<open>The maximal elements of a pair, as the classes with two predecessors select them.\<close>

lemma maximal_pair:
  assumes "is_configuration addr C" "p \<in> C" "q \<in> C"
  shows "{x \<in> {p, q}. \<forall>y \<in> {p, q}. \<not> hb x y} =
    (if is_less_than p q then {q} else if is_less_than q p then {p} else {p, q})"
  using configuration_less_than [OF assms] configuration_less_than [OF assms(1,3,2)] hb.irrefl hb.asym [of p q]
  by auto

lemma preds_in_configuration:
  "is_configuration addr C \<Longrightarrow> e \<in> C \<Longrightarrow> p \<in> set (predecessors e) \<Longrightarrow> p \<in> C"
  using configuration_hb hb_pred by blast

lemma immediate_pair:
  assumes "is_configuration addr C" "e \<in> C" "set (predecessors e) = {p, q}"
  shows "maximal_preds e = (if is_less_than p q then {q} else if is_less_than q p then {p} else {p, q})"
  using maximal_pair [OF assms(1), of p q] preds_in_configuration [OF assms(1,2)] assms(3)
  unfolding maximal_preds_def by auto

lemma wait2_waiting_before:
  assumes "wait2_notified t c tp n"
  shows "tp \<in> set (predecessors n)"
proof -
  have mem: "tp \<in> set (wait_predecessors n)"
    using assms by (auto simp: wait2_notified_def list_ex_iff split: if_split_asm)
  obtain u d k b where n: "n = Event u d k b" by (cases n)
  show ?thesis
  proof (cases b)
    case (Signal x1 x2 cps)
    then show ?thesis
      using mem n by (cases cps) (auto simp: predecessors_def signal_wait_predecessor_def split: if_split_asm)
  next
    case (Broadcast x1 x2 cps m)
    then show ?thesis
      using mem n by (auto simp: predecessors_def broadcast_wait_predecessors_def dest: in_set_takeD split: if_split_asm)
  qed (use mem n in auto)
qed

lemma immediate_single: "predecessors e = [p] \<Longrightarrow> maximal_preds e = {p}"
  using hb.irrefl by (auto simp: maximal_preds_def)

lemma immediate_lock:
  assumes "is_configuration addr C" "e \<in> C" "set (predecessors e) = {tp, l}"
  shows "set (if is_less_than_eq tp l then [l] else if is_less_than l tp then [tp] else [tp, l]) = maximal_preds e"
  unfolding immediate_pair [OF assms] is_less_than_eq_def by auto

lemma immediate_predecessors_general:
  assumes "is_configuration addr C" "e \<in> C"
  shows "maximal_preds e \<subseteq> set (immediate_predecessors e) \<and> set (immediate_predecessors e) \<subseteq> set (predecessors e)
    \<and> ((\<forall>tp j. body e = Thread_Join tp j \<longrightarrow> \<not> hb j tp) \<longrightarrow> set (immediate_predecessors e) = maximal_preds e)"
proof (cases "\<exists>tp j. body e = Thread_Join tp j")
  case True
  then obtain tp j where b: "body e = Thread_Join tp j" by blast
  then have p: "set (predecessors e) = {tp, j}" by (simp add: predecessors_def)
  have lt: "is_less_than j tp \<longleftrightarrow> hb j tp"
    using configuration_less_than [OF assms(1)] preds_in_configuration [OF assms] p by blast
  show ?thesis
    using immediate_pair [OF assms p] p b lt
    by (auto simp: immediate_predecessors_def join_immediate_predecessors_def split: if_splits)
next
  case False
  note a = configuration_allocated [OF assms]
  have ti: "kind e = K_thread_init \<Longrightarrow> \<exists>c. body e = Thread_Init c"
    by (cases "body e") (auto simp: kind_def)
  note cm = cone_max_maximal [OF assms]
  have "set (immediate_predecessors e) = maximal_preds e"
  proof (cases "body e")
    case (Thread_Join tp j)
    then show ?thesis using False by blast
  next
    case (Lock_Destroy l tp lp)
    then have i: "immediate_predecessors e = destroy_immediate_predecessors tp lp"
      and p: "predecessors e = opt_lock_predecessors tp lp"
      by (simp_all add: immediate_predecessors_def predecessors_def)
    show ?thesis
    proof (cases lp)
      case (Some q)
      then have "set (predecessors e) = {tp, q}" using p by (auto simp: opt_lock_predecessors_def)
      from immediate_lock [OF assms this] show ?thesis
        using i Some by (simp add: destroy_immediate_predecessors_def)
    qed (use i p immediate_single [of e tp] in \<open>simp add: destroy_immediate_predecessors_def opt_lock_predecessors_def\<close>)
  next
    case (Lock_Acquire l tp lp)
    then have i: "immediate_predecessors e = acquire_immediate_predecessors tp lp"
      and p: "predecessors e = opt_lock_predecessors tp lp"
      by (simp_all add: immediate_predecessors_def predecessors_def)
    show ?thesis
    proof (cases lp)
      case (Some q)
      then have "set (predecessors e) = {tp, q}" using p by (auto simp: opt_lock_predecessors_def)
      from immediate_lock [OF assms this] show ?thesis
        using i Some by (simp add: acquire_immediate_predecessors_def)
    qed (use i p immediate_single [of e tp] in \<open>simp add: acquire_immediate_predecessors_def opt_lock_predecessors_def\<close>)
  next
    case (Lock_Release l tp lp atomic)
    then have "set (predecessors e) = {tp, lp}" by (simp add: predecessors_def lock_release_predecessors_def)
    from immediate_lock [OF assms this] show ?thesis
      using Lock_Release by (simp add: immediate_predecessors_def release_immediate_predecessors_def)
  next
    case (Wait2 c l tp n lp)
    have "wait2_notified (tid e) c tp n"
      using a Wait2 by (cases rule: allocated.cases) (auto dest!: alloc_Some simp: program_init_def)
    then have "hb tp n" using hb_pred wait2_waiting_before by blast
    have "maximal_preds e = {x \<in> {n, lp}. \<forall>y \<in> {n, lp}. \<not> hb x y}"
      unfolding maximal_preds_def predecessors_def Wait2
      by (rule maximal_via [symmetric]) (use \<open>hb tp n\<close> in \<open>auto intro: hb_trans\<close>)
    then show ?thesis
      using maximal_pair [OF assms(1), of n lp] preds_in_configuration [OF assms] Wait2
      by (auto simp: immediate_predecessors_def wait2_immediate_predecessors_def predecessors_def)
  next
    case (Signal c tp cps)
    show ?thesis
    proof (cases "signal_is_lost_of cps")
      case True
      then show ?thesis using Signal cm ti
        by (auto simp: immediate_predecessors_def signal_immediate_predecessors_def kind_def)
    next
      case False
      then obtain w where w: "cps = [w]" by (cases cps rule: signal_is_lost_of.cases) auto
      then have "set (predecessors e) = {w, tp}" using Signal by (auto simp: predecessors_def)
      from immediate_pair [OF assms this] show ?thesis
        using False Signal w
        by (simp add: immediate_predecessors_def signal_immediate_predecessors_def insert_commute)
    qed
  qed (use immediate_single [of e] cm ti in \<open>auto simp: immediate_predecessors_def predecessors_def maximal_preds_def kind_def\<close>)
  then show ?thesis by (auto simp: maximal_preds_def)
qed

lemma immediate_join:
  assumes "is_configuration addr C" "e \<in> C" "body e = Thread_Join tp j"
  shows "set (immediate_predecessors e) = insert j (maximal_preds e)"
proof -
  have p: "set (predecessors e) = {tp, j}" using assms(3) by (simp add: predecessors_def)
  have "is_less_than tp j \<longleftrightarrow> hb tp j"
    using configuration_less_than [OF assms(1)] preds_in_configuration [OF assms(1,2)] p by blast
  moreover have "\<not> (hb tp j \<and> hb j tp)" "\<not> hb tp tp" "\<not> hb j j" using hb_trans hb.irrefl by blast+
  ultimately show ?thesis
    using p assms(3) by (auto simp: immediate_predecessors_def join_immediate_predecessors_def maximal_preds_def)
qed

text \<open>
  C19. \<^verbatim>\<open>immediate_predecessors()\<close>, which each event class computes in its own way from two stored pointers or from
  the cone, returns exactly the causally maximal predecessors; for a join it always returns the exit of the joined thread
  as well, also when that is already below the thread predecessor and thus not maximal, as for a thread that is joined twice.
\<close>

theorem immediate_predecessors_maximal:
  assumes "is_configuration addr C" "e \<in> C"
  shows "set (immediate_predecessors e) = maximal_preds e \<union> {j. \<exists>tp. body e = Thread_Join tp j}"
proof (cases "\<exists>tp j. body e = Thread_Join tp j")
  case True
  then show ?thesis using immediate_join [OF assms] by auto
next
  case False
  then show ?thesis using immediate_predecessors_general [OF assms] by auto
qed

text \<open>The child of the small configuration exits and the main thread joins it twice.\<close>

definition ex_exit :: "nat event" where
  "ex_exit = Event (Thread_Id [1, 1]) [(Thread_Id [1], ex_create), (Thread_Id [1, 1], ex_child)] 4 (Thread_Exit ex_child False)"

definition ex_join :: "nat event" where
  "ex_join = Event (Thread_Id [1]) [(Thread_Id [1], ex_create), (Thread_Id [1, 1], ex_exit)] 5 (Thread_Join ex_create ex_exit)"

definition ex_rejoin :: "nat event" where
  "ex_rejoin = Event (Thread_Id [1]) [(Thread_Id [1], ex_join), (Thread_Id [1, 1], ex_exit)] 6 (Thread_Join ex_join ex_exit)"

lemmas ex_join_defs = ex_exit_def ex_join_def ex_rejoin_def

lemma ex_join_fields:
  "tid ex_exit = Thread_Id [1, 1]" "depth ex_exit = 4" "kind ex_exit = K_thread_exit"
  "cone ex_exit = [(Thread_Id [1], ex_create), (Thread_Id [1, 1], ex_child)]"
  "tid ex_join = Thread_Id [1]" "depth ex_join = 5" "kind ex_join = K_thread_join"
  "cone ex_join = [(Thread_Id [1], ex_create), (Thread_Id [1, 1], ex_exit)]"
  "tid ex_child = Thread_Id [1, 1]" "depth ex_child = 3" "kind ex_child = K_thread_init"
  "tid ex_create = Thread_Id [1]" "depth ex_create = 2" "kind ex_create = K_thread_create"
  by (simp_all add: ex_join_defs ex_defs kind_def)

lemma ex_tid_less: "Thread_Id [1] < Thread_Id [1, 1]" "\<not> Thread_Id [1, 1] < Thread_Id [1]"
  by (simp_all add: less_thread_id_def tid_lt_def)

lemma ex_join_alloc:
  "alloc_thread_exit (Thread_Id [1, 1]) ex_child False = Some ex_exit"
  "alloc_thread_join (Thread_Id [1]) ex_create ex_exit = Some ex_join"
  "alloc_thread_join (Thread_Id [1]) ex_join ex_exit = Some ex_rejoin"
  by (simp_all add: alloc_thread_exit_def alloc_thread_join_def event_single_def event_multi_def thread_pred_ok_def tid_empty_def
      cone_of_event_def cone_of_events_def cone_insert_def cone_update_def cone_max_depth_def cone_events_def Let_def ex_join_fields ex_cone ex_tid_less,
      simp_all add: ex_exit_def ex_join_def ex_rejoin_def)

lemma ex_join_configuration: "is_configuration addr (insert ex_rejoin (insert ex_join (insert ex_exit ex_set)))"
proof -
  have x: "allocated addr ex_exit" by (rule a_thread_exit [OF ex_allocated(3) ex_join_alloc(1)])
  have j: "allocated addr ex_join" by (rule a_thread_join [OF ex_allocated(2) x ex_join_alloc(2)])
  have r: "allocated addr ex_rejoin" by (rule a_thread_join [OF j x ex_join_alloc(3)])
  have p: "thread_predecessor ex_exit = Some ex_child" "thread_predecessor ex_join = Some ex_create" "thread_predecessor ex_rejoin = Some ex_join"
    by (simp_all add: ex_join_defs thread_predecessor_def)
  have q: "thread_predecessor ex_child = None" by (simp add: ex_child_def thread_predecessor_def)
  have c: "thread_chain ex_child = [ex_child]" "thread_chain ex_join = [ex_join, ex_create, ex_init]"
    by (simp_all add: thread_chain.simps [of ex_join] thread_chain.simps [of ex_child] p(2) q ex_chain)
  have t: "tid ex_init = Thread_Id [1]" "tid (program_init :: nat event) = tid_none" "tid ex_rejoin = Thread_Id [1]" by (simp_all add: ex_defs ex_rejoin_def program_init_def)
  have "is_configuration addr (insert ex_exit ex_set)"
    by (rule configuration_insert_chain [OF ex_configuration x _ p(1)])
      (auto simp: ex_set_def predecessors_def ex_exit_def [THEN arg_cong, of body] c ex_join_fields t tid_none_def)
  then have "is_configuration addr (insert ex_join (insert ex_exit ex_set))"
    by (rule configuration_insert_chain [OF _ j _ p(2)])
      (auto simp: ex_set_def predecessors_def ex_join_def [THEN arg_cong, of body] ex_chain ex_join_fields t tid_none_def)
  then show ?thesis
    by (rule configuration_insert_chain [OF _ r _ p(3)])
      (auto simp: ex_set_def predecessors_def ex_rejoin_def [THEN arg_cong, of body] c ex_join_fields t tid_none_def)
qed

theorem immediate_predecessors_maximal_witness:
  "set (immediate_predecessors ex_join) = {ex_exit} \<and> maximal_preds ex_join = {ex_exit}
    \<and> set (immediate_predecessors ex_rejoin) = {ex_join, ex_exit} \<and> ex_exit \<notin> maximal_preds ex_rejoin"
proof -
  let ?C = "insert ex_rejoin (insert ex_join (insert ex_exit ex_set))"
  have b: "body ex_join = Thread_Join ex_create ex_exit" "body ex_rejoin = Thread_Join ex_join ex_exit" by (simp_all add: ex_join_defs)
  have l: "is_less_than ex_create ex_exit" "\<not> is_less_than ex_join ex_exit"
    by (simp_all add: is_less_than_def is_less_than_cone_def ex_join_fields)
  have s: "set (immediate_predecessors ex_join) = {ex_exit}" "set (immediate_predecessors ex_rejoin) = {ex_join, ex_exit}"
    using l by (simp_all add: immediate_predecessors_def join_immediate_predecessors_def b)
  have "hb ex_exit ex_join" by (rule hb_pred) (simp add: predecessors_def b)
  then have "ex_exit \<notin> maximal_preds ex_rejoin" by (auto simp: maximal_preds_def predecessors_def b)
  moreover have "hb ex_create ex_child" "hb ex_child ex_exit" by (rule hb_pred, simp add: predecessors_def ex_child_def ex_exit_def)+
  then have "\<not> hb ex_exit ex_create" using hb_trans hb.irrefl by blast
  then have "ex_exit \<in> maximal_preds ex_join" by (auto simp: maximal_preds_def predecessors_def b hb.irrefl)
  ultimately show ?thesis
    using s immediate_predecessors_maximal [OF ex_join_configuration [of "\<lambda>_. 0"], of ex_join] by (auto simp: b)
qed

end
