(* ===== verification/Local_Config.thy ===== *)
theory Local_Config
  imports Immediate
begin

text \<open>
  \<^verbatim>\<open>event_iterator\<close> of \<^verbatim>\<open>event/iterator.h\<close> and \<^verbatim>\<open>lib/Por/event.cpp\<close>: the enumeration of the
  local configuration of an event (\<^verbatim>\<open>local_configuration()\<close>) or of its causes
  (\<^verbatim>\<open>causes()\<close>), and \<^verbatim>\<open>event::is_extension_of\<close>.

  The reverse iterator over the cone is the list of entries still ahead, the current one first:
  the empty list is \<^verbatim>\<open>rend()\<close>, a default-constructed iterator is \<open>None\<close>.
\<close>

record 'd ev_iter =
  it_event :: "'d event option"
  it_thread :: "'d cone option"

definition it_end :: "'d ev_iter" where
  "it_end = \<lparr>it_event = None, it_thread = None\<rparr>"

definition it_root_flag :: "'d event \<Rightarrow> bool \<Rightarrow> bool" where
  "it_root_flag lc with_root = (if kind lc = K_program_init then False else with_root)"

definition it_threads :: "'d cone \<Rightarrow> 'd ev_iter" where
  "it_threads c = \<lparr>it_event = Some (snd (hd c)), it_thread = Some c\<rparr>"

definition it_to_root :: "'d event \<Rightarrow> 'd ev_iter option" where
  "it_to_root lc =
     (let r = hd (predecessors lc) in
      if kind lc = K_thread_init \<and> kind r = K_program_init
      then Some \<lparr>it_event = Some r, it_thread = Some []\<rparr> else None)"

definition it_begin :: "'d event \<Rightarrow> bool \<Rightarrow> bool \<Rightarrow> 'd ev_iter option" where
  "it_begin lc with_root with_event =
     (if with_event then Some \<lparr>it_event = Some lc, it_thread = None\<rparr>
      else if cone lc \<noteq> [] then Some (it_threads (rev (cone lc)))
      else if it_root_flag lc with_root then it_to_root lc
      else Some it_end)"

definition it_next :: "'d event \<Rightarrow> bool \<Rightarrow> 'd ev_iter \<Rightarrow> 'd ev_iter option" where
  "it_next lc with_root it =
     (case it_event it of None \<Rightarrow> Some it
      | Some ev \<Rightarrow>
          if cone lc = [] \<or> it_thread it = Some [] then
            (if ev = lc \<and> with_root then it_to_root lc else Some it_end)
          else if ev = lc then Some (it_threads (rev (cone lc)))
          else case thread_predecessor ev of
              Some p \<Rightarrow> Some (it\<lparr>it_event := Some p\<rparr>)
            | None \<Rightarrow>
                (case it_thread it of
                   Some (_ # rest) \<Rightarrow>
                     if rest \<noteq> [] then Some (it_threads rest)
                     else if with_root then Some \<lparr>it_event = Some (hd (predecessors ev)), it_thread = Some []\<rparr>
                     else Some it_end
                 | _ \<Rightarrow> None))"

text \<open>Iterating to the end; running out of fuel is \<open>None\<close>.\<close>

fun it_collect :: "nat \<Rightarrow> 'd event \<Rightarrow> bool \<Rightarrow> 'd ev_iter \<Rightarrow> 'd event list option" where
  "it_collect n lc with_root it =
     (case it_event it of None \<Rightarrow> Some []
      | Some ev \<Rightarrow>
          (case n of 0 \<Rightarrow> None
           | Suc m \<Rightarrow> Option.bind (it_next lc with_root it) (\<lambda>it'.
               map_option (Cons ev) (it_collect m lc with_root it'))))"

declare it_collect.simps [simp del]

definition event_range :: "nat \<Rightarrow> 'd event \<Rightarrow> bool \<Rightarrow> bool \<Rightarrow> 'd event list option" where
  "event_range n lc with_root with_event =
     Option.bind (it_begin lc with_root with_event) (it_collect n lc (it_root_flag lc with_root))"

section \<open>Correctness of the enumeration\<close>

lemma it_collect_end [simp]: "it_collect n lc wr it_end = Some []"
  by (subst it_collect.simps) (simp add: it_end_def)

lemma it_collect_step:
  "it_event it = Some ev \<Longrightarrow> it_next lc wr it = Some it' \<Longrightarrow>
    it_collect (Suc n) lc wr it = map_option (Cons ev) (it_collect n lc wr it')"
  by (subst it_collect.simps) simp

text \<open>Walking down one thread.\<close>

lemma it_collect_chain:
  assumes "cone lc \<noteq> []" "lc \<notin> set (thread_chain ev)"
  shows "it_collect (length (thread_chain ev) + n) lc wr \<lparr>it_event = Some ev, it_thread = Some (x # rest)\<rparr>
    = map_option ((@) (thread_chain ev))
        (it_collect n lc wr
          (if rest \<noteq> [] then it_threads rest
           else if wr then \<lparr>it_event = Some (hd (predecessors (last (thread_chain ev)))), it_thread = Some []\<rparr>
           else it_end))"
  using assms(2)
proof (induction ev rule: thread_chain.induct)
  case (1 ev)
  have ne: "ev \<noteq> lc" using "1.prems" by auto
  show ?case
  proof (cases "thread_predecessor ev")
    case None
    moreover have "(@) [ev] = (#) ev" by (rule ext) simp
    ultimately show ?thesis
      using ne assms(1) by (subst (1 2 3) thread_chain_unfold) (auto simp: it_collect_step it_next_def)
  next
    case (Some p)
    have notin: "lc \<notin> set (thread_chain p)" using "1.prems" Some thread_chain_mem [of lc ev] by blast
    have "it_next lc wr \<lparr>it_event = Some ev, it_thread = Some (x # rest)\<rparr>
        = Some \<lparr>it_event = Some p, it_thread = Some (x # rest)\<rparr>"
      using ne assms(1) Some by (simp add: it_next_def)
    moreover have "thread_chain ev = ev # thread_chain p" "last (thread_chain ev) = last (thread_chain p)"
      using Some thread_chain_unfold [of ev] thread_chain_unfold [of p] by auto
    ultimately show ?thesis
      using "1.IH" [OF Some notin] by (simp add: it_collect_step option.map_comp comp_def)
  qed
qed

definition cone_chains :: "'d cone \<Rightarrow> 'd event list" where
  "cone_chains c = concat (map (\<lambda>(u, f). thread_chain f) c)"

lemma cone_chains_simps [simp]:
  "cone_chains [] = []" "cone_chains ((u, f) # c) = thread_chain f @ cone_chains c"
  by (simp_all add: cone_chains_def)

lemma it_collect_threads:
  assumes "cone lc \<noteq> []" "\<And>u f. (u, f) \<in> set c \<Longrightarrow> lc \<notin> set (thread_chain f)" "c \<noteq> []"
    and "r = hd (predecessors (last (thread_chain (snd (last c)))))" "r \<noteq> lc"
  shows "it_collect (length (cone_chains c) + (if wr then 1 else 0)) lc wr (it_threads c)
    = Some (cone_chains c @ (if wr then [r] else []))"
  using assms(2,3,4)
proof (induction c)
  case (Cons x rest)
  obtain u f where x: "x = (u, f)" by (cases x)
  let ?n = "length (cone_chains rest) + (if wr then 1 else 0)"
  have root: "it_collect 1 lc wr \<lparr>it_event = Some r, it_thread = Some []\<rparr> = Some [r]"
    using assms(5) by (subst it_collect.simps) (simp add: it_next_def)
  have "it_collect (length (thread_chain f) + ?n) lc wr (it_threads (x # rest))
      = map_option ((@) (thread_chain f)) (it_collect ?n lc wr
          (if rest \<noteq> [] then it_threads rest
           else if wr then \<lparr>it_event = Some (hd (predecessors (last (thread_chain f)))), it_thread = Some []\<rparr>
           else it_end))"
  proof -
    have "it_threads (x # rest) = \<lparr>it_event = Some f, it_thread = Some (x # rest)\<rparr>"
      by (simp add: it_threads_def x)
    moreover have "lc \<notin> set (thread_chain f)" using Cons.prems(1) [of u f] x by simp
    ultimately show ?thesis using it_collect_chain [OF assms(1), of f ?n wr x rest] by metis
  qed
  moreover have "rest \<noteq> [] \<Longrightarrow> it_collect ?n lc wr (it_threads rest) = Some (cone_chains rest @ (if wr then [r] else []))"
    by (rule Cons.IH) (use Cons.prems in auto)
  ultimately show ?case
    using root Cons.prems(3) by (cases "rest = []"; cases wr) (simp_all add: x add.assoc)
qed simp

text \<open>
  The thread with the smallest id in a cone is a start-up thread when every thread is created by
  a thread with a smaller id, which is how hierarchical ids are assigned.
\<close>

definition tids_hierarchical :: "'d event set \<Rightarrow> bool" where
  "tids_hierarchical C \<longleftrightarrow> (\<forall>e \<in> C. kind e = K_thread_init \<longrightarrow> (\<forall>p \<in> set (predecessors e). tid p < tid e))"

lemma last_thread_chain:
  "allocated addr e \<Longrightarrow> thread_predecessor (last (thread_chain e)) = None \<and> last (thread_chain e) \<in> set (thread_chain e)"
proof (induction e rule: thread_chain.induct)
  case (1 e)
  show ?case
  proof (cases "thread_predecessor e")
    case None
    then have "thread_chain e = [e]" using thread_chain_unfold [of e] by simp
    then show ?thesis using None by simp
  next
    case (Some p)
    then have "thread_chain e = e # thread_chain p" using thread_chain_unfold [of e] by simp
    moreover have "thread_chain p \<noteq> []" using thread_chain_self [of p] by force
    ultimately show ?thesis
      using "1.IH" [OF Some] allocated_thread_pred [OF "1.prems" Some] by simp
  qed
qed

lemma first_thread_root:
  assumes "is_configuration addr C" "e \<in> C" "tids_hierarchical C" "(u, f) \<in> set (cone e)"
    and "\<And>v g. (v, g) \<in> set (cone e) \<Longrightarrow> u \<le> v"
  shows "hd (predecessors (last (thread_chain f))) = program_init"
proof -
  note a = configuration_allocated [OF assms(1,2)]
  note fs = cone_soundD [OF allocated_cone_sound [OF a] assms(4)]
  have fa: "allocated addr f" using allocated_hb [OF fs(2) a] .
  let ?i = "last (thread_chain f)"
  have i: "thread_predecessor ?i = None" "?i \<in> set (thread_chain f)" using last_thread_chain [OF fa] by auto
  have ia: "allocated addr ?i" "tid ?i = u" using thread_chain_tid [OF i(2) fa] fs(1) by auto
  have "hb ?i e" using thread_chain_hb [OF i(2)] fs(2) hb_trans by metis
  have "?i \<noteq> program_init" using ia(2) fs(1,4) allocated_tid [OF fa] allocated_tid [OF ia(1)] allocated_root [OF fa] by metis
  then have ik: "kind ?i = K_thread_init"
    using allocated_no_thread_pred [OF ia(1)] i(1) allocated_root [OF ia(1)] by blast
  then obtain c where c: "predecessors ?i = [c]"
    by (cases "body ?i") (auto simp: kind_def predecessors_def)
  have "hb c e" using hb_pred [of c ?i] c \<open>hb ?i e\<close> hb_trans by (metis list.set_intros(1))
  have "c = program_init"
  proof (rule ccontr)
    assume "c \<noteq> program_init"
    from covers_hb [OF \<open>hb c e\<close> a this] obtain g where "(tid c, g) \<in> set (cone e)"
      by (auto simp: covers_def dest: map_of_SomeD)
    moreover have "tid c < u"
      using assms(3) configuration_hb [OF \<open>hb ?i e\<close> assms(1,2)] ik c ia(2) by (auto simp: tids_hierarchical_def)
    ultimately show False using assms(5) by fastforce
  qed
  then show ?thesis using c by simp
qed

lemma set_cone_chains: "set (cone_chains c) = down c"
  by (auto simp: cone_chains_def down_def)

lemma distinct_cone_chains:
  assumes "is_configuration addr C" "cone_in C c"
  shows "distinct (cone_chains c)"
  using assms(2)
proof (induction c)
  case (Cons x c)
  obtain u f where x: "x = (u, f)" by (cases x)
  have "cone_in C c" using Cons.prems by (auto simp: cone_in_def smap_ok_Cons)
  moreover have "set (thread_chain f) \<inter> down c = {}"
  proof -
    have "tid g \<noteq> u" if g: "g \<in> down c" for g
    proof -
      obtain v h where h: "(v, h) \<in> set c" "g \<in> set (thread_chain h)" using g by (auto simp: down_def)
      then have "tid g = v" using thread_chain_configuration [OF assms(1), of h g] Cons.prems by (auto simp: cone_in_def)
      then show ?thesis using h(1) Cons.prems x by (auto simp: cone_in_def smap_ok_Cons)
    qed
    moreover have "tid g = u" if "g \<in> set (thread_chain f)" for g
      using thread_chain_configuration [OF assms(1) _ that] Cons.prems x by (auto simp: cone_in_def)
    ultimately show ?thesis by blast
  qed
  ultimately show ?case
    using Cons.IH distinct_thread_chain [of f] set_cone_chains [of c] by (simp add: x)
qed simp

lemma smallest_thread:
  "smap_ok c \<Longrightarrow> c \<noteq> [] \<Longrightarrow> (v, g) \<in> set c \<Longrightarrow> fst (hd c) \<le> v"
  by (cases c) (auto simp: smap_ok_Cons less_imp_le)

lemma event_range_threads:
  assumes "is_configuration addr C" "e \<in> C" "tids_hierarchical C" "cone e \<noteq> []"
  shows "it_collect (length (cone_chains (rev (cone e))) + (if wr then 1 else 0)) e wr (it_threads (rev (cone e)))
    = Some (cone_chains (rev (cone e)) @ (if wr then [program_init] else []))"
proof -
  note a = configuration_allocated [OF assms(1,2)]
  have s: "cone_sound e" by (rule allocated_cone_sound [OF a])
  obtain u f where uf: "hd (cone e) = (u, f)" "(u, f) \<in> set (cone e)"
    using assms(4) by (metis hd_in_set prod.collapse)
  have "hd (predecessors (last (thread_chain f))) = program_init"
    using smallest_thread [of "cone e"] s assms(4) uf
    by (intro first_thread_root [OF assms(1-3) uf(2)]) (auto simp: cone_sound_def)
  moreover have "snd (last (rev (cone e))) = f" using uf(1) assms(4) by (simp add: last_rev)
  moreover have "e \<notin> set (thread_chain g)" if "(v, g) \<in> set (rev (cone e))" for v g
    using that cone_soundD(2) [OF s, of v g] thread_chain_hb [of e g] hb.irrefl hb.asym by auto
  moreover have "program_init \<noteq> e" using assms(4) by auto
  ultimately show ?thesis
    using assms(4) by (intro it_collect_threads) auto
qed

text \<open>The events of a cone and of its reversal on their threads.\<close>

lemma cone_chains_rev:
  assumes "is_configuration addr C" "e \<in> C"
  shows "set (cone_chains (rev (cone e))) = {g. hb g e \<and> g \<noteq> program_init}"
    and "distinct (cone_chains (rev (cone e)))"
proof -
  show "set (cone_chains (rev (cone e))) = {g. hb g e \<and> g \<noteq> program_init}"
    using down_cone [OF assms] by (simp add: set_cone_chains down_def)
  have d: "distinct (cone_chains (cone e))"
    by (rule distinct_cone_chains [OF assms(1) cone_in_configuration [OF assms]])
  then show "distinct (cone_chains (rev (cone e)))"
    by (simp add: cone_chains_def distinct_concat_iff rev_map [symmetric] removeAll_filter_not_eq rev_filter [symmetric])
qed

lemma empty_cone:
  assumes "allocated addr e" "cone e = []"
  shows "e = program_init \<or> kind e = K_thread_init \<and> predecessors e = [program_init]"
proof (cases "e = program_init")
  case False
  have all: "p = program_init" if "p \<in> set (predecessors e)" for p
    using covers_pred(1) [OF assms(1) that] assms(2) allocated_root [OF allocated_pred [OF assms(1) that]]
    by (auto simp: covers_def)
  have "predecessors e \<noteq> []" using root_hb [OF assms(1)] False hb_last [of program_init e] by auto
  then obtain p where p: "p \<in> set (predecessors e)" by (cases "predecessors e") auto
  then have k: "kind e = K_thread_init"
    using pred_not_root [OF assms(1) p] all [OF p] by auto
  then obtain c where "predecessors e = [c]" by (cases "body e") (auto simp: kind_def predecessors_def)
  then show ?thesis using k all by simp
qed simp

lemma event_range_ok:
  assumes "is_configuration addr C" "e \<in> C" "tids_hierarchical C"
  shows "\<exists>xs. event_range (length xs) e with_root with_event = Some xs \<and> distinct xs
    \<and> set xs = (if with_event then {e} else {}) \<union> {g. hb g e \<and> (with_root \<or> g \<noteq> program_init)}"
proof (cases "cone e = []")
  case True
  note ec = empty_cone [OF configuration_allocated [OF assms(1,2)] True]
  have below: "hb g e \<longleftrightarrow> e \<noteq> program_init \<and> g = program_init" for g
    using ec hb_last [of g e] by auto
  let ?xs = "(if with_event then [e] else []) @ (if with_root \<and> e \<noteq> program_init then [program_init] else [])"
  have "event_range (length ?xs) e with_root with_event = Some ?xs"
    using ec True
    by (auto simp: event_range_def it_begin_def it_root_flag_def it_to_root_def it_next_def it_end_def
        it_collect.simps [of 0] it_collect.simps [of "Suc _"])
  moreover have "distinct ?xs" by auto
  moreover have "set ?xs = (if with_event then {e} else {}) \<union> {g. hb g e \<and> (with_root \<or> g \<noteq> program_init)}"
    using below by auto
  ultimately show ?thesis by blast
next
  case False
  let ?L = "cone_chains (rev (cone e))" and ?wr = "it_root_flag e with_root"
  let ?ys = "?L @ (if ?wr then [program_init] else [])"
  have ne: "e \<noteq> program_init" using False by auto
  then have wr: "?wr = with_root"
    using allocated_root [OF configuration_allocated [OF assms(1,2)]] by (simp add: it_root_flag_def)
  have ys: "it_collect (length ?ys) e ?wr (it_threads (rev (cone e))) = Some ?ys"
    using event_range_threads [OF assms False, of ?wr] by (simp split: if_splits)
  have set_ys: "set ?ys = {g. hb g e \<and> (with_root \<or> g \<noteq> program_init)}" and d: "distinct ?ys" "e \<notin> set ?ys"
    using cone_chains_rev [OF assms(1,2)] root_hb [OF configuration_allocated [OF assms(1,2)]] ne wr hb.irrefl
    by (auto split: if_splits)
  show ?thesis
  proof (cases with_event)
    case True
    have "event_range (Suc (length ?ys)) e with_root with_event = Some (e # ?ys)"
      using True ys False by (simp add: event_range_def it_begin_def it_collect_step it_next_def)
    then show ?thesis using True set_ys d by (intro exI [of _ "e # ?ys"]) auto
  next
    case False
    then show ?thesis
      using ys set_ys d \<open>cone e \<noteq> []\<close> by (intro exI [of _ ?ys]) (auto simp: event_range_def it_begin_def)
  qed
qed

text \<open>
  C21. The iterator behind \<^verbatim>\<open>local_configuration()\<close> and \<^verbatim>\<open>causes()\<close> ends and visits, each
  exactly once, the events that causally precede the event (and the event itself, and the
  program-init event, as its flags ask), although it stores nothing but a position in the cone.
\<close>

theorem event_iterator_enumerates:
  assumes "is_configuration addr C" "e \<in> C" "tids_hierarchical C"
  shows "\<exists>xs. event_range (length xs) e with_root with_event = Some xs \<and> distinct xs
    \<and> set xs = (if with_event then {e} else {}) \<union> {g. hb g e \<and> (with_root \<or> g \<noteq> program_init)}"
  by (rule event_range_ok [OF assms])

section \<open>Extensions of a configuration\<close>

text \<open>
  \<^verbatim>\<open>event::is_extension_of\<close> on the thread heads of a configuration: a depth test of the cone
  against the heads, then a search for each immediate predecessor on its thread.
\<close>

definition is_extension_of :: "'d event \<Rightarrow> 'd cone \<Rightarrow> bool option" where
  "is_extension_of e C =
     (if list_ex (\<lambda>(u, p). case map_of C (tid p) of None \<Rightarrow> True | Some h \<Rightarrow> depth p > depth h) (cone e)
      then Some False
      else if list_all (\<lambda>p. case map_of C (tid p) of None \<Rightarrow> False | Some h \<Rightarrow> depth p \<le> depth h)
             (immediate_predecessors e)
      then Some (list_all (\<lambda>p. p \<in> set (thread_chain (the (map_of C (tid p))))) (immediate_predecessors e))
      else None)"

definition local_config :: "'d event \<Rightarrow> 'd event set" where
  "local_config e = {g. g = e \<or> hb g e}"

lemma maximal_pred_above:
  assumes "p \<in> set (predecessors e)"
  shows "\<exists>q \<in> maximal_preds e. p = q \<or> hb p q"
  using hb.above_maximal [OF assms] by (simp add: hb.maximal_in_def maximal_preds_def)

text \<open>
  \<^verbatim>\<open>is_extension_of\<close> answers whether all predecessors of an event are in the
  configuration, given the configuration's thread heads; its assertion holds for every event
  that is not the init event of a start-up thread.
\<close>

theorem is_extension_of_spec:
  assumes "is_configuration addr S" "cone_in S C" "S = insert program_init (down C)"
    and "is_configuration addr (local_config e)" "program_init \<notin> set (predecessors e)"
  shows "is_extension_of e C = Some (set (predecessors e) \<subseteq> S)"
proof -
  have eL: "e \<in> local_config e" by (simp add: local_config_def)
  note a = configuration_allocated [OF assms(4) eL]
  note imm = immediate_predecessors_general [OF assms(4) eL]
  have S_iff: "x \<in> S \<longleftrightarrow> (\<exists>h. map_of C (tid x) = Some h \<and> x \<in> set (thread_chain h))"
    if "x \<noteq> program_init" for x
  proof
    show "\<exists>h. map_of C (tid x) = Some h \<and> x \<in> set (thread_chain h)" if "x \<in> S"
      using down_other_thread [OF assms(1,2) that] \<open>x \<noteq> program_init\<close> that assms(3) by blast
    show "x \<in> S" if "\<exists>h. map_of C (tid x) = Some h \<and> x \<in> set (thread_chain h)"
      using that assms(3) by (force simp: down_def dest: map_of_SomeD)
  qed
  have head_depth: "depth x \<le> depth h" if "map_of C (tid x) = Some h" "x \<in> set (thread_chain h)" for x h
    using thread_chain_depth [OF that(2)] cone_inD [OF assms(2) that(1)] configuration_allocated [OF assms(1)] by force
  let ?gap = "list_ex (\<lambda>(u, p). case map_of C (tid p) of None \<Rightarrow> True | Some h \<Rightarrow> depth p > depth h) (cone e)"
  show ?thesis
  proof (cases ?gap)
    case True
    then obtain u p where p: "(u, p) \<in> set (cone e)" "\<forall>h. map_of C (tid p) = Some h \<longrightarrow> depth p > depth h"
      by (auto simp: list_ex_iff split: option.splits)
    note ps = cone_soundD [OF allocated_cone_sound [OF a] p(1)]
    have "p \<noteq> program_init" using ps(4) by auto
    then have "p \<notin> S" using S_iff [of p] head_depth [of p] p(2) by fastforce
    then have "\<not> set (predecessors e) \<subseteq> S"
      using ps(2) hb_last [of p e] configuration_hb [OF _ assms(1)] by blast
    then show ?thesis using True by (simp add: is_extension_of_def)
  next
    case False
    have head: "\<exists>h. map_of C (tid p) = Some h \<and> depth p \<le> depth h" if "p \<in> set (immediate_predecessors e)" for p
    proof -
      have pe: "p \<in> set (predecessors e)" "p \<noteq> program_init" using that imm assms(5) by auto
      then have "kind p \<noteq> K_program_init" using allocated_root [OF allocated_pred [OF a pe(1)]] by blast
      then obtain f where f: "map_of (cone e) (tid p) = Some f" "depth p \<le> depth f"
        using covers_pred(1) [OF a pe(1)] by (auto simp: covers_def)
      then have "tid f = tid p" using cone_memD(1) [OF a f(1)] by simp
      then show ?thesis
        using False map_of_SomeD [OF f(1)] f(2) by (force simp: list_ex_iff split: option.splits)
    qed
    then have *: "list_all (\<lambda>p. case map_of C (tid p) of None \<Rightarrow> False | Some h \<Rightarrow> depth p \<le> depth h)
        (immediate_predecessors e)" by (force simp: list_all_iff)
    have mem: "p \<in> set (thread_chain (the (map_of C (tid p)))) \<longleftrightarrow> p \<in> S" if p: "p \<in> set (immediate_predecessors e)" for p
    proof -
      obtain h where h: "map_of C (tid p) = Some h" using head [OF p] by blast
      have "p \<noteq> program_init" using p imm assms(5) by auto
      from S_iff [OF this] h show ?thesis by simp
    qed
    have "list_all (\<lambda>p. p \<in> set (thread_chain (the (map_of C (tid p))))) (immediate_predecessors e)
        \<longleftrightarrow> set (immediate_predecessors e) \<subseteq> S"
      using mem by (auto simp: list_all_iff)
    also have "\<dots> \<longleftrightarrow> set (predecessors e) \<subseteq> S"
    proof
      assume sub: "set (immediate_predecessors e) \<subseteq> S"
      show "set (predecessors e) \<subseteq> S"
      proof
        fix p assume "p \<in> set (predecessors e)"
        then obtain q where q: "q \<in> maximal_preds e" "p = q \<or> hb p q" using maximal_pred_above by blast
        then have "q \<in> S" using imm sub by blast
        then show "p \<in> S" using q(2) configuration_hb [OF _ assms(1)] by blast
      qed
    qed (use imm in blast)
    finally show ?thesis using False * by (simp add: is_extension_of_def)
  qed
qed

lemma ex_hierarchical: "tids_hierarchical ex_set"
  by (simp add: tids_hierarchical_def ex_set_def ex_defs program_init_def kind_def predecessors_def
      tid_none_def less_thread_id_def tid_lt_def)

theorem event_iterator_enumerates_witness:
  "\<exists>xs. event_range (length xs) ex_child True False = Some xs \<and> distinct xs \<and> set xs = {g. hb g ex_child}"
  using event_iterator_enumerates [OF ex_configuration [of "\<lambda>_. 0"] ex_mem(4) ex_hierarchical, of True False]
  by simp

text \<open>The child thread's first event extends the configuration made of its causes.\<close>

lemma ex_local_config: "local_config ex_child = ex_set"
proof -
  have "hb program_init ex_child"
    using hb_pred [of program_init ex_init] hb_pred [of ex_init ex_create] hb_pred [of ex_create ex_child]
    by (fastforce simp: ex_defs predecessors_def intro: hb.trans)
  then have "{g. hb g ex_child} = insert program_init (down (cone ex_child))"
    using down_cone [OF ex_configuration [of "\<lambda>_. 0"] ex_mem(4)] by blast
  then show ?thesis by (auto simp: local_config_def ex_down ex_set_def)
qed

lemma ex_causes_configuration: "is_configuration addr (insert program_init (down (cone ex_child)))"
  unfolding ex_down
  by (rule configuration_subset [OF ex_configuration])
     (auto simp: ex_set_def causally_closed_def predecessors_def ex_defs program_init_def)

theorem is_extension_of_spec_witness:
  "is_extension_of ex_child (cone ex_child) = Some True"
proof -
  have c: "cone_in (insert program_init (down (cone ex_child))) (cone ex_child)"
    by (simp add: cone_in_def ex_down) (simp add: ex_defs smap_ok_def)
  have "program_init \<notin> set (predecessors ex_child)" by (simp add: ex_defs predecessors_def program_init_def)
  from is_extension_of_spec [OF ex_causes_configuration [of "\<lambda>_. 0"] c refl, of ex_child] this
  show ?thesis using ex_configuration [of "\<lambda>_. 0"] ex_local_config
    by (simp add: ex_down) (simp add: ex_defs predecessors_def)
qed

end
