(* ===== verification/Unfolding.thy ===== *)
theory Unfolding
  imports Independence Local_Config
    "HOL-Library.While_Combinator" "HOL-Library.Product_Lexorder" "HOL-Library.Multiset"
begin

text \<open>
  The unfolding of \<^verbatim>\<open>include/por/unfolding.h\<close> and \<^verbatim>\<open>lib/Por/unfolding.cpp\<close>: the container
  that owns all events, keyed by thread, depth and kind, with the mutable members of the event
  objects (successors, immediate conflicts, cutoff flag, id, \<^verbatim>\<open>_all_cex_known\<close>) as maps from events. This theory
  holds the state, the shallow comparison of events, storing and removing events and the
  propagation of the cutoff flag.

  Of an event's \<^verbatim>\<open>metadata\<close> the state has the id and, in \<open>u_metadata\<close>, whether the fingerprint
  and the delta differ from those of \<^verbatim>\<open>metadata{}\<close>. Their values come from the executor, and
  nothing in \<^verbatim>\<open>lib/Por\<close> reads them but that comparison.
\<close>

section \<open>Kinds as indices\<close>

primrec kind_index :: "event_kind \<Rightarrow> nat" where
  "kind_index K_local = 0"
| "kind_index K_program_init = 1"
| "kind_index K_thread_create = 2"
| "kind_index K_thread_join = 3"
| "kind_index K_thread_init = 4"
| "kind_index K_thread_exit = 5"
| "kind_index K_lock_create = 6"
| "kind_index K_lock_destroy = 7"
| "kind_index K_lock_acquire = 8"
| "kind_index K_lock_release = 9"
| "kind_index K_condition_variable_create = 10"
| "kind_index K_condition_variable_destroy = 11"
| "kind_index K_wait1 = 12"
| "kind_index K_wait2 = 13"
| "kind_index K_signal = 14"
| "kind_index K_broadcast = 15"

lemma kind_index_bound: "kind_index k < 16"
  by (cases k) simp_all

lemma kind_index_inject: "kind_index a = kind_index b \<longleftrightarrow> a = b"
  by (cases a; cases b) simp_all

text \<open>
  The keys of the container are compared lexicographically, kinds by their enumerator value,
  which is the declaration order and so agrees with \<open>kind_index\<close>.
\<close>

instantiation event_kind :: linorder
begin

definition less_eq_event_kind :: "event_kind \<Rightarrow> event_kind \<Rightarrow> bool" where
  "less_eq_event_kind a b \<longleftrightarrow> kind_index a \<le> kind_index b"

definition less_event_kind :: "event_kind \<Rightarrow> event_kind \<Rightarrow> bool" where
  "less_event_kind a b \<longleftrightarrow> kind_index a < kind_index b"

instance
  by standard (auto simp: less_eq_event_kind_def less_event_kind_def kind_index_inject)

end

section \<open>State\<close>

type_synonym unf_key = "thread_id \<times> nat \<times> event_kind"

definition event_key :: "'d event \<Rightarrow> unf_key" where
  "event_key e = (tid e, depth e, kind e)"

record 'd unf =
  u_events :: "(unf_key, 'd event list) smap"
  u_size :: nat
  u_successors :: "'d event \<Rightarrow> 'd event list"
  u_conflicts :: "'d event \<Rightarrow> 'd event list"
  u_cutoff :: "'d event \<Rightarrow> bool"
  u_id :: "'d event \<Rightarrow> nat"
  u_metadata :: "'d event \<Rightarrow> bool"
  u_cex_known :: "'d event \<Rightarrow> bool"
  u_events_created :: "nat list"
  u_unique_events :: "nat list"
  u_cutoff_events :: "nat list"
  u_events_deduplicated :: nat
  u_cex_created :: nat
  u_cex_inserted :: nat
  u_configurations :: nat

definition bucket :: "'d unf \<Rightarrow> unf_key \<Rightarrow> 'd event list" where
  "bucket s k = (case map_of (u_events s) k of None \<Rightarrow> [] | Some es \<Rightarrow> es)"

definition all_events :: "'d unf \<Rightarrow> 'd event list" where
  "all_events s = concat (map snd (u_events s))"

abbreviation unf_set :: "'d unf \<Rightarrow> 'd event set" where
  "unf_set s \<equiv> set (all_events s)"

section \<open>Statistics\<close>

definition stats_inc :: "event_kind \<Rightarrow> nat list \<Rightarrow> nat list" where
  "stats_inc k a = a[kind_index k := a ! kind_index k + 1]"

definition stats_inc_event_created :: "event_kind \<Rightarrow> 'd unf \<Rightarrow> 'd unf" where
  "stats_inc_event_created k s = s\<lparr>u_events_created := stats_inc k (u_events_created s)\<rparr>"

definition stats_inc_unique_event :: "event_kind \<Rightarrow> 'd unf \<Rightarrow> 'd unf" where
  "stats_inc_unique_event k s = s\<lparr>u_unique_events := stats_inc k (u_unique_events s)\<rparr>"

definition stats_inc_cutoff_event :: "event_kind \<Rightarrow> 'd unf \<Rightarrow> 'd unf" where
  "stats_inc_cutoff_event k s = s\<lparr>u_cutoff_events := stats_inc k (u_cutoff_events s)\<rparr>"

definition stats_inc_event_deduplicated :: "'d unf \<Rightarrow> 'd unf" where
  "stats_inc_event_deduplicated s = s\<lparr>u_events_deduplicated := u_events_deduplicated s + 1\<rparr>"

definition stats_inc_cex_created :: "nat \<Rightarrow> 'd unf \<Rightarrow> 'd unf" where
  "stats_inc_cex_created n s = s\<lparr>u_cex_created := u_cex_created s + n\<rparr>"

definition stats_inc_cex_inserted :: "'d unf \<Rightarrow> 'd unf" where
  "stats_inc_cex_inserted s = s\<lparr>u_cex_inserted := u_cex_inserted s + 1\<rparr>"

definition stats_inc_configuration :: "'d unf \<Rightarrow> 'd unf" where
  "stats_inc_configuration s = s\<lparr>u_configurations := u_configurations s + 1\<rparr>"

section \<open>Storing and removing\<close>

definition store_event :: "'d event \<Rightarrow> 'd unf \<Rightarrow> 'd unf" where
  "store_event e s =
     (let k = event_key e;
          s = s\<lparr>u_events := smap_put k (bucket s k @ [e]) (u_events s)\<rparr>;
          s = stats_inc_unique_event (kind e) s;
          s = s\<lparr>u_size := u_size s + 1\<rparr>
      in s\<lparr>u_id := (u_id s)(e := u_size s)\<rparr>)"

text \<open>
  The default constructor. \<^verbatim>\<open>_size\<close> has no initialiser, so the size starts from an arbitrary
  value \<open>n0\<close>; the members of an event that is not stored have their initial values.
\<close>

definition unfolding_new :: "nat \<Rightarrow> 'd unf" where
  "unfolding_new n0 =
     store_event program_init
       \<lparr>u_events = [], u_size = n0, u_successors = (\<lambda>_. []), u_conflicts = (\<lambda>_. []),
        u_cutoff = (\<lambda>_. False), u_id = (\<lambda>_. 0), u_metadata = (\<lambda>_. False), u_cex_known = (\<lambda>_. False),
        u_events_created = replicate 16 0, u_unique_events = replicate 16 0,
        u_cutoff_events = replicate 16 0, u_events_deduplicated = 0, u_cex_created = 0,
        u_cex_inserted = 0, u_configurations = 0\<rparr>"

text \<open>\<^verbatim>\<open>_is_cutoff\<close> as the base-class constructors set it.\<close>

definition constructed_cutoff :: "'d unf \<Rightarrow> 'd event \<Rightarrow> bool" where
  "constructed_cutoff s e =
     (case body e of
        Program_Init \<Rightarrow> False
      | Thread_Init c \<Rightarrow> u_cutoff s c
      | Local tp path \<Rightarrow> u_cutoff s tp
      | Thread_Create tp new \<Rightarrow> u_cutoff s tp
      | Thread_Exit tp atomic \<Rightarrow> u_cutoff s tp
      | Lock_Create l tp \<Rightarrow> u_cutoff s tp
      | Cond_Create c tp \<Rightarrow> u_cutoff s tp
      | _ \<Rightarrow> list_ex (u_cutoff s) (cone_events (cone e)))"

definition add_to_successors :: "'d event \<Rightarrow> 'd unf \<Rightarrow> 'd unf" where
  "add_to_successors e s =
     s\<lparr>u_successors := fold (\<lambda>p succ. succ(p := succ p @ [e])) (immediate_predecessors e) (u_successors s)\<rparr>"

text \<open>\<^verbatim>\<open>remove_from_successors_of\<close>: the removed entry is overwritten by the last one.\<close>

definition swap_pop :: "'a \<Rightarrow> 'a list \<Rightarrow> 'a list" where
  "swap_pop x xs = (case replace_first x (last xs) xs of None \<Rightarrow> xs | Some ys \<Rightarrow> butlast ys)"

definition remove_from_successors_of :: "'d event \<Rightarrow> 'd event \<Rightarrow> 'd unf \<Rightarrow> 'd unf" where
  "remove_from_successors_of e p s =
     s\<lparr>u_successors := (u_successors s)(p := swap_pop e (u_successors s p))\<rparr>"

text \<open>
  The destructors of the event classes, which leave the members at the values of a new object,
  and \<^verbatim>\<open>remove_event\<close>, which runs the destructor of the erased object.
\<close>

definition destructor_predecessors :: "'d event \<Rightarrow> 'd event list" where
  "destructor_predecessors e =
     (case body e of
        Program_Init \<Rightarrow> []
      | Thread_Init c \<Rightarrow> [c]
      | Local tp path \<Rightarrow> [tp]
      | Thread_Create tp new \<Rightarrow> [tp]
      | Thread_Exit tp atomic \<Rightarrow> [tp]
      | Lock_Create l tp \<Rightarrow> [tp]
      | Cond_Create c tp \<Rightarrow> [tp]
      | _ \<Rightarrow> cone_max (cone e))"

definition destroy_event :: "'d event \<Rightarrow> 'd unf \<Rightarrow> 'd unf option" where
  "destroy_event e s =
     (if u_successors s e \<noteq> [] then None
      else let s = fold (remove_from_successors_of e) (destructor_predecessors e) s in
        Some (s\<lparr>u_conflicts := (u_conflicts s)(e := []), u_cutoff := (u_cutoff s)(e := False),
                u_id := (u_id s)(e := 0), u_metadata := (u_metadata s)(e := False),
                u_cex_known := (u_cex_known s)(e := False)\<rparr>))"

definition remove_event :: "'d event \<Rightarrow> 'd unf \<Rightarrow> 'd unf option" where
  "remove_event e s =
     (case map_of (u_events s) (event_key e) of
        None \<Rightarrow> Some s
      | Some es \<Rightarrow>
          if e \<in> set es then
            destroy_event e
              (s\<lparr>u_conflicts := fold (\<lambda>ic cfl. cfl(ic := remove1 e (cfl ic))) (u_conflicts s e) (u_conflicts s),
                 u_size := u_size s - 1,
                 u_events := smap_put (event_key e) (removeAll e es) (u_events s)\<rparr>)
          else Some s)"

section \<open>Comparing events\<close>

text \<open>
  \<^verbatim>\<open>compare_events\<close>. The first test of the source is for the same object, which passes all the
  others; \<^verbatim>\<open>has_same_local_path\<close> compares the paths of local events.
\<close>

definition compare_events :: "'d event \<Rightarrow> 'd event \<Rightarrow> bool" where
  "compare_events a b =
     (if tid a \<noteq> tid b then False
      else if depth a \<noteq> depth b then False
      else if kind a \<noteq> kind b then False
      else if lid a \<noteq> lid b then False
      else if cid a \<noteq> cid b then False
      else if atomic_predecessor a \<noteq> atomic_predecessor b then False
      else if kind a = K_thread_create \<and> created_tid a \<noteq> created_tid b then False
      else if kind a = K_local \<and> local_path a \<noteq> local_path b then False
      else if length (predecessors a) \<noteq> length (predecessors b) then False
      else list_all2 (=) (predecessors a) (predecessors b))"

text \<open>
  A lock acquisition or destruction without lock predecessor: the event before it on its thread
  is not an operation on that lock. (Otherwise it would be the lock predecessor.)
\<close>

definition lock_pred_complete :: "'d event \<Rightarrow> bool" where
  "lock_pred_complete e \<longleftrightarrow>
     (kind e = K_lock_acquire \<or> kind e = K_lock_destroy) \<and> lock_predecessor e = None
       \<longrightarrow> pred_option (\<lambda>tp. lid tp \<noteq> lid e) (thread_predecessor e)"

text \<open>The cone that a constructor computes is a function of the stored members.\<close>

fun body_cone :: "('d event \<Rightarrow> nat) \<Rightarrow> ('d, 'd event) body \<Rightarrow> 'd cone" where
  "body_cone addr Program_Init = []"
| "body_cone addr (Thread_Init c) = cone_of_event c"
| "body_cone addr (Local tp path) = cone_of_event tp"
| "body_cone addr (Thread_Create tp new) = cone_of_event tp"
| "body_cone addr (Thread_Join tp j) = cone_of_events tp (Some j) []"
| "body_cone addr (Thread_Exit tp atomic) = cone_of_event tp"
| "body_cone addr (Lock_Create l tp) = cone_of_event tp"
| "body_cone addr (Lock_Destroy l tp lp) = cone_of_events tp lp []"
| "body_cone addr (Lock_Acquire l tp lp) = cone_of_events tp lp []"
| "body_cone addr (Lock_Release l tp lp atomic) = cone_of_events tp (Some lp) []"
| "body_cone addr (Cond_Create c tp) = cone_of_event tp"
| "body_cone addr (Cond_Destroy c tp cps) = cone_of_events tp None cps"
| "body_cone addr (Wait1 c l tp lp cps) = cone_of_events tp (Some lp) cps"
| "body_cone addr (Wait2 c l tp n lp) = cone_of_events tp (Some lp) [n]"
| "body_cone addr (Signal c tp cps) =
     (if signal_is_lost_of cps then cone_of_events tp None cps else cone_of_events tp (Some (hd cps)) [])"
| "body_cone addr (Broadcast c tp cps n) = cone_of_events tp None (sort_key addr cps)"

lemma event_single_cone: "event_single t p b = Some e \<Longrightarrow> cone e = cone_of_event p \<and> body e = b"
  by (auto simp: event_single_def Let_def)

lemma event_multi_cone: "event_multi t p s os b = Some e \<Longrightarrow> cone e = cone_of_events p s os \<and> body e = b"
  by (auto simp: event_multi_def Let_def split: if_split_asm)

lemmas alloc_defs = alloc_thread_init_def alloc_thread_create_def alloc_thread_join_def
  alloc_thread_exit_def alloc_local_def alloc_lock_create_def alloc_lock_destroy_def
  alloc_lock_acquire_def alloc_lock_release_def alloc_condition_variable_create_def
  alloc_condition_variable_destroy_def alloc_wait1_def alloc_wait2_def alloc_signal_def
  alloc_signal_lost_def

lemma mset_broadcast_group:
  "list_all (\<lambda>e. (kind e = K_condition_variable_create \<or> kind e = K_wait1
     \<or> kind e = K_signal \<or> kind e = K_broadcast) \<and> P e) xs \<Longrightarrow> mset (broadcast_group xs) = mset xs"
  by (induction xs) (auto simp: broadcast_group_def)

lemma sort_broadcast_group:
  assumes "alloc_broadcast addr t c tp cps = Some e" "inj_on addr (set (predecessors e))"
  shows "sort_key addr (broadcast_group (sort_key addr cps)) = sort_key addr cps"
proof -
  let ?g = "sort_key addr cps"
  note b = alloc_broadcast_Some [OF assms(1)]
  have m: "mset (broadcast_group ?g) = mset ?g" using b by (intro mset_broadcast_group [where P = "\<lambda>e. cid e = c"]) blast
  have "set (broadcast_group ?g) \<subseteq> set (predecessors e)" using b by (auto simp: predecessors_def)
  then have "inj_on addr (set (broadcast_group ?g))" using assms(2) inj_on_subset by blast
  then show ?thesis by (intro sort_key_inj_key_eq m) simp_all
qed

lemma allocated_body_cone:
  assumes "allocated addr e" "inj_on addr (set (predecessors e))"
  shows "cone e = body_cone addr (body e)"
  using assms(1)
proof (cases rule: allocated.cases)
  case (a_broadcast tp cps t c)
  then show ?thesis
    using sort_broadcast_group [OF a_broadcast(3) assms(2)] alloc_broadcast_Some [OF a_broadcast(3)]
    by (auto simp: alloc_broadcast_def Let_def dest!: event_multi_cone split: if_split_asm)
next
  case (a_lock_destroy tp lp t l)
  then show ?thesis by (auto simp: alloc_lock_destroy_def dest!: event_multi_cone split: if_split_asm)
next
  case (a_lock_acquire tp lp t l)
  then show ?thesis by (auto simp: alloc_lock_acquire_def dest!: event_multi_cone split: if_split_asm)
next
  case (a_signal tp w t c)
  then show ?thesis by (auto simp: alloc_signal_def dest!: event_multi_cone split: if_split_asm)
next
  case (a_signal_lost tp cps t c)
  then show ?thesis by (auto simp: alloc_signal_lost_def Let_def dest!: event_multi_cone split: if_split_asm)
qed (auto simp: alloc_defs Let_def program_init_def dest!: event_single_cone event_multi_cone split: if_split_asm)

text \<open>The fields that the comparison reads, with the optional lock predecessor told apart from the thread predecessor.\<close>

lemma opt_lock_predecessors_inject:
  assumes "opt_lock_predecessors tp lp = opt_lock_predecessors tp' lp'"
    and "lp = None \<longrightarrow> lid tp \<noteq> l" "lp' = None \<longrightarrow> lid tp' \<noteq> l"
    and "pred_option (\<lambda>p. lid p = l) lp" "pred_option (\<lambda>p. lid p = l) lp'"
  shows "tp = tp' \<and> lp = lp'"
  using assms by (cases lp; cases lp') (auto simp: opt_lock_predecessors_def split: if_split_asm)

lemma lock_release_predecessors_inject:
  "lock_release_predecessors tp lp = lock_release_predecessors tp' lp' \<Longrightarrow> tp = tp' \<and> lp = lp'"
  by (auto simp: lock_release_predecessors_def split: if_split_asm)

text \<open>What the constructors guarantee about bodies, as far as the comparison relies on it.\<close>

definition body_determined :: "'d event \<Rightarrow> bool" where
  "body_determined e \<longleftrightarrow>
     (case body e of
        Lock_Destroy l tp lp \<Rightarrow> (lp = None \<longrightarrow> lid tp \<noteq> l) \<and> pred_option (\<lambda>p. lid p = l) lp
      | Lock_Acquire l tp lp \<Rightarrow> (lp = None \<longrightarrow> lid tp \<noteq> l) \<and> pred_option (\<lambda>p. lid p = l) lp
      | Broadcast c tp cps n \<Rightarrow> n = length (filter (\<lambda>e. kind e = K_wait1) cps)
      | _ \<Rightarrow> True)"

lemma broadcast_group_wait1s:
  "length (filter (\<lambda>e. kind e = K_wait1) (broadcast_group xs)) = length (filter (\<lambda>e. kind e = K_wait1) xs)"
  by (auto simp: broadcast_group_def filter_empty_conv)

lemma pred_option_conjD: "pred_option (\<lambda>p. A p \<and> B p) x \<Longrightarrow> pred_option B x"
  by (cases x) auto

lemma allocated_body_determined:
  assumes "allocated addr e" "lock_pred_complete e"
  shows "body_determined e"
  using assms(1)
proof (cases rule: allocated.cases)
  case (a_lock_destroy tp lp t l)
  then show ?thesis using alloc_lock_destroy_Some [OF a_lock_destroy(3)] assms(2)
    by (auto simp: body_determined_def lock_pred_complete_def kind_def lid_def lock_predecessor_def
        thread_predecessor_def dest: pred_option_conjD)
next
  case (a_lock_acquire tp lp t l)
  then show ?thesis using alloc_lock_acquire_Some [OF a_lock_acquire(3)] assms(2)
    by (auto simp: body_determined_def lock_pred_complete_def kind_def lid_def lock_predecessor_def
        thread_predecessor_def dest: pred_option_conjD)
next
  case (a_broadcast tp cps t c)
  then show ?thesis using alloc_broadcast_Some [OF a_broadcast(3)]
    by (auto simp: body_determined_def broadcast_group_wait1s)
qed (auto dest!: alloc_Some simp: body_determined_def program_init_def)

lemma body_eqI:
  assumes "kind_of ba = kind_of bb" "lid_of ba = lid_of bb" "cid_of ba = cid_of bb"
    and "atomic_pred_of ba = atomic_pred_of bb" "preds_of ba = preds_of bb"
    and "kind_of ba = K_thread_create \<Longrightarrow> created_tid (Event t c d ba) = created_tid (Event t' c' d' bb)"
    and "kind_of ba = K_local \<Longrightarrow> local_path (Event t c d ba) = local_path (Event t' c' d' bb)"
    and "body_determined (Event t c d ba)" "body_determined (Event t' c' d' bb)"
  shows "ba = bb"
proof (cases ba)
  case (Lock_Destroy l tp lp)
  then obtain tp' lp' where "bb = Lock_Destroy l tp' lp'" using assms(1,2) by (cases bb) auto
  then show ?thesis using Lock_Destroy assms(5,8,9) opt_lock_predecessors_inject [of tp lp tp' lp' l]
    by (simp add: body_determined_def)
next
  case (Lock_Acquire l tp lp)
  then obtain tp' lp' where "bb = Lock_Acquire l tp' lp'" using assms(1,2) by (cases bb) auto
  then show ?thesis using Lock_Acquire assms(5,8,9) opt_lock_predecessors_inject [of tp lp tp' lp' l]
    by (simp add: body_determined_def)
next
  case (Lock_Release l tp lp atomic)
  then obtain tp' lp' atomic' where "bb = Lock_Release l tp' lp' atomic'" using assms(1,2) by (cases bb) auto
  then show ?thesis using Lock_Release assms(4,5) lock_release_predecessors_inject [of tp lp tp' lp']
    by (simp split: if_split_asm)
next
  case (Thread_Exit tp atomic)
  then obtain tp' atomic' where "bb = Thread_Exit tp' atomic'" using assms(1) by (cases bb) auto
  then show ?thesis using Thread_Exit assms(4,5) by (simp split: if_split_asm)
next
  case (Broadcast cv tp cps n)
  then obtain tp' cps' n' where "bb = Broadcast cv tp' cps' n'" using assms(1,3) by (cases bb) auto
  then show ?thesis using Broadcast assms(5,8,9) by (simp add: body_determined_def)
qed (use assms(1-3,5-7) in \<open>cases bb; simp; fail\<close>)+

lemma compare_events_body:
  assumes "compare_events a b" "body_determined a" "body_determined b"
  shows "tid a = tid b \<and> depth a = depth b \<and> body a = body b"
proof -
  obtain t c d ba where a: "a = Event t c d ba" by (cases a)
  obtain t' c' d' bb where b: "b = Event t' c' d' bb" by (cases b)
  have "ba = bb"
    by (rule body_eqI [of ba bb t c d t' c' d'])
       (use assms in \<open>simp_all add: a b compare_events_def kind_def lid_def cid_def
          atomic_predecessor_def predecessors_def list.rel_eq split: if_split_asm\<close>)
  then show ?thesis using assms(1) by (simp add: a b compare_events_def split: if_split_asm)
qed

lemma compare_events_refl: "compare_events e e"
  by (simp add: compare_events_def list.rel_eq)

lemma compare_events_exact:
  assumes "allocated addr a" "allocated addr b" "inj_on addr (set (predecessors a))"
    and "lock_pred_complete a" "lock_pred_complete b"
  shows "compare_events a b \<longleftrightarrow> a = b"
proof
  assume cmp: "compare_events a b"
  note eq = compare_events_body [OF cmp allocated_body_determined [OF assms(1,4)]
      allocated_body_determined [OF assms(2,5)]]
  then have "inj_on addr (set (predecessors b))" using assms(3) by (simp add: predecessors_def)
  then have "cone a = cone b"
    using eq allocated_body_cone [OF assms(1,3)] allocated_body_cone [OF assms(2)] by simp
  then show "a = b" using eq by (cases a; cases b) simp
qed (simp add: compare_events_refl)

text \<open>
  Two acquisitions or destructions that differ only in the lock predecessor: one has none, for the other it is the
  thread predecessor. The vector of predecessors holds that event once in both.
\<close>

fun twin_bodies :: "('d, 'e) body \<Rightarrow> ('d, 'e) body \<Rightarrow> bool" where
  "twin_bodies (Lock_Acquire l tp None) b \<longleftrightarrow> b = Lock_Acquire l tp (Some tp)"
| "twin_bodies (Lock_Destroy l tp None) b \<longleftrightarrow> b = Lock_Destroy l tp (Some tp)"
| "twin_bodies _ _ = False"

definition lock_twins :: "'d event \<Rightarrow> 'd event \<Rightarrow> bool" where
  "lock_twins a b \<longleftrightarrow> tid a = tid b \<and> depth a = depth b \<and> cone a = cone b
     \<and> (twin_bodies (body a) (body b) \<or> twin_bodies (body b) (body a))"

lemma opt_lock_predecessors_eq:
  "opt_lock_predecessors tp lp = opt_lock_predecessors tp' lp' \<longleftrightarrow>
     tp = tp' \<and> (lp = lp' \<or> lp = None \<and> lp' = Some tp \<or> lp = Some tp \<and> lp' = None)"
  by (cases lp; cases lp') (auto simp: opt_lock_predecessors_def)

lemma twin_bodies_preds:
  assumes "twin_bodies ba bb"
  shows "kind_of ba = kind_of bb" "lid_of ba = lid_of bb" "cid_of ba = cid_of bb" "preds_of ba = preds_of bb"
    "atomic_pred_of ba = atomic_pred_of bb" "kind_of ba \<noteq> K_thread_create" "kind_of ba \<noteq> K_local" "kind_of bb \<noteq> K_thread_create" "kind_of bb \<noteq> K_local"
  using assms by (auto simp: opt_lock_predecessors_def elim!: twin_bodies.elims)

lemma lock_twins_compare: "lock_twins a b \<Longrightarrow> compare_events a b"
  by (cases a; cases b) (auto simp: lock_twins_def compare_events_def kind_def lid_def cid_def atomic_predecessor_def predecessors_def
      list.rel_eq dest: twin_bodies_preds)

lemma cone_update_covered: "covers c t (depth e) \<Longrightarrow> cone_update t e c = c"
  by (auto simp: cone_update_def covers_def)

lemma cone_of_events_self:
  assumes "allocated addr p"
  shows "cone_of_events p (Some p) [] = cone_of_events p None []"
proof -
  let ?c = "smap_put (tid p) p (cone p)"
  have ok: "smap_ok (cone p)" using allocated_cone_sound [OF assms] by (simp add: cone_sound_def)
  have self: "covers ?c (tid p) (depth p)" by (rule covers_put_self [OF ok])
  have below: "covers ?c t (depth f)" if "(t, f) \<in> set (cone p)" for t f
  proof (rule covers_put [OF ok])
    show "depth g \<le> depth p" if "map_of (cone p) (tid p) = Some g" for g using cone_memD(3) [OF assms that] by simp
    show "covers (cone p) t (depth f)" using that map_of_is_SomeI [OF smap_ok_distinct [OF ok]] by (auto simp: covers_def)
  qed
  have "fold (\<lambda>(t, e). cone_update t e) xs ?c = ?c" if "set xs \<subseteq> set (cone p)" for xs
    using that below by (induction xs) (auto simp: cone_update_covered)
  then show ?thesis using cone_update_covered [OF self] by (auto simp: cone_of_events_def cone_insert_def)
qed

lemma compare_events_twins:
  assumes a: "allocated addr a" "allocated addr b" "inj_on addr (set (predecessors a))"
    and cmp: "compare_events a b" and k: "kind a = K_lock_acquire \<or> kind a = K_lock_destroy"
  shows "a = b \<or> lock_twins a b"
proof -
  have eq: "tid a = tid b" "depth a = depth b" "kind b = kind a" "lid b = lid a" "predecessors b = predecessors a"
    using cmp by (auto simp: compare_events_def list.rel_eq split: if_split_asm)
  have inj: "inj_on addr (set (predecessors b))" using a(3) eq(5) by simp
  obtain l tp lp lp' where b: "body a = Lock_Acquire l tp lp \<and> body b = Lock_Acquire l tp lp'
      \<or> body a = Lock_Destroy l tp lp \<and> body b = Lock_Destroy l tp lp'"
    and lp: "lp = lp' \<or> lp = None \<and> lp' = Some tp \<or> lp = Some tp \<and> lp' = None"
    using k eq(3-5) by (cases "body a"; cases "body b") (auto simp: kind_def lid_def predecessors_def opt_lock_predecessors_eq)
  have "tp \<in> set (predecessors a)" using b by (auto simp: predecessors_def opt_lock_predecessors_def split: option.splits)
  note self = cone_of_events_self [OF allocated_pred [OF a(1) this]]
  have "cone a = cone b"
    using allocated_body_cone [OF a(1,3)] allocated_body_cone [OF a(2) inj] b lp self by auto
  then show ?thesis using eq b lp by (cases a; cases b) (auto simp: lock_twins_def)
qed

text \<open>
  C16. The shallow comparison, which looks at ids, depth, kind and the pointers of the predecessors but not at the
  cones, tells constructed events apart: two events compare equal if and only if all their members agree, or
  they are two acquisitions or two destructions of one lock that agree in everything but this: one has no lock predecessor, for the other
  it is the thread predecessor.
\<close>

theorem compare_events_iff:
  assumes "allocated addr a" "allocated addr b" "inj_on addr (set (predecessors a))"
  shows "compare_events a b \<longleftrightarrow> a = b \<or> lock_twins a b"
proof (cases "kind a = K_lock_acquire \<or> kind a = K_lock_destroy")
  case True
  then show ?thesis using compare_events_twins [OF assms] lock_twins_compare compare_events_refl by blast
next
  case False
  have "lock_pred_complete a" "lock_pred_complete b" if "compare_events a b"
    using that False by (auto simp: compare_events_def lock_pred_complete_def split: if_split_asm)
  then show ?thesis using compare_events_exact [OF assms] lock_twins_compare compare_events_refl by blast
qed

text \<open>The main thread creates a lock and acquires it, with and without lock predecessor.\<close>

definition ex_mutex :: "nat event" where
  "ex_mutex = Event (Thread_Id [1]) [(Thread_Id [1], ex_init)] 2 (Lock_Create 1 ex_init)"

definition ex_hold :: "nat event option \<Rightarrow> nat event" where
  "ex_hold lp = Event (Thread_Id [1]) [(Thread_Id [1], ex_mutex)] 3 (Lock_Acquire 1 ex_mutex lp)"

lemma ex_hold_allocated: "allocated addr ex_mutex" "allocated addr (ex_hold None)" "allocated addr (ex_hold (Some ex_mutex))"
proof -
  have f: "tid ex_mutex = Thread_Id [1]" "depth ex_mutex = 2" "kind ex_mutex = K_lock_create" "lid ex_mutex = 1"
      "cone ex_mutex = [(Thread_Id [1], ex_init)]" "depth ex_init = 1"
    by (simp_all add: ex_mutex_def ex_init_def kind_def lid_def)
  have "alloc_lock_create (Thread_Id [1]) 1 ex_init = Some ex_mutex"
    by (simp add: alloc_lock_create_def event_single_def thread_pred_ok_def tid_empty_def cone_of_event_def ex_init_def ex_mutex_def kind_def)
  then show m: "allocated addr ex_mutex" by (rule a_lock_create [OF ex_allocated(1)])
  have "alloc_lock_acquire (Thread_Id [1]) 1 ex_mutex None = Some (ex_hold None)"
      "alloc_lock_acquire (Thread_Id [1]) 1 ex_mutex (Some ex_mutex) = Some (ex_hold (Some ex_mutex))"
    by (simp_all add: alloc_lock_acquire_def event_multi_def thread_pred_ok_def tid_empty_def cone_of_events_def cone_insert_def
        cone_update_def cone_max_depth_def cone_events_def Let_def f ex_hold_def)
  then show "allocated addr (ex_hold None)" "allocated addr (ex_hold (Some ex_mutex))"
    by - (rule a_lock_acquire [OF m], simp_all add: m)+
qed

theorem compare_events_iff_witness:
  "\<not> compare_events ex_create ex_child \<and> compare_events ex_child ex_child
    \<and> ex_hold None \<noteq> ex_hold (Some ex_mutex) \<and> compare_events (ex_hold None) (ex_hold (Some ex_mutex))"
proof -
  have i: "inj_on (\<lambda>_. 0) (set (predecessors ex_create))" "inj_on (\<lambda>_. 0) (set (predecessors ex_child))"
      "inj_on (\<lambda>_. 0) (set (predecessors (ex_hold None)))"
    by (simp_all add: ex_defs ex_hold_def predecessors_def opt_lock_predecessors_def)
  have "\<not> lock_twins ex_create ex_child" "lock_twins (ex_hold None) (ex_hold (Some ex_mutex))"
    by (simp_all add: lock_twins_def ex_defs ex_hold_def)
  then show ?thesis
    using compare_events_iff [OF ex_allocated(2,3) i(1)] compare_events_iff [OF ex_allocated(3,3) i(2)]
      compare_events_iff [OF ex_hold_allocated(2,3) i(3)]
    by (simp add: ex_distinct(2) [symmetric]) (simp add: ex_hold_def)
qed

section \<open>Stack loops\<close>

text \<open>
  A loop that pops the top of a stack and pushes finitely many elements that are smaller in some
  measure ends: the multiset of stacked elements decreases.
\<close>

lemma stack_while_Some:
  assumes "P s" and "\<And>s. b s \<Longrightarrow> W s \<noteq> []" and "\<And>s. P s \<Longrightarrow> b s \<Longrightarrow> P (c s)"
    and "\<And>s. P s \<Longrightarrow> b s \<Longrightarrow> \<exists>ys. W (c s) = ys @ tl (W s) \<and> (\<forall>y \<in> set ys. (f y :: nat) < f (hd (W s)))"
  shows "\<exists>t. while_option b c s = Some t"
proof (rule wf_rel_while_option_Some [where P = P and R = "inv_image (mult (measure f)) (\<lambda>s. mset (W s))"])
  show "wf (inv_image (mult (measure f)) (\<lambda>s. mset (W s)))" by (intro wf_inv_image wf_mult) simp
  fix s assume s: "P s \<and> b s"
  then obtain ys where ys: "W (c s) = ys @ tl (W s)" "\<forall>y \<in> set ys. f y < f (hd (W s))" using assms(4) by blast
  have "mset (W s) = mset (tl (W s)) + {#hd (W s)#}" using s assms(2) by (cases "W s") auto
  moreover have "(mset (tl (W s)) + mset ys, mset (tl (W s)) + {#hd (W s)#}) \<in> mult (measure f)"
    using ys(2) by (intro one_step_implies_mult) auto
  ultimately show "(c s, s) \<in> inv_image (mult (measure f)) (\<lambda>s. mset (W s))"
    using ys(1) by (simp add: add.commute)
qed (use assms in auto)

section \<open>Cutoff events\<close>

text \<open>
  \<^verbatim>\<open>mark_as_cutoff\<close>: the work list is a stack whose top is the head of the list, so the
  successors that are pushed one after the other arrive in reverse order.
\<close>

definition mark_step :: "'d unf \<Rightarrow> 'd event list \<times> ('d event \<Rightarrow> bool) \<times> nat \<Rightarrow> 'd event list \<times> ('d event \<Rightarrow> bool) \<times> nat" where
  "mark_step s st =
     (case st of (W, co, n) \<Rightarrow>
        let w = hd W; co = co(w := True) in
        (rev (filter (\<lambda>x. \<not> co x) (u_successors s w)) @ tl W, co, n + 1))"

definition mark_as_cutoff :: "'d event \<Rightarrow> 'd unf \<Rightarrow> ('d unf \<times> nat) option" where
  "mark_as_cutoff e s =
     (if u_cutoff s e then Some (s, 0)
      else case while_option (\<lambda>(W, co, n). W \<noteq> []) (mark_step s) ([e], u_cutoff s, 0) of
          None \<Rightarrow> None
        | Some (W, co, n) \<Rightarrow> Some (s\<lparr>u_cutoff := co\<rparr>, n))"

text \<open>The successor lists of an unfolding: exactly the events with this immediate predecessor.\<close>

definition successors_ok :: "'d unf \<Rightarrow> bool" where
  "successors_ok s \<longleftrightarrow> (\<forall>p. set (u_successors s p) = {e \<in> unf_set s. p \<in> set (immediate_predecessors e)})"

definition cutoff_closed :: "'d unf \<Rightarrow> bool" where
  "cutoff_closed s \<longleftrightarrow> (\<forall>e \<in> unf_set s. \<forall>p \<in> set (predecessors e). u_cutoff s p \<longrightarrow> u_cutoff s e)"

text \<open>Every event lies above its predecessors along immediate predecessors.\<close>

definition histories_ok :: "('d event \<Rightarrow> nat) \<Rightarrow> 'd unf \<Rightarrow> bool" where
  "histories_ok addr s \<longleftrightarrow> (\<forall>e \<in> unf_set s. is_configuration addr (local_config e) \<and> set (predecessors e) \<subseteq> unf_set s)"

lemma immediate_subset:
  "is_configuration addr (local_config e) \<Longrightarrow> maximal_preds e \<subseteq> set (immediate_predecessors e)
    \<and> set (immediate_predecessors e) \<subseteq> set (predecessors e)"
  using immediate_predecessors_general [of addr "local_config e" e] by (simp add: local_config_def)

lemma histories_hb: "hb g e \<Longrightarrow> histories_ok addr s \<Longrightarrow> e \<in> unf_set s \<Longrightarrow> g \<in> unf_set s"
  unfolding hb_def histories_ok_def by (induction rule: converse_tranclp_induct) auto

lemma cutoff_closed_hb:
  assumes "cutoff_closed s" "histories_ok addr s" "hb p e" "e \<in> unf_set s" "u_cutoff s p"
  shows "u_cutoff s e"
  using assms(3-5)
proof (induction "size e" arbitrary: e rule: less_induct)
  case less
  obtain q where q: "q \<in> set (predecessors e)" "p = q \<or> hb p q" using less.prems(1) hb_last [of p e] by blast
  then have "q \<in> unf_set s" using assms(2) less.prems(2) by (auto simp: histories_ok_def)
  then have "u_cutoff s q" using less.hyps [OF size_predecessor [OF q(1)]] q(2) less.prems(3) by blast
  then show ?case using assms(1) less.prems(2) q(1) by (auto simp: cutoff_closed_def)
qed

lemma succ_facts:
  assumes "successors_ok s" "histories_ok addr s" "x \<in> set (u_successors s w)"
  shows "x \<in> unf_set s" "hb w x"
  using assms immediate_subset [of addr x] hb_pred [of w x]
  by (auto simp: successors_ok_def histories_ok_def)

lemma mark_loop:
  fixes e :: "'d event"
  assumes "successors_ok s" "histories_ok addr s" "cutoff_closed s" "e \<in> unf_set s"
  shows "\<exists>co n. while_option (\<lambda>(W, co, n). W \<noteq> []) (mark_step s) ([e], u_cutoff s, 0) = Some ([], co, n)
    \<and> (\<forall>x. co x \<longleftrightarrow> u_cutoff s x \<or> (x \<in> unf_set s \<and> (x = e \<or> hb e x)))"
proof -
  let ?U = "unf_set s" and ?up = "\<lambda>x. x = e \<or> hb e x"
  define P :: "'d event list \<times> ('d event \<Rightarrow> bool) \<times> nat \<Rightarrow> bool" where
    "P = (\<lambda>(W, co, n). set W \<subseteq> {x \<in> ?U. ?up x} \<and> (\<forall>x. u_cutoff s x \<longrightarrow> co x) \<and> (co e \<or> e \<in> set W)
      \<and> (\<forall>x. co x \<longrightarrow> u_cutoff s x \<or> x \<in> ?U \<and> ?up x)
      \<and> (\<forall>w x. co w \<longrightarrow> x \<in> set (u_successors s w) \<longrightarrow> co x \<or> x \<in> set W))"
  have mono: "u_cutoff s x" if "u_cutoff s w" "x \<in> set (u_successors s w)" for w x
    using cutoff_closed_hb [OF assms(3,2)] succ_facts [OF assms(1,2) that(2)] that(1) by blast
  have init: "P ([e], u_cutoff s, 0)" using assms(4) mono by (auto simp: P_def)
  have step: "P (mark_step s st)" if st: "P st" "fst st \<noteq> []" for st
  proof -
    obtain w W co n where eq: "st = (w # W, co, n)" using st(2) by (cases st; cases "fst st") auto
    have new: "x \<in> ?U \<and> ?up x" if "x \<in> set (u_successors s w)" for x
      using succ_facts [OF assms(1,2) that] st(1) hb.trans by (auto simp: P_def eq)
    show ?thesis using st(1) new unfolding P_def eq mark_step_def Let_def by auto
  qed
  have dec: "\<exists>ys. fst (mark_step s st) = ys @ tl (fst st)
      \<and> (\<forall>y \<in> set ys. Max (size ` ?U) - size y < Max (size ` ?U) - size (hd (fst st)))"
    if st: "P st" "fst st \<noteq> []" for st
  proof -
    obtain w W co n where eq: "st = (w # W, co, n)" using st(2) by (cases st; cases "fst st") auto
    have "Max (size ` ?U) - size y < Max (size ` ?U) - size w" if "y \<in> set (u_successors s w)" for y
    proof -
      have "size w < size y" "size y \<le> Max (size ` ?U)"
        using succ_facts [OF assms(1,2) that] size_hb by auto
      then show ?thesis by simp
    qed
    then show ?thesis unfolding eq mark_step_def Let_def by auto
  qed
  have cond: "(\<lambda>(W, co, n). W \<noteq> []) = (\<lambda>st. fst st \<noteq> [])" by auto
  obtain t where t: "while_option (\<lambda>st. fst st \<noteq> []) (mark_step s) ([e], u_cutoff s, 0) = Some t"
    using stack_while_Some [where P = P and W = fst and c = "mark_step s" and b = "\<lambda>st. fst st \<noteq> []"
        and f = "\<lambda>y. Max (size ` ?U) - size y", OF init _ step dec] by blast
  have "P t" using while_option_rule [OF step t init] by blast
  moreover have "fst t = []" using while_option_stop [OF t] by simp
  ultimately obtain co n where fin: "t = ([], co, n)" "P ([], co, n)" by (cases t) auto
  have up: "co x" if "hb e x" "x \<in> ?U" for x
    using that
  proof (induction "size x" arbitrary: x rule: less_induct)
    case less
    obtain q where q: "q \<in> maximal_preds x" "e = q \<or> hb e q"
      using less.prems(1) hb_last [of e x] maximal_pred_above [of _ x] hb.trans by metis
    have i: "q \<in> set (immediate_predecessors x)" "q \<in> set (predecessors x)"
      using q(1) immediate_subset assms(2) less.prems(2) by (auto simp: histories_ok_def)
    have "q \<in> ?U" using assms(2) less.prems(2) i(2) by (auto simp: histories_ok_def)
    then have "co q" using q(2) less.hyps [OF size_predecessor [OF i(2)]] fin(2) by (auto simp: P_def)
    moreover have "x \<in> set (u_successors s q)" using assms(1) less.prems(2) i(1) by (simp add: successors_ok_def)
    ultimately show ?case using fin(2) by (auto simp: P_def)
  qed
  have "co x \<longleftrightarrow> u_cutoff s x \<or> (x \<in> ?U \<and> ?up x)" for x using fin(2) up by (auto simp: P_def)
  then show ?thesis using t unfolding cond fin(1) by blast
qed

lemma mark_as_cutoff_ok:
  assumes "successors_ok s" "histories_ok addr s" "cutoff_closed s" "e \<in> unf_set s"
  shows "\<exists>n. mark_as_cutoff e s = Some (s\<lparr>u_cutoff := \<lambda>x. u_cutoff s x \<or> (x \<in> unf_set s \<and> (x = e \<or> hb e x))\<rparr>, n)"
proof (cases "u_cutoff s e")
  case True
  then have "(\<lambda>x. u_cutoff s x \<or> (x \<in> unf_set s \<and> (x = e \<or> hb e x))) = u_cutoff s"
    using cutoff_closed_hb [OF assms(3,2)] by auto
  then show ?thesis using True by (simp add: mark_as_cutoff_def)
next
  case False
  obtain co n where "while_option (\<lambda>(W, co, n). W \<noteq> []) (mark_step s) ([e], u_cutoff s, 0) = Some ([], co, n)"
      "co = (\<lambda>x. u_cutoff s x \<or> (x \<in> unf_set s \<and> (x = e \<or> hb e x)))"
    using mark_loop [OF assms] by blast
  then show ?thesis using False by (simp add: mark_as_cutoff_def)
qed

end
