(* ===== verification/Conflicts.thy ===== *)
theory Conflicts
  imports Unfolding
begin

text \<open>
  \<^verbatim>\<open>event::compute_immediate_conflicts\<close> (\<^verbatim>\<open>lib/Por/event.cpp\<close>): colours the causes of a new
  event, explores the events that are neither causes nor in conflict with a cause, and collects
  those that are dependent on the new event. Both colours are fresh, so an event has one of them
  only if this call assigned it.
\<close>

section \<open>The three loops\<close>

datatype color = Red | Blue

type_synonym 'd coloring = "'d event \<Rightarrow> color option"

definition redden :: "'d unf \<Rightarrow> 'd event \<Rightarrow> 'd coloring \<times> 'd event list \<Rightarrow> 'd coloring \<times> 'd event list" where
  "redden s p st =
     (case st of (col, W) \<Rightarrow>
        if col p \<noteq> Some Red
        then (fold (\<lambda>c col. col(c \<mapsto> Blue)) (u_conflicts s p) (col(p \<mapsto> Red)), W @ [p])
        else (col, W))"

definition causes_step :: "'d unf \<Rightarrow> nat \<times> 'd coloring \<times> 'd event list \<Rightarrow> nat \<times> 'd coloring \<times> 'd event list" where
  "causes_step s st =
     (case st of (i, col, W) \<Rightarrow> (i + 1, fold (redden s) (predecessors (W ! i)) (col, W)))"

definition color_causes :: "'d unf \<Rightarrow> 'd event \<Rightarrow> ('d coloring \<times> 'd event list) option" where
  "color_causes s e =
     map_option snd
       (while_option (\<lambda>(i, col, W). i < length W) (causes_step s)
          (0, fold (redden s) (predecessors e) (\<lambda>_. None, [])))"

definition visit_successor ::
  "'d event \<Rightarrow> 'd event \<Rightarrow> 'd event list \<times> 'd coloring \<times> 'd event list
    \<Rightarrow> ('d event list \<times> 'd coloring \<times> 'd event list) option" where
  "visit_successor e x st =
     (case st of (W, col, result) \<Rightarrow>
        if x = e \<or> col x = Some Red \<or> col x = Some Blue then Some st
        else if list_ex (\<lambda>p. col p \<noteq> Some Red) (predecessors x) then Some st
        else case is_independent_of e x of
            None \<Rightarrow> None
          | Some True \<Rightarrow> Some (x # W, col(x \<mapsto> Red), result)
          | Some False \<Rightarrow> Some (W, col(x \<mapsto> Blue), result @ [x]))"

text \<open>The last loop uses \<^verbatim>\<open>W\<close> as a stack; its top is the head of the list.\<close>

definition explore_step ::
  "'d unf \<Rightarrow> 'd event \<Rightarrow> ('d event list \<times> 'd coloring \<times> 'd event list) option
    \<Rightarrow> ('d event list \<times> 'd coloring \<times> 'd event list) option" where
  "explore_step s e ost =
     (case ost of None \<Rightarrow> None
      | Some (W, col, result) \<Rightarrow> foldM (visit_successor e) (u_successors s (hd W)) (tl W, col, result))"

definition explore_running :: "('d event list \<times> 'd coloring \<times> 'd event list) option \<Rightarrow> bool" where
  "explore_running ost = (case ost of None \<Rightarrow> False | Some (W, col, result) \<Rightarrow> W \<noteq> [])"

definition compute_immediate_conflicts :: "'d unf \<Rightarrow> 'd event \<Rightarrow> 'd event list option" where
  "compute_immediate_conflicts s e =
     (case color_causes s e of None \<Rightarrow> None
      | Some (col, W) \<Rightarrow>
          (case while_option explore_running (explore_step s e) (Some (rev W, col, [])) of
             Some (Some (W', col', result)) \<Rightarrow> Some result
           | _ \<Rightarrow> None))"

section \<open>Colouring the causes\<close>

lemma finite_causes: "finite {g. hb g e}"
proof (induction "size e" arbitrary: e rule: less_induct)
  case less
  have "{g. hb g e} = (\<Union>p \<in> set (predecessors e). insert p {g. hb g p})" using hb_last [of _ e] by auto
  then show ?case using less size_predecessor [of _ e] by simp
qed

lemma fold_blue: "fold (\<lambda>c col. col(c \<mapsto> Blue)) cs col x = (if x \<in> set cs then Some Blue else col x)"
  by (induction cs arbitrary: col) auto

text \<open>
  The state of the first two loops, for an event whose causes are not in conflict: the red events
  are the collected ones, the blue ones are in conflict with a collected one.
\<close>

definition causes_inv :: "'d unf \<Rightarrow> 'd event \<Rightarrow> 'd coloring \<times> 'd event list \<Rightarrow> bool" where
  "causes_inv s e st \<longleftrightarrow>
     (case st of (col, W) \<Rightarrow>
        distinct W \<and> set W \<subseteq> {g. hb g e}
        \<and> (\<forall>x. col x = (if x \<in> set W then Some Red
             else if \<exists>p \<in> set W. x \<in> set (u_conflicts s p) then Some Blue else None)))"

definition causes_free :: "'d unf \<Rightarrow> 'd event \<Rightarrow> bool" where
  "causes_free s e \<longleftrightarrow> (\<forall>p q. hb p e \<longrightarrow> hb q e \<longrightarrow> q \<notin> set (u_conflicts s p))"

lemma redden_inv:
  assumes "causes_free s e" "causes_inv s e (col, W)" "hb p e"
  shows "causes_inv s e (redden s p (col, W)) \<and> set (snd (redden s p (col, W))) = insert p (set W)
    \<and> (\<exists>ys. snd (redden s p (col, W)) = W @ ys)"
proof (cases "col p = Some Red")
  case True
  then show ?thesis using assms(2) by (auto simp: redden_def causes_inv_def split: if_split_asm)
next
  case False
  then have p: "p \<notin> set W" using assms(2) by (auto simp: causes_inv_def)
  have "causes_inv s e (fold (\<lambda>c col. col(c \<mapsto> Blue)) (u_conflicts s p) (col(p \<mapsto> Red)), W @ [p])"
    using assms p unfolding causes_inv_def causes_free_def by (auto simp: fold_blue)
  then show ?thesis using False by (auto simp: redden_def)
qed

lemma fold_redden_inv:
  assumes "causes_free s e" "causes_inv s e (col, W)" "\<forall>p \<in> set ps. hb p e"
  shows "causes_inv s e (fold (redden s) ps (col, W)) \<and> set (snd (fold (redden s) ps (col, W))) = set ps \<union> set W
    \<and> (\<exists>ys. snd (fold (redden s) ps (col, W)) = W @ ys)"
  using assms(2,3)
proof (induction ps arbitrary: col W)
  case (Cons p ps)
  obtain col' W' where r: "redden s p (col, W) = (col', W')" by fastforce
  have step: "causes_inv s e (col', W')" "set W' = insert p (set W)" "\<exists>ys. W' = W @ ys"
    using redden_inv [OF assms(1) Cons.prems(1), of p] Cons.prems(2) by (simp_all add: r)
  then show ?case using Cons.IH [OF step(1)] Cons.prems(2) by (auto simp: r)
qed simp

lemma color_causes_ok:
  fixes e :: "'d event"
  assumes "causes_free s e"
  shows "\<exists>col W. color_causes s e = Some (col, W) \<and> causes_inv s e (col, W) \<and> set W = {g. hb g e}"
proof -
  let ?I = "{g. hb g e}"
  define P :: "nat \<times> 'd coloring \<times> 'd event list \<Rightarrow> bool" where
    "P = (\<lambda>(i, col, W). i \<le> length W \<and> causes_inv s e (col, W) \<and> set (predecessors e) \<subseteq> set W
        \<and> (\<forall>j < i. set (predecessors (W ! j)) \<subseteq> set W))"
  define go :: "nat \<times> 'd coloring \<times> 'd event list \<Rightarrow> bool" where "go = (\<lambda>(i, col, W). i < length W)"
  let ?s0 = "(0, fold (redden s) (predecessors e) (\<lambda>_. None, []))"
  have len: "length W \<le> card ?I" if "causes_inv s e (col, W)" for col W
    using that card_mono [OF finite_causes, of "set W" e] distinct_card [of W] by (simp add: causes_inv_def)
  have init: "P ?s0"
    using fold_redden_inv [OF assms, of "\<lambda>_. None" "[]" "predecessors e"] hb_pred [of _ e]
    by (auto simp: P_def causes_inv_def)
  have step: "P (causes_step s st) \<and> fst (causes_step s st) = fst st + 1" if st: "P st" "go st" for st
  proof -
    obtain i col W where eq: "st = (i, col, W)" by (cases st)
    have "W ! i \<in> set W" "set W \<subseteq> ?I" using st by (auto simp: P_def go_def eq causes_inv_def)
    then have "hb (W ! i) e" by blast
    then have hbs: "\<forall>p \<in> set (predecessors (W ! i)). hb p e" using hb_pred hb.trans by blast
    obtain col' W' where r: "fold (redden s) (predecessors (W ! i)) (col, W) = (col', W')" by fastforce
    have inv: "causes_inv s e (col', W')" "set W' = set (predecessors (W ! i)) \<union> set W" "\<exists>ys. W' = W @ ys"
      using fold_redden_inv [OF assms _ hbs, of col W] st(1) by (simp_all add: r P_def eq)
    have "set (predecessors (W' ! j)) \<subseteq> set W'" if j: "j < Suc i" for j
    proof -
      have "W' ! j = W ! j" using j st(2) inv(3) by (auto simp: go_def eq nth_append)
      moreover have "j = i \<or> set (predecessors (W ! j)) \<subseteq> set W" using j st(1) by (auto simp: P_def eq less_Suc_eq)
      ultimately show ?thesis using inv(2) by auto
    qed
    moreover have "Suc i \<le> length W'" using st(2) inv(3) by (auto simp: go_def eq)
    ultimately show ?thesis using st(1) inv(1,2) by (auto simp: P_def eq causes_step_def r)
  qed
  obtain t where t: "while_option go (causes_step s) ?s0 = Some t"
  proof (atomize_elim, rule measure_while_option_Some [where P = P and f = "\<lambda>st. card ?I - fst st"])
    fix st assume st: "P st" "go st"
    have "fst st < card ?I" using st len by (cases st) (fastforce simp: P_def go_def)
    then show "P (causes_step s st) \<and> card ?I - fst (causes_step s st) < card ?I - fst st"
      using step [OF st] by simp
  qed (rule init)
  have "P t" using while_option_rule [where P = P, OF _ t init] step by blast
  moreover have "\<not> go t" by (rule while_option_stop [OF t])
  moreover obtain i col W where teq: "t = (i, col, W)" by (cases t)
  ultimately have fin: "causes_inv s e (col, W)" "set (predecessors e) \<subseteq> set W"
      "\<forall>j < length W. set (predecessors (W ! j)) \<subseteq> set W"
    by (auto simp: P_def go_def)
  then have closed: "\<forall>p \<in> set W. set (predecessors p) \<subseteq> set W" by (metis in_set_conv_nth)
  have "g \<in> set W" if "hb g e" for g
    using that unfolding hb_def
  proof (induction rule: converse_tranclp_induct)
    case base then show ?case using fin(2) by auto
  qed (use closed in blast)
  then have "set W = ?I" using fin(1) by (auto simp: causes_inv_def)
  moreover have "color_causes s e = Some (col, W)" using t by (simp add: color_causes_def go_def teq)
  ultimately show ?thesis using fin(1) by blast
qed

section \<open>Exploring the concurrent events\<close>

text \<open>
  An event is in immediate conflict with \<open>e\<close> if the two are dependent, and everything below it is
  a cause of \<open>e\<close> or an event that is independent of \<open>e\<close>, with none of these in conflict with
  a cause of \<open>e\<close>.
\<close>

definition conflicts_with_causes :: "'d unf \<Rightarrow> 'd event \<Rightarrow> 'd event \<Rightarrow> bool" where
  "conflicts_with_causes s e x \<longleftrightarrow> (\<exists>p. hb p e \<and> x \<in> set (u_conflicts s p))"

definition explorable :: "'d unf \<Rightarrow> 'd event \<Rightarrow> 'd event \<Rightarrow> bool" where
  "explorable s e x \<longleftrightarrow> hb x e \<or> (x \<noteq> e \<and> \<not> conflicts_with_causes s e x \<and> is_independent_of e x = Some True)"

definition immediate_conflict :: "'d unf \<Rightarrow> 'd event \<Rightarrow> 'd event \<Rightarrow> bool" where
  "immediate_conflict s e d \<longleftrightarrow>
     d \<in> unf_set s \<and> d \<noteq> e \<and> \<not> hb d e \<and> \<not> conflicts_with_causes s e d
     \<and> is_independent_of e d = Some False \<and> (\<forall>g. hb g d \<longrightarrow> explorable s e g)"

definition explore_inv ::
  "'d unf \<Rightarrow> 'd event \<Rightarrow> 'd event list \<Rightarrow> 'd event list \<times> 'd coloring \<times> 'd event list \<Rightarrow> bool" where
  "explore_inv s e rest st \<longleftrightarrow>
     (case st of (W, col, result) \<Rightarrow>
        (\<forall>x. hb x e \<longrightarrow> col x = Some Red)
        \<and> (\<forall>x. col x = Some Red \<longrightarrow> x \<in> unf_set s \<and> explorable s e x \<and> (\<forall>g. hb g x \<longrightarrow> col g = Some Red))
        \<and> (\<forall>x. col x = Some Blue \<longleftrightarrow> conflicts_with_causes s e x \<or> x \<in> set result)
        \<and> (\<forall>x \<in> set result. immediate_conflict s e x) \<and> distinct result
        \<and> (\<forall>x \<in> set W. col x = Some Red)
        \<and> (\<forall>x \<in> unf_set s. x \<noteq> e \<longrightarrow> col x = None \<longrightarrow> (\<forall>p \<in> set (predecessors x). col p = Some Red)
             \<longrightarrow> set (immediate_predecessors x) \<inter> set W \<noteq> {} \<or> x \<in> set rest))"

definition explore_measure :: "'d unf \<Rightarrow> 'd event list \<times> 'd coloring \<times> 'd event list \<Rightarrow> nat" where
  "explore_measure s st = (case st of (W, col, result) \<Rightarrow> card {x \<in> unf_set s. col x \<noteq> Some Red} + length W)"

lemma not_red_card:
  "x \<in> unf_set s \<Longrightarrow> col x \<noteq> Some Red
    \<Longrightarrow> Suc (card {y \<in> unf_set s. (col(x \<mapsto> Red)) y \<noteq> Some Red}) = card {y \<in> unf_set s. col y \<noteq> Some Red}"
proof -
  assume x: "x \<in> unf_set s" "col x \<noteq> Some Red"
  then have "{y \<in> unf_set s. (col(x \<mapsto> Red)) y \<noteq> Some Red} = {y \<in> unf_set s. col y \<noteq> Some Red} - {x}" by auto
  then show ?thesis using x card_Suc_Diff1 [of "{y \<in> unf_set s. col y \<noteq> Some Red}" x] by simp
qed

lemma visit_independent:
  assumes hist: "histories_ok addr s" and inv: "explore_inv s e (x # rest) (W, col, result)"
    and x: "x \<in> unf_set s" "x \<noteq> e" "col x = None" "\<forall>p \<in> set (predecessors x). col p = Some Red"
      "is_independent_of e x = Some True"
  shows "explore_inv s e rest (x # W, col(x \<mapsto> Red), result)"
proof -
  have red: "\<And>y. col y = Some Red \<Longrightarrow> y \<in> unf_set s \<and> explorable s e y \<and> (\<forall>g. hb g y \<longrightarrow> col g = Some Red)"
    and blue: "\<And>y. col y = Some Blue \<longleftrightarrow> conflicts_with_causes s e y \<or> y \<in> set result"
    and todo: "\<And>y. y \<in> unf_set s \<Longrightarrow> y \<noteq> e \<Longrightarrow> col y = None \<Longrightarrow> \<forall>p \<in> set (predecessors y). col p = Some Red
        \<Longrightarrow> set (immediate_predecessors y) \<inter> set W \<noteq> {} \<or> y \<in> set (x # rest)"
    using inv unfolding explore_inv_def by blast+
  have below: "col g = Some Red" if "hb g x" for g using that hb_last [of g x] x(4) red by blast
  have expl: "explorable s e x" using x(2,3,5) blue [of x] by (simp add: explorable_def)
  have todo': "set (immediate_predecessors y) \<inter> set (x # W) \<noteq> {} \<or> y \<in> set rest"
    if y: "y \<in> unf_set s" "y \<noteq> e" "(col(x \<mapsto> Red)) y = None" "\<forall>p \<in> set (predecessors y). (col(x \<mapsto> Red)) p = Some Red" for y
  proof (cases "x \<in> set (predecessors y)")
    case True
    obtain q where q: "q \<in> maximal_preds y" "x = q \<or> hb x q" using maximal_pred_above [OF True] by blast
    have "\<not> hb x q"
    proof
      assume "hb x q"
      moreover have "q \<in> set (predecessors y)" using q(1) by (simp add: maximal_preds_def)
      ultimately have "col q = Some Red" using y(4) hb.irrefl [of x] by (metis fun_upd_apply)
      then show False using red \<open>hb x q\<close> x(3) by fastforce
    qed
    then have "x \<in> set (immediate_predecessors y)"
      using q immediate_subset [of addr y] hist y(1) by (auto simp: histories_ok_def)
    then show ?thesis by auto
  next
    case False
    then have "\<forall>p \<in> set (predecessors y). col p = Some Red" using y(4) by (metis fun_upd_apply)
    moreover have "y \<noteq> x" "col y = None" using y(3) by (auto split: if_split_asm)
    ultimately show ?thesis using todo [OF y(1,2)] by auto
  qed
  have blue': "(col(x \<mapsto> Red)) y = Some Blue \<longleftrightarrow> conflicts_with_causes s e y \<or> y \<in> set result" for y
    using blue [of y] blue [of x] x(3) by auto
  have red': "y \<in> unf_set s \<and> explorable s e y \<and> (\<forall>g. hb g y \<longrightarrow> (col(x \<mapsto> Red)) g = Some Red)"
    if "(col(x \<mapsto> Red)) y = Some Red" for y
    using that red [of y] below expl x(1) by (auto split: if_split_asm)
  have rest: "\<forall>y. hb y e \<longrightarrow> (col(x \<mapsto> Red)) y = Some Red" "\<forall>z \<in> set result. immediate_conflict s e z"
      "distinct result" "\<forall>y \<in> set (x # W). (col(x \<mapsto> Red)) y = Some Red"
    using inv by (auto simp: explore_inv_def)
  show ?thesis unfolding explore_inv_def prod.case using rest red' blue' todo' by blast
qed

lemma visit_dependent:
  assumes inv: "explore_inv s e (x # rest) (W, col, result)"
    and x: "x \<in> unf_set s" "x \<noteq> e" "col x = None" "\<forall>p \<in> set (predecessors x). col p = Some Red"
      "is_independent_of e x = Some False"
  shows "explore_inv s e rest (W, col(x \<mapsto> Blue), result @ [x])"
proof -
  have red: "\<And>y. col y = Some Red \<Longrightarrow> y \<in> unf_set s \<and> explorable s e y \<and> (\<forall>g. hb g y \<longrightarrow> col g = Some Red)"
    and blue: "\<And>y. col y = Some Blue \<longleftrightarrow> conflicts_with_causes s e y \<or> y \<in> set result"
    and causes: "\<And>y. hb y e \<Longrightarrow> col y = Some Red"
    using inv unfolding explore_inv_def by blast+
  have "explorable s e g" if "hb g x" for g using that hb_last [of g x] x(4) red by blast
  then have "immediate_conflict s e x"
    using x blue [of x] causes [of x] by (auto simp: immediate_conflict_def)
  moreover have "x \<notin> set result" using blue [of x] x(3) by auto
  moreover have "(col(x \<mapsto> Blue)) y = Some Red \<longleftrightarrow> col y = Some Red" for y using x(3) by auto
  ultimately show ?thesis using inv x(3) unfolding explore_inv_def by auto
qed

lemma visit_successor_ok:
  assumes "histories_ok addr s" "explore_inv s e (x # rest) st" "x \<in> unf_set s" "is_independent_of e x \<noteq> None"
  shows "\<exists>st'. visit_successor e x st = Some st' \<and> explore_inv s e rest st' \<and> explore_measure s st' = explore_measure s st"
proof -
  obtain W col result where st: "st = (W, col, result)" by (cases st)
  consider (skip) "x = e \<or> col x \<noteq> None \<or> \<not> (\<forall>p \<in> set (predecessors x). col p = Some Red)"
    | (indep) "x \<noteq> e" "col x = None" "\<forall>p \<in> set (predecessors x). col p = Some Red" "is_independent_of e x = Some True"
    | (dep) "x \<noteq> e" "col x = None" "\<forall>p \<in> set (predecessors x). col p = Some Red" "is_independent_of e x = Some False"
    using assms(4) by fastforce
  then show ?thesis
  proof cases
    case skip
    then have "visit_successor e x st = Some st"
      by (cases "col x"; cases "the (col x)") (auto simp: visit_successor_def st list_ex_iff)
    moreover have "explore_inv s e rest st" using skip assms(2) unfolding explore_inv_def st by auto
    ultimately show ?thesis by blast
  next
    case indep
    then have "visit_successor e x st = Some (x # W, col(x \<mapsto> Red), result)"
      by (auto simp: visit_successor_def st list_ex_iff)
    moreover have "explore_measure s (x # W, col(x \<mapsto> Red), result) = explore_measure s st"
      using not_red_card [OF assms(3), of col] indep(2) by (simp add: explore_measure_def st)
    ultimately show ?thesis
      using visit_independent [OF assms(1) assms(2) [unfolded st] assms(3) indep] by blast
  next
    case dep
    then have "visit_successor e x st = Some (W, col(x \<mapsto> Blue), result @ [x])"
      by (auto simp: visit_successor_def st list_ex_iff)
    moreover have "explore_measure s (W, col(x \<mapsto> Blue), result @ [x]) = explore_measure s st"
      using dep(2) by (auto simp: explore_measure_def st intro!: arg_cong [where f = card])
    ultimately show ?thesis using visit_dependent [OF assms(2) [unfolded st] assms(3) dep] by blast
  qed
qed

lemma visit_all_ok:
  assumes "histories_ok addr s" "\<forall>x \<in> set xs. x \<in> unf_set s \<and> is_independent_of e x \<noteq> None" "explore_inv s e xs st"
  shows "\<exists>st'. foldM (visit_successor e) xs st = Some st' \<and> explore_inv s e [] st' \<and> explore_measure s st' = explore_measure s st"
  using assms(2,3)
proof (induction xs arbitrary: st)
  case (Cons x xs)
  obtain st' where st': "visit_successor e x st = Some st'" "explore_inv s e xs st'" "explore_measure s st' = explore_measure s st"
    using visit_successor_ok [OF assms(1) Cons.prems(2)] Cons.prems(1) by auto
  then show ?case using Cons.IH [OF _ st'(2)] Cons.prems(1) by simp
qed simp

lemma explore_step_ok:
  assumes "histories_ok addr s" "successors_ok s" "\<forall>x \<in> unf_set s. is_independent_of e x \<noteq> None"
    and "explore_inv s e [] (W, col, result)" "W \<noteq> []"
  shows "\<exists>st'. explore_step s e (Some (W, col, result)) = Some st' \<and> explore_inv s e [] st'
    \<and> explore_measure s st' < explore_measure s (W, col, result)"
proof -
  obtain w W' where W: "W = w # W'" using assms(5) by (cases W) auto
  have succ: "set (u_successors s w) = {x \<in> unf_set s. w \<in> set (immediate_predecessors x)}"
    using assms(2) by (simp add: successors_ok_def)
  have "explore_inv s e (u_successors s w) (W', col, result)"
    using assms(4) unfolding explore_inv_def W by (auto simp: succ)
  then obtain st' where "foldM (visit_successor e) (u_successors s w) (W', col, result) = Some st'"
      "explore_inv s e [] st'" "explore_measure s st' = explore_measure s (W', col, result)"
    using visit_all_ok [OF assms(1), of "u_successors s w" e] assms(3) succ by blast
  then show ?thesis by (auto simp: explore_step_def W explore_measure_def)
qed

lemma explore_loop:
  fixes e :: "'d event"
  assumes "histories_ok addr s" "successors_ok s" "\<forall>x \<in> unf_set s. is_independent_of e x \<noteq> None"
    and "explore_inv s e [] st"
  shows "\<exists>col result. while_option explore_running (explore_step s e) (Some st) = Some (Some ([], col, result))
    \<and> explore_inv s e [] ([], col, result)"
proof -
  define P :: "('d event list \<times> 'd coloring \<times> 'd event list) option \<Rightarrow> bool" where
    "P = (\<lambda>ost. \<exists>st. ost = Some st \<and> explore_inv s e [] st)"
  have step: "P (explore_step s e ost) \<and> explore_measure s (the (explore_step s e ost)) < explore_measure s (the ost)"
    if "P ost" "explore_running ost" for ost
  proof -
    obtain W col result where o: "ost = Some (W, col, result)" "explore_inv s e [] (W, col, result)" "W \<noteq> []"
      using \<open>P ost\<close> \<open>explore_running ost\<close> by (auto simp: P_def explore_running_def)
    show ?thesis using explore_step_ok [OF assms(1-3) o(2,3)] by (auto simp: o(1) P_def)
  qed
  have init: "P (Some st)" unfolding P_def using assms(4) by blast
  obtain t where t: "while_option explore_running (explore_step s e) (Some st) = Some t"
    using measure_while_option_Some [where P = P and f = "\<lambda>ost. explore_measure s (the ost)", OF step init] by blast
  have "P t" using while_option_rule [where P = P, OF _ t init] step by blast
  moreover have "\<not> explore_running t" by (rule while_option_stop [OF t])
  ultimately show ?thesis using t by (auto simp: P_def explore_running_def)
qed

lemma explored_all:
  assumes "histories_ok addr s" "explore_inv s e [] ([], col, result)" "program_init \<noteq> e"
    and "immediate_conflict s e d"
  shows "d \<in> set result"
proof -
  note inv = assms(2) [unfolded explore_inv_def prod.case]
  have todo: "col y \<noteq> None" if "y \<in> unf_set s" "y \<noteq> e" "\<forall>p \<in> set (predecessors y). col p = Some Red" for y
  proof
    assume "col y = None"
    with inv that have "set (immediate_predecessors y) \<inter> set [] \<noteq> {} \<or> y \<in> set []" by blast
    then show False by simp
  qed
  have causes: "\<And>y. hb y e \<Longrightarrow> col y = Some Red"
    and red: "\<And>y. col y = Some Red \<Longrightarrow> explorable s e y"
    and res: "\<And>y. y \<in> set result \<Longrightarrow> immediate_conflict s e y"
    using inv by blast+
  have blue: "\<And>y. col y = Some Blue \<longleftrightarrow> conflicts_with_causes s e y \<or> y \<in> set result" using inv by simp
  have d: "d \<in> unf_set s" "\<And>g. hb g d \<Longrightarrow> explorable s e g" "d \<noteq> e" "\<not> conflicts_with_causes s e d"
      "\<not> explorable s e d"
    using assms(4) by (auto simp: immediate_conflict_def explorable_def)
  have below: "col g = Some Red" if "hb g d" for g
    using that
  proof (induction "size g" arbitrary: g rule: less_induct)
    case less
    show ?case
    proof (cases "hb g e")
      case False
      then have g: "g \<noteq> e" "\<not> conflicts_with_causes s e g" "is_independent_of e g = Some True"
        using d(2) [OF less.prems] by (auto simp: explorable_def)
      have "\<forall>p \<in> set (predecessors g). col p = Some Red"
        using less size_predecessor hb_pred hb.trans by blast
      then have "col g \<noteq> None" using todo [OF histories_hb [OF less.prems assms(1) d(1)] g(1)] by blast
      moreover have "col g \<noteq> Some Blue" using blue [of g] g(2,3) res [of g] by (auto simp: immediate_conflict_def)
      ultimately show ?thesis by (metis color.exhaust option.exhaust)
    qed (rule causes)
  qed
  have "col d \<noteq> None" using todo [OF d(1,3)] below hb_pred by blast
  moreover have "col d \<noteq> Some Red" using red d(5) by blast
  ultimately have "col d = Some Blue" by (metis color.exhaust option.exhaust)
  then show ?thesis using blue d(4) by blast
qed

lemma compute_immediate_conflicts_ok:
  assumes "histories_ok addr s" "successors_ok s" "e \<in> unf_set s" "causes_free s e"
    and "\<forall>x \<in> unf_set s. is_independent_of e x \<noteq> None" "program_init \<noteq> e"
  shows "\<exists>ds. compute_immediate_conflicts s e = Some ds \<and> distinct ds \<and> set ds = {d. immediate_conflict s e d}"
proof -
  obtain col W where cw: "color_causes s e = Some (col, W)" "causes_inv s e (col, W)" "set W = {g. hb g e}"
    using color_causes_ok [OF assms(4)] by blast
  have col: "col x = (if hb x e then Some Red else if conflicts_with_causes s e x then Some Blue else None)" for x
    using cw(2,3) by (auto simp: causes_inv_def conflicts_with_causes_def)
  have "explore_inv s e [] (rev W, col, [])"
  proof -
    have "set (immediate_predecessors x) \<inter> {g. hb g e} \<noteq> {}"
      if x: "x \<in> unf_set s" "x \<noteq> e" "\<forall>p \<in> set (predecessors x). hb p e" "\<not> hb x e" for x
    proof -
      have a: "allocated addr x" "allocated addr e"
        using assms(1,3) x(1) configuration_allocated [of addr "local_config x" x] configuration_allocated [of addr "local_config e" e]
        by (auto simp: histories_ok_def local_config_def)
      have "x \<noteq> program_init" using root_hb [OF a(2)] x(2,4) assms(6) by auto
      then obtain p where "p \<in> set (predecessors x)" using root_hb [OF a(1)] hb_last [of program_init x] by auto
      then obtain q where "q \<in> maximal_preds x" using maximal_pred_above by blast
      then show ?thesis using immediate_subset [of addr x] assms(1) x(1,3) by (fastforce simp: histories_ok_def)
    qed
    moreover have "\<not> conflicts_with_causes s e x" if "hb x e" for x
      using assms(4) that by (auto simp: causes_free_def conflicts_with_causes_def)
    ultimately show ?thesis
      using histories_hb [OF _ assms(1,3)]
      by (auto simp: explore_inv_def col cw(3) explorable_def split: if_split_asm) (blast intro: hb_trans)
  qed
  then obtain col' result where "while_option explore_running (explore_step s e) (Some (rev W, col, [])) = Some (Some ([], col', result))"
      "explore_inv s e [] ([], col', result)"
    using explore_loop [OF assms(1,2,5)] by blast
  moreover from this(2) have "distinct result" "\<forall>x \<in> set result. immediate_conflict s e x" by (auto simp: explore_inv_def)
  ultimately show ?thesis
    using explored_all [OF assms(1) _ assms(6)] cw(1) by (auto simp: compute_immediate_conflicts_def)
qed

end
