(* ===== verification/Dedup.thy ===== *)
theory Dedup
  imports Conflicts
begin

text \<open>
  \<^verbatim>\<open>unfolding::deduplicate\<close>: a new event is either recognised as one that the unfolding already
  holds, or stored, linked to its immediate predecessors and entered into the relation of
  immediate conflicts. The invariant of the unfolding is stated here and kept by it.

  A duplicate is destroyed by the caller; it is a different object, so it is in no successor
  list and its destructor changes nothing. The cutoff flag of a new object is computed by its
  constructor, which runs right before \<^verbatim>\<open>deduplicate\<close>; \<open>md\<close> says whether its metadata has been
  attached.
\<close>

text \<open>
  \<^verbatim>\<open>set_metadata\<close> on a stored event replaces all of its metadata, the id included. The object that
  is given up carries the id 0: it was never stored, and \<^verbatim>\<open>attachMetadata\<close> leaves 0 there.
\<close>

definition take_metadata :: "bool \<Rightarrow> 'd event \<Rightarrow> 'd unf \<Rightarrow> 'd unf" where
  "take_metadata md v s =
     (if u_metadata s v then s
      else s\<lparr>u_metadata := (u_metadata s)(v := md), u_id := (u_id s)(v := 0)\<rparr>)"

definition deduplicate :: "bool \<Rightarrow> 'd event \<Rightarrow> 'd unf \<Rightarrow> ('d unf \<times> bool \<times> 'd event) option" where
  "deduplicate md e s =
     (case find (compare_events e) (bucket s (event_key e)) of
        Some v \<Rightarrow>
          let t = stats_inc_event_deduplicated s in
          if constructed_cutoff s e
          then map_option (\<lambda>(t, n). (take_metadata md v t, False, v)) (mark_as_cutoff v t)
          else Some (take_metadata md v t, False, v)
      | None \<Rightarrow>
          let t = (store_event e s)\<lparr>u_cutoff := (u_cutoff s)(e := constructed_cutoff s e)\<rparr>;
              t = add_to_successors e t in
          case compute_immediate_conflicts t e of
            None \<Rightarrow> None
          | Some ds \<Rightarrow>
              Some (t\<lparr>u_conflicts := fold (\<lambda>d cfl. cfl(d := cfl d @ [e])) ds ((u_conflicts t)(e := ds)),
                      u_metadata := (u_metadata t)(e := md)\<rparr>,
                    True, e))"

section \<open>Invariant\<close>

definition events_ok :: "'d unf \<Rightarrow> bool" where
  "events_ok s \<longleftrightarrow> smap_ok (u_events s)
     \<and> (\<forall>k es. map_of (u_events s) k = Some es \<longrightarrow> distinct es \<and> (\<forall>e \<in> set es. event_key e = k))"

definition conflicts_ok :: "'d unf \<Rightarrow> bool" where
  "conflicts_ok s \<longleftrightarrow>
     (\<forall>a b. b \<in> set (u_conflicts s a) \<longleftrightarrow> a \<in> set (u_conflicts s b))
     \<and> (\<forall>a. set (u_conflicts s a) \<subseteq> unf_set s)
     \<and> (\<forall>a b. b \<in> set (u_conflicts s a) \<longrightarrow> is_independent_of a b = Some False)
     \<and> (\<forall>e \<in> unf_set s. \<forall>p \<in> local_config e. \<forall>q \<in> local_config e. q \<notin> set (u_conflicts s p))"

definition event_ok :: "('d event \<Rightarrow> nat) \<Rightarrow> 'd event \<Rightarrow> bool" where
  "event_ok addr e \<longleftrightarrow> is_configuration addr (local_config e) \<and> lock_pred_complete e
     \<and> (kind e = K_lock_destroy \<longrightarrow> lid e \<noteq> 0)"

definition unf_ok :: "('d event \<Rightarrow> nat) \<Rightarrow> nat \<Rightarrow> 'd unf \<Rightarrow> bool" where
  "unf_ok addr n0 s \<longleftrightarrow>
     events_ok s \<and> inj_on addr (unf_set s) \<and> program_init \<in> unf_set s
     \<and> (\<forall>e \<in> unf_set s. event_ok addr e \<and> set (predecessors e) \<subseteq> unf_set s)
     \<and> u_size s = n0 + card (unf_set s)
     \<and> successors_ok s \<and> conflicts_ok s \<and> cutoff_closed s"

text \<open>Each part of the invariant reads only some members.\<close>

lemma unf_set_cong: "u_events t = u_events s \<Longrightarrow> unf_set t = unf_set s"
  by (simp only: all_events_def)

lemma events_ok_cong: "u_events t = u_events s \<Longrightarrow> events_ok t \<longleftrightarrow> events_ok s"
  by (simp only: events_ok_def)

lemma successors_ok_cong:
  "u_events t = u_events s \<Longrightarrow> u_successors t = u_successors s \<Longrightarrow> successors_ok t \<longleftrightarrow> successors_ok s"
  by (simp only: successors_ok_def all_events_def)

lemma conflicts_ok_cong:
  "u_events t = u_events s \<Longrightarrow> u_conflicts t = u_conflicts s \<Longrightarrow> conflicts_ok t \<longleftrightarrow> conflicts_ok s"
  by (simp only: conflicts_ok_def all_events_def)

lemma cutoff_closed_cong:
  "u_events t = u_events s \<Longrightarrow> u_cutoff t = u_cutoff s \<Longrightarrow> cutoff_closed t \<longleftrightarrow> cutoff_closed s"
  by (simp only: cutoff_closed_def all_events_def)

lemma unf_ok_cong:
  assumes "u_events t = u_events s" "u_size t = u_size s" "u_successors t = u_successors s"
    and "u_conflicts t = u_conflicts s" "u_cutoff t = u_cutoff s"
  shows "unf_ok addr n0 t \<longleftrightarrow> unf_ok addr n0 s"
  by (simp only: unf_ok_def unf_set_cong [OF assms(1)] events_ok_cong [OF assms(1)] assms(2)
      successors_ok_cong [OF assms(1,3)] conflicts_ok_cong [OF assms(1,4)] cutoff_closed_cong [OF assms(1,5)])

section \<open>Storing\<close>

lemma events_okD:
  "events_ok s \<Longrightarrow> map_of (u_events s) k = Some es \<Longrightarrow> distinct es \<and> (\<forall>e \<in> set es. event_key e = k)"
  unfolding events_ok_def by blast

lemma events_okI:
  "smap_ok (u_events s) \<Longrightarrow> (\<And>k es. map_of (u_events s) k = Some es \<Longrightarrow> distinct es \<and> (\<forall>e \<in> set es. event_key e = k))
    \<Longrightarrow> events_ok s"
  unfolding events_ok_def by blast

lemma mem_unf_set: "events_ok s \<Longrightarrow> e \<in> unf_set s \<longleftrightarrow> e \<in> set (bucket s (event_key e))"
proof
  assume ok: "events_ok s"
  then have d: "distinct (map fst (u_events s))" by (simp add: events_ok_def smap_ok_distinct)
  assume "e \<in> unf_set s"
  then obtain k es where "(k, es) \<in> set (u_events s)" "e \<in> set es" by (auto simp: all_events_def)
  then have "map_of (u_events s) k = Some es" using d by simp
  moreover from this have "event_key e = k" using ok \<open>e \<in> set es\<close> unfolding events_ok_def by blast
  ultimately show "e \<in> set (bucket s (event_key e))" using \<open>e \<in> set es\<close> by (simp add: bucket_def)
next
  assume "e \<in> set (bucket s (event_key e))"
  then obtain es where es: "map_of (u_events s) (event_key e) = Some es" "e \<in> set es"
    by (cases "map_of (u_events s) (event_key e)") (auto simp: bucket_def)
  have "es \<in> snd ` set (u_events s)" by (rule image_eqI [OF _ map_of_SomeD [OF es(1)]]) simp
  then show "e \<in> unf_set s" using es(2) by (auto simp: all_events_def)
qed

lemma store_event_simps [simp]:
  "u_successors (store_event e s) = u_successors s" "u_conflicts (store_event e s) = u_conflicts s"
  "u_cutoff (store_event e s) = u_cutoff s" "u_size (store_event e s) = Suc (u_size s)"
  "u_events (store_event e s) = smap_put (event_key e) (bucket s (event_key e) @ [e]) (u_events s)"
  by (simp_all add: store_event_def stats_inc_unique_event_def Let_def)

lemma add_to_successors_simps [simp]:
  "u_conflicts (add_to_successors e s) = u_conflicts s" "u_cutoff (add_to_successors e s) = u_cutoff s"
  "u_size (add_to_successors e s) = u_size s" "u_events (add_to_successors e s) = u_events s"
  by (simp_all add: add_to_successors_def)

lemma store_event_ok:
  assumes "events_ok s" "e \<notin> unf_set s" "u_events t = u_events (store_event e s)"
  shows "events_ok t" "unf_set t = insert e (unf_set s)"
proof -
  let ?k = "event_key e"
  have ok: "smap_ok (u_events s)" using assms(1) by (simp add: events_ok_def)
  have t: "map_of (u_events t) k = (if k = ?k then Some (bucket s ?k @ [e]) else map_of (u_events s) k)" for k
    using map_of_smap_put [OF ok] by (simp add: assms(3))
  have b: "distinct (bucket s ?k) \<and> (\<forall>x \<in> set (bucket s ?k). event_key x = ?k)"
    using events_okD [OF assms(1), of ?k] by (cases "map_of (u_events s) ?k") (auto simp: bucket_def)
  have okt: "smap_ok (u_events t)" using ok by (simp add: assms(3))
  show "events_ok t"
  proof (rule events_okI [OF okt])
    fix k es assume "map_of (u_events t) k = Some es"
    then have "k = ?k \<and> es = bucket s ?k @ [e] \<or> map_of (u_events s) k = Some es"
      unfolding t by (simp split: if_split_asm)
    then show "distinct es \<and> (\<forall>x \<in> set es. event_key x = k)"
      using b events_okD [OF assms(1), of k es] assms(2) mem_unf_set [OF assms(1), of e] by auto
  qed
  note okt' = this
  have "bucket t k = (if k = ?k then bucket s ?k @ [e] else bucket s k)" for k
    by (cases "k = ?k") (simp_all add: bucket_def t)
  then have "x \<in> unf_set t \<longleftrightarrow> x = e \<or> x \<in> unf_set s" for x
    unfolding mem_unf_set [OF okt'] mem_unf_set [OF assms(1)] by auto
  then show "unf_set t = insert e (unf_set s)" by auto
qed

lemma fold_append_entry:
  "set (fold (\<lambda>p m. m(p := m p @ [e])) ps m x) = (if x \<in> set ps then insert e (set (m x)) else set (m x))"
  by (induction ps arbitrary: m) auto

lemma add_to_successors_ok:
  assumes "successors_ok s" "unf_set t = insert e (unf_set s)"
    and "u_successors t = u_successors (add_to_successors e s)"
  shows "successors_ok t"
  using assms by (auto simp: successors_ok_def add_to_successors_def fold_append_entry)

section \<open>Cutoff flags of new events\<close>

lemma multi_cutoff:
  assumes hist: "histories_ok addr s" and co: "cutoff_closed s" and e: "is_configuration addr (local_config e)"
    "set (predecessors e) \<subseteq> unf_set s" and p: "p \<in> set (predecessors e)" "u_cutoff s p" "kind e \<noteq> K_thread_init"
  shows "list_ex (u_cutoff s) (cone_events (cone e))"
proof -
  have eL: "e \<in> local_config e" "p \<in> local_config e" using hb_pred [OF p(1)] by (simp_all add: local_config_def)
  have a: "allocated addr e" using configuration_allocated [OF e(1) eL(1)] .
  have "p \<noteq> program_init" using pred_not_root [OF a p(1,3)] by auto
  then obtain f where f: "map_of (cone e) (tid p) = Some f" "depth p \<le> depth f"
    using covers_hb [OF hb_pred [OF p(1)] a] by (auto simp: covers_def)
  note in_cone = map_of_SomeD [OF f(1)]
  have fL: "f \<in> local_config e" "tid f = tid p"
    using cone_in_configuration [OF e(1) eL(1)] in_cone by (auto simp: cone_in_def)
  have "f \<in> unf_set s"
  proof -
    have "hb f e" using cone_memD(2) [OF a f(1)] .
    then obtain q where "q \<in> set (predecessors e)" "f = q \<or> hb f q" using hb_last [of f e] by blast
    then show ?thesis using e(2) histories_hb [OF _ hist] by blast
  qed
  then have "u_cutoff s f"
    using less_than_cone_hb [OF e(1) eL(2) fL f(2)] cutoff_closed_hb [OF co hist] p(2) by blast
  then show ?thesis using in_cone by (force simp: list_ex_iff cone_events_def)
qed

lemma constructed_cutoff_pred:
  assumes "histories_ok addr s" "cutoff_closed s" "is_configuration addr (local_config e)"
    "set (predecessors e) \<subseteq> unf_set s" "p \<in> set (predecessors e)" "u_cutoff s p"
  shows "constructed_cutoff s e"
proof (cases "body e")
  case (Thread_Init c)
  then show ?thesis using assms(5,6) by (simp add: constructed_cutoff_def predecessors_def)
qed (use assms(5,6) multi_cutoff [OF assms(1-6)] in \<open>simp_all add: constructed_cutoff_def predecessors_def kind_def\<close>)

section \<open>Adding an event\<close>

lemma unf_ok_histories: "unf_ok addr n0 s \<Longrightarrow> histories_ok addr s"
  by (auto simp: unf_ok_def histories_ok_def event_ok_def)

lemma unf_ok_allocated: "unf_ok addr n0 s \<Longrightarrow> e \<in> unf_set s \<Longrightarrow> allocated addr e"
  using configuration_allocated [of addr "local_config e" e] by (simp add: unf_ok_def event_ok_def local_config_def)

lemma event_ok_allocated: "event_ok addr e \<Longrightarrow> allocated addr e"
  using configuration_allocated [of addr "local_config e" e] by (simp add: event_ok_def local_config_def)

text \<open>The state between storing the event and computing its conflicts.\<close>

definition linked :: "'d event \<Rightarrow> 'd unf \<Rightarrow> 'd unf" where
  "linked e s = add_to_successors e ((store_event e s)\<lparr>u_cutoff := (u_cutoff s)(e := constructed_cutoff s e)\<rparr>)"

lemma linked_simps [simp]:
  "u_conflicts (linked e s) = u_conflicts s" "u_cutoff (linked e s) = (u_cutoff s)(e := constructed_cutoff s e)"
  "u_size (linked e s) = Suc (u_size s)" "u_events (linked e s) = u_events (store_event e s)"
  "u_successors (linked e s) = u_successors (add_to_successors e s)"
  by (simp_all add: linked_def add_to_successors_def)

text \<open>What a new event must satisfy: it is well formed and its causes are stored and free of conflicts.\<close>

definition addable :: "('d event \<Rightarrow> nat) \<Rightarrow> 'd unf \<Rightarrow> 'd event \<Rightarrow> bool" where
  "addable addr s e \<longleftrightarrow> event_ok addr e \<and> e \<noteq> program_init \<and> set (predecessors e) \<subseteq> unf_set s
     \<and> causes_free s e \<and> inj_on addr (insert e (unf_set s))"

lemma linked_ok:
  assumes "unf_ok addr n0 s" "addable addr s e" "e \<notin> unf_set s"
  shows "events_ok (linked e s)" "unf_set (linked e s) = insert e (unf_set s)" "successors_ok (linked e s)"
    "histories_ok addr (linked e s)" "cutoff_closed (linked e s)"
proof -
  have ok: "events_ok s" "successors_ok s" "cutoff_closed s" using assms(1) by (simp_all add: unf_ok_def)
  have e: "event_ok addr e" "set (predecessors e) \<subseteq> unf_set s" using assms(2) by (simp_all add: addable_def)
  show "events_ok (linked e s)" and U: "unf_set (linked e s) = insert e (unf_set s)"
    by (rule store_event_ok [OF ok(1) assms(3)]; simp)+
  show "successors_ok (linked e s)" by (rule add_to_successors_ok [OF ok(2) U]) simp
  show "histories_ok addr (linked e s)"
    using unf_ok_histories [OF assms(1)] e by (auto simp: histories_ok_def U event_ok_def)
  have "u_cutoff (linked e s) x"
    if x: "x \<in> insert e (unf_set s)" "p \<in> set (predecessors x)" "u_cutoff (linked e s) p" for x p
  proof (cases "x = e")
    case True
    have "p \<noteq> e" using x(2) True hb_pred hb.irrefl by blast
    then show ?thesis
      using constructed_cutoff_pred [OF unf_ok_histories [OF assms(1)] ok(3) _ e(2), of p] e(1) x True
      by (simp add: event_ok_def)
  next
    case False
    then have "p \<in> unf_set s" using x unf_ok_histories [OF assms(1)] by (auto simp: histories_ok_def)
    then have "p \<noteq> e" using assms(3) by blast
    then show ?thesis using False x ok(3) by (auto simp: cutoff_closed_def)
  qed
  then show "cutoff_closed (linked e s)" unfolding cutoff_closed_def U by blast
qed

lemma event_ok_facts: "event_ok addr e \<Longrightarrow> event_facts e"
  using allocated_event_facts [OF event_ok_allocated] by (auto simp: event_ok_def)

lemma linked_conflicts:
  assumes "unf_ok addr n0 s" "addable addr s e" "e \<notin> unf_set s"
  shows "\<exists>ds. compute_immediate_conflicts (linked e s) e = Some ds \<and> distinct ds
    \<and> set ds = {d. immediate_conflict (linked e s) e d}"
proof (rule compute_immediate_conflicts_ok [OF linked_ok(4,3) [OF assms]])
  have e: "event_ok addr e" using assms(2) by (simp add: addable_def)
  show "e \<in> unf_set (linked e s)" using linked_ok(2) [OF assms] by simp
  show "causes_free (linked e s) e" using assms(2) by (simp add: addable_def causes_free_def)
  show "program_init \<noteq> e" using assms(2) by (auto simp: addable_def)
  have "is_independent_of e x \<noteq> None" if "x \<in> insert e (unf_set s)" for x
  proof -
    have x: "event_ok addr x" using that e assms(1) by (auto simp: unf_ok_def)
    show ?thesis using independence_sym [OF event_ok_facts [OF e] event_ok_facts [OF x]] by blast
  qed
  then show "\<forall>x \<in> unf_set (linked e s). is_independent_of e x \<noteq> None" using linked_ok(2) [OF assms] by simp
qed

lemma new_conflicts_ok:
  assumes ok: "unf_ok addr n0 s" and e: "addable addr s e" "e \<notin> unf_set s"
    and ds: "set ds = {d. immediate_conflict (linked e s) e d}"
    and t: "unf_set t = insert e (unf_set s)"
      "u_conflicts t = fold (\<lambda>d cfl. cfl(d := cfl d @ [e])) ds ((u_conflicts s)(e := ds))"
  shows "conflicts_ok t"
proof -
  have old: "\<And>a b. b \<in> set (u_conflicts s a) \<longleftrightarrow> a \<in> set (u_conflicts s b)" "\<And>a. set (u_conflicts s a) \<subseteq> unf_set s"
      "\<And>x p q. x \<in> unf_set s \<Longrightarrow> p \<in> local_config x \<Longrightarrow> q \<in> local_config x \<Longrightarrow> q \<notin> set (u_conflicts s p)"
      "\<And>a b. b \<in> set (u_conflicts s a) \<Longrightarrow> is_independent_of a b = Some False"
    using ok unfolding unf_ok_def conflicts_ok_def by blast+
  have none: "u_conflicts s e = []" using old(1,2) e(2) by (metis last_in_set subsetD)
  have d: "set ds \<subseteq> unf_set s" "e \<notin> set ds" "\<And>d. d \<in> set ds \<Longrightarrow> \<not> hb d e"
    using linked_ok(2) [OF ok e] by (auto simp: ds immediate_conflict_def)
  have cfl: "set (u_conflicts t x) = (if x = e then set ds else if x \<in> set ds then insert e (set (u_conflicts s x)) else set (u_conflicts s x))" for x
    using d(2) by (simp add: t(2) fold_append_entry)
  have "b \<in> set (u_conflicts t a) \<longleftrightarrow> a \<in> set (u_conflicts t b)" for a b
    using old(1) [of a b] d(2) none old(1) [of a e] old(1) [of b e] by (auto simp: cfl)
  moreover have "set (u_conflicts t a) \<subseteq> unf_set t" for a using old(2) d(1) by (auto simp: cfl t(1))
  moreover have "is_independent_of a b = Some False" if ab: "b \<in> set (u_conflicts t a)" for a b
  proof -
    have "is_independent_of e d = Some False \<and> is_independent_of d e = Some False" if "d \<in> set ds" for d
    proof -
      have "event_ok addr e" "event_ok addr d" using e(1) d(1) that ok by (auto simp: addable_def unf_ok_def)
      then have "is_independent_of e d = is_independent_of d e" using independence_sym event_ok_facts by blast
      then show ?thesis using that by (simp add: ds immediate_conflict_def)
    qed
    then show ?thesis using ab old(4) [of b a] by (auto simp: cfl split: if_split_asm)
  qed
  moreover have "q \<notin> set (u_conflicts t p)" if x: "x \<in> unf_set t" "p \<in> local_config x" "q \<in> local_config x" for x p q
  proof (cases "x = e")
    case True
    then show ?thesis
      using x d(2,3) e(1) subsetD [OF old(2) [of p], of e] e(2)
      by (auto simp: cfl local_config_def addable_def causes_free_def)
  next
    case False
    then have xs: "x \<in> unf_set s" using x(1) t(1) by simp
    have "p \<in> unf_set s" "q \<in> unf_set s"
      using x(2,3) xs histories_hb [OF _ unf_ok_histories [OF ok]] by (auto simp: local_config_def)
    then have "p \<noteq> e" "q \<noteq> e" using e(2) by auto
    then show ?thesis using old(3) [OF xs x(2,3)] by (simp add: cfl)
  qed
  ultimately show ?thesis by (simp add: conflicts_ok_def)
qed

section \<open>The operation\<close>

lemma take_metadata_ok:
  assumes "unf_ok addr n0 s"
  shows "unf_ok addr n0 (take_metadata md v s)" "unf_set (take_metadata md v s) = unf_set s"
    "u_conflicts (take_metadata md v s) = u_conflicts s"
    "u_events_created (take_metadata md v s) = u_events_created s"
  using assms unf_ok_cong [of "take_metadata md v s" s addr n0] unf_set_cong [of "take_metadata md v s" s]
  by (simp_all add: take_metadata_def)

lemma deduplicate_new:
  assumes "unf_ok addr n0 s" "addable addr s e" "e \<notin> unf_set s"
  shows "\<exists>t. deduplicate md e s = Some (t, True, e) \<and> unf_ok addr n0 t \<and> unf_set t = insert e (unf_set s)
    \<and> set (u_conflicts t e) = {d. immediate_conflict (linked e s) e d}
    \<and> (\<forall>x. x \<noteq> e \<longrightarrow> set (u_conflicts t x) \<subseteq> insert e (set (u_conflicts s x)))
    \<and> u_events_created t = u_events_created s \<and> u_id t e = Suc (u_size s) \<and> u_metadata t e = md"
proof -
  have ok: "events_ok s" and e: "event_ok addr e" "inj_on addr (insert e (unf_set s))" "set (predecessors e) \<subseteq> unf_set s"
    using assms(1,2) by (simp_all add: unf_ok_def addable_def)
  have "\<not> compare_events e v" if "v \<in> set (bucket s (event_key e))" for v
  proof
    have v: "v \<in> unf_set s"
      using that events_okD [OF ok] mem_unf_set [OF ok, of v]
      by (cases "map_of (u_events s) (event_key e)") (auto simp: bucket_def)
    assume "compare_events e v"
    then have "e = v"
      using compare_events_exact [of addr e v] event_ok_allocated [OF e(1)] unf_ok_allocated [OF assms(1) v]
        inj_on_subset [OF e(2), of "set (predecessors e)"] e(1,3) v assms(1)
      by (auto simp: event_ok_def unf_ok_def)
    then show False using v assms(3) by blast
  qed
  then have none: "find (compare_events e) (bucket s (event_key e)) = None" by (simp add: find_None_iff)
  obtain ds where ds: "compute_immediate_conflicts (linked e s) e = Some ds" "distinct ds"
      "set ds = {d. immediate_conflict (linked e s) e d}"
    using linked_conflicts [OF assms] by blast
  define t where "t = (linked e s)\<lparr>u_conflicts := fold (\<lambda>d cfl. cfl(d := cfl d @ [e])) ds ((u_conflicts s)(e := ds)),
      u_metadata := (u_metadata (linked e s))(e := md)\<rparr>"
  have U: "unf_set t = insert e (unf_set s)" using linked_ok(2) [OF assms] by (simp add: t_def all_events_def)
  have "e \<notin> set ds" using ds(3) by (simp add: immediate_conflict_def)
  then have cfl: "set (u_conflicts t e) = set ds" "\<forall>x. x \<noteq> e \<longrightarrow> set (u_conflicts t x) \<subseteq> insert e (set (u_conflicts s x))"
    by (auto simp: t_def fold_append_entry)
  have "events_ok t" "successors_ok t" "cutoff_closed t"
    using linked_ok [OF assms] events_ok_cong [of t "linked e s"] successors_ok_cong [of t "linked e s"]
      cutoff_closed_cong [of t "linked e s"]
    by (simp_all add: t_def)
  moreover have "conflicts_ok t" by (rule new_conflicts_ok [OF assms ds(3) U]) (simp add: t_def)
  moreover have "card (unf_set t) = Suc (card (unf_set s))" using assms(3) by (simp add: U)
  ultimately have "unf_ok addr n0 t"
    using assms(1) e unfolding unf_ok_def U by (simp add: t_def) blast
  moreover have "deduplicate md e s = Some (t, True, e)"
    using none ds(1) by (simp add: deduplicate_def linked_def [symmetric] t_def Let_def)
  moreover have "u_events_created t = u_events_created s" "u_id t e = Suc (u_size s)" "u_metadata t e = md"
    by (simp_all add: t_def linked_def add_to_successors_def store_event_def stats_inc_unique_event_def Let_def)
  ultimately show ?thesis using U cfl ds(3) by blast
qed

lemma deduplicate_known:
  assumes "unf_ok addr n0 s" "e \<in> unf_set s"
  shows "\<exists>t. deduplicate md e s = Some (t, False, e) \<and> unf_ok addr n0 t \<and> unf_set t = unf_set s
    \<and> u_conflicts t = u_conflicts s \<and> u_events_created t = u_events_created s
    \<and> u_id t e = (if u_metadata s e then u_id s e else 0)"
proof -
  let ?t = "stats_inc_event_deduplicated s"
  have ok: "events_ok s" using assms(1) by (simp add: unf_ok_def)
  obtain v where v: "find (compare_events e) (bucket s (event_key e)) = Some v"
    using assms(2) mem_unf_set [OF ok, of e] compare_events_refl [of e]
    by (cases "find (compare_events e) (bucket s (event_key e))") (auto simp: find_None_iff)
  then have vb: "v \<in> set (bucket s (event_key e))" "compare_events e v" by (auto simp: find_Some_iff)
  have vU: "v \<in> unf_set s"
    using vb events_okD [OF ok] mem_unf_set [OF ok, of v]
    by (cases "map_of (u_events s) (event_key e)") (auto simp: bucket_def)
  have eok: "event_ok addr e" "event_ok addr v" "inj_on addr (set (predecessors e))"
    using assms vU inj_on_subset [of addr "unf_set s" "set (predecessors e)"] by (auto simp: unf_ok_def)
  have ve: "v = e"
    using compare_events_exact [of addr e v] event_ok_allocated [OF eok(1)] event_ok_allocated [OF eok(2)] eok vb(2)
    by (simp add: event_ok_def)
  have tok: "unf_ok addr n0 ?t" "unf_set ?t = unf_set s" "u_conflicts ?t = u_conflicts s" "u_events_created ?t = u_events_created s"
    using assms(1) unf_ok_cong [of ?t s addr n0] unf_set_cong [of ?t s]
    by (simp_all add: stats_inc_event_deduplicated_def)
  show ?thesis
  proof (cases "constructed_cutoff s e")
    case False
    then show ?thesis using v ve tok take_metadata_ok [OF tok(1), of md e]
      by (simp add: deduplicate_def Let_def) (simp add: take_metadata_def stats_inc_event_deduplicated_def)
  next
    case True
    have parts: "successors_ok ?t" "cutoff_closed ?t" using tok(1) by (simp_all add: unf_ok_def)
    define u where "u = ?t\<lparr>u_cutoff := \<lambda>x. u_cutoff ?t x \<or> (x \<in> unf_set ?t \<and> (x = e \<or> hb e x))\<rparr>"
    obtain n where m: "mark_as_cutoff e ?t = Some (u, n)"
      using mark_as_cutoff_ok [OF parts(1) unf_ok_histories [OF tok(1)] parts(2), of e] assms(2) tok(2)
      by (auto simp: u_def)
    have "cutoff_closed u"
      using parts(2) hb_pred hb.trans unfolding cutoff_closed_def by (auto simp: u_def all_events_def) blast+
    then have "unf_ok addr n0 u"
      using tok(1) unf_set_cong [of u ?t] events_ok_cong [of u ?t] successors_ok_cong [of u ?t] conflicts_ok_cong [of u ?t]
      by (simp add: unf_ok_def u_def)
    moreover have "deduplicate md e s = Some (take_metadata md e u, False, e)" using v ve True m by (simp add: deduplicate_def Let_def)
    moreover have "u_id (take_metadata md e u) e = (if u_metadata s e then u_id s e else 0)"
      by (simp add: take_metadata_def u_def stats_inc_event_deduplicated_def)
    ultimately show ?thesis
      using tok(2-4) unf_set_cong [of u ?t] take_metadata_ok [of addr n0 u md e] by (auto simp: u_def)
  qed
qed

section \<open>Initial state\<close>

lemma local_config_program_init [simp]: "local_config program_init = {program_init}"
  by (simp add: local_config_def)

lemma unfolding_new_set [simp]: "unf_set (unfolding_new n0) = {program_init}"
  by (simp add: unfolding_new_def all_events_def bucket_def)

lemma unfolding_new_simps [simp]:
  "u_successors (unfolding_new n0) = (\<lambda>_. [])" "u_conflicts (unfolding_new n0) = (\<lambda>_. [])"
  "u_cutoff (unfolding_new n0) = (\<lambda>_. False)" "u_size (unfolding_new n0) = Suc n0"
  by (simp_all add: unfolding_new_def)

lemma immediate_predecessors_program_init [simp]: "immediate_predecessors program_init = []"
  by (simp add: immediate_predecessors_def program_init_def)

lemma unfolding_new_ok: "unf_ok addr n0 (unfolding_new n0)"
proof -
  have "events_ok (unfolding_new n0 :: 'a unf)"
    by (rule events_okI) (auto simp: unfolding_new_def bucket_def smap_ok_def split: if_split_asm)
  moreover have "event_ok addr program_init"
    by (simp add: event_ok_def configuration_program_init lock_pred_complete_def)
  ultimately show ?thesis
    by (simp add: unf_ok_def successors_ok_def conflicts_ok_def cutoff_closed_def)
qed

section \<open>Properties\<close>

text \<open>
  C3. \<^verbatim>\<open>deduplicate\<close> does not abort and keeps the invariant of the unfolding: distinct events
  filed under their keys, successor lists that mirror the immediate predecessors, a symmetric
  conflict relation of dependent events without conflicts inside a local configuration, cutoff flags inherited by
  all later events, and a correct count. It returns the event with the members of the given one,
  reports it unknown exactly if the unfolding did not hold it, and adds nothing else.
\<close>

theorem deduplicate_spec:
  assumes "unf_ok addr n0 s" "e \<in> unf_set s \<or> addable addr s e"
  shows "\<exists>t. deduplicate md e s = Some (t, e \<notin> unf_set s, e) \<and> unf_set t = insert e (unf_set s) \<and> unf_ok addr n0 t"
proof (cases "e \<in> unf_set s")
  case True
  then show ?thesis using deduplicate_known [OF assms(1) True] by (auto simp: insert_absorb)
next
  case False
  then show ?thesis using deduplicate_new [OF assms(1) _ False, of md] assms(2) by auto
qed

text \<open>The first event of the main thread in a new unfolding.\<close>

lemma ex_init_ok: "event_ok addr ex_init"
proof -
  have "local_config ex_init = {ex_init, program_init}"
    using hb_last [of _ ex_init] by (auto simp: local_config_def ex_init_def predecessors_def)
  moreover have "is_configuration addr {ex_init, program_init}"
    by (rule configuration_subset [OF ex_configuration])
       (auto simp: ex_set_def causally_closed_def predecessors_def ex_init_def program_init_def)
  ultimately show ?thesis by (simp add: event_ok_def lock_pred_complete_def ex_init_def kind_def)
qed

lemma ex_init_addable: "addable depth (unfolding_new n0) ex_init"
  by (simp add: addable_def ex_init_ok ex_distinct causes_free_def)
     (simp add: ex_init_def predecessors_def program_init_def)

theorem deduplicate_spec_witness:
  "\<exists>t. deduplicate False ex_init (unfolding_new 0) = Some (t, True, ex_init)
    \<and> unf_set t = {ex_init, program_init} \<and> unf_ok depth 0 t"
proof -
  have "ex_init \<notin> unf_set (unfolding_new 0)" by (simp add: ex_distinct)
  then show ?thesis
    using deduplicate_spec [OF unfolding_new_ok [of depth 0], of ex_init] ex_init_addable [of 0] by simp
qed

text \<open>
  C6. \<^verbatim>\<open>compute_immediate_conflicts\<close> ends without an abort for a stored event whose causes are
  free of conflicts, and returns each event in immediate conflict exactly once: the events that
  are dependent on it, not in conflict with one of its causes, and only preceded by its causes
  and by events independent of it.
\<close>

theorem compute_immediate_conflicts_exact:
  assumes "unf_ok addr n0 s" "addable addr s e" "e \<notin> unf_set s"
  shows "\<exists>ds. compute_immediate_conflicts (linked e s) e = Some ds \<and> distinct ds
    \<and> set ds = {d \<in> unf_set s. \<not> hb d e \<and> \<not> conflicts_with_causes s e d \<and> is_independent_of e d = Some False
        \<and> (\<forall>g. hb g d \<longrightarrow> hb g e \<or> \<not> conflicts_with_causes s e g \<and> is_independent_of e g = Some True)}"
proof -
  have "g \<noteq> e" if "hb g d" "d \<in> unf_set s" for g d
    using that histories_hb [OF _ unf_ok_histories [OF assms(1)]] assms(3) by blast
  then have "immediate_conflict (linked e s) e d \<longleftrightarrow>
      d \<in> unf_set s \<and> \<not> hb d e \<and> \<not> conflicts_with_causes s e d \<and> is_independent_of e d = Some False
        \<and> (\<forall>g. hb g d \<longrightarrow> hb g e \<or> \<not> conflicts_with_causes s e g \<and> is_independent_of e g = Some True)" for d
    using assms(3) linked_ok(2) [OF assms]
    by (auto simp: immediate_conflict_def explorable_def conflicts_with_causes_def)
  then show ?thesis using linked_conflicts [OF assms] by simp
qed

theorem compute_immediate_conflicts_exact_witness:
  "compute_immediate_conflicts (linked ex_init (unfolding_new 0)) ex_init = Some []"
proof -
  have n: "ex_init \<notin> unf_set (unfolding_new 0)" by (simp add: ex_distinct)
  have "hb program_init ex_init" by (rule hb_pred) (simp add: ex_init_def predecessors_def)
  then have e: "{d. d = program_init \<and> \<not> hb d ex_init} = {}" by auto
  obtain ds where ds: "compute_immediate_conflicts (linked ex_init (unfolding_new 0)) ex_init = Some ds"
      "set ds \<subseteq> {d. d = program_init \<and> \<not> hb d ex_init}"
    using compute_immediate_conflicts_exact [OF unfolding_new_ok [of depth 0] ex_init_addable [of 0] n] by auto
  from ds(2) have "set ds \<subseteq> {}" unfolding e .
  then show ?thesis using ds(1) by simp
qed

text \<open>
  C18. \<^verbatim>\<open>mark_as_cutoff\<close> ends, and marks exactly the given event and all events of the
  unfolding that causally depend on it, in addition to those marked before; nothing else changes.
\<close>

theorem mark_as_cutoff_spec:
  assumes "unf_ok addr n0 s" "e \<in> unf_set s"
  shows "\<exists>t n. mark_as_cutoff e s = Some (t, n) \<and> unf_ok addr n0 t \<and> unf_set t = unf_set s
    \<and> (\<forall>x \<in> unf_set s. u_cutoff t x \<longleftrightarrow> u_cutoff s x \<or> x = e \<or> hb e x)"
proof -
  define t where "t = s\<lparr>u_cutoff := \<lambda>x. u_cutoff s x \<or> (x \<in> unf_set s \<and> (x = e \<or> hb e x))\<rparr>"
  have parts: "successors_ok s" "cutoff_closed s" using assms(1) by (simp_all add: unf_ok_def)
  obtain n where n: "mark_as_cutoff e s = Some (t, n)"
    using mark_as_cutoff_ok [OF parts(1) unf_ok_histories [OF assms(1)] parts(2) assms(2)] by (auto simp: t_def)
  have "cutoff_closed t"
    using parts(2) hb_pred hb.trans unfolding cutoff_closed_def by (auto simp: t_def all_events_def) blast+
  then have "unf_ok addr n0 t"
    using assms(1) unf_set_cong [of t s] events_ok_cong [of t s] successors_ok_cong [of t s] conflicts_ok_cong [of t s]
    by (simp add: unf_ok_def t_def)
  moreover have "unf_set t = unf_set s" by (rule unf_set_cong) (simp add: t_def)
  ultimately show ?thesis using n by (intro exI [of _ t] exI [of _ n]) (simp add: t_def)
qed

theorem mark_as_cutoff_spec_witness:
  "\<exists>t n. mark_as_cutoff program_init (unfolding_new 0 :: nat unf) = Some (t, n) \<and> u_cutoff t program_init"
  using mark_as_cutoff_spec [OF unfolding_new_ok [of depth 0], of program_init] by auto

end
