(* ===== verification/Configuration.thy ===== *)
theory Configuration
  imports Dedup "HOL-Library.Monad_Syntax"
begin

text \<open>
  \<^verbatim>\<open>include/por/configuration.h\<close>: a configuration as the executor sees it, with the most recent
  event of every thread, lock and condition variable, the operations that build the next event of
  a thread and \<^verbatim>\<open>commit\<close>, which enters it into the unfolding and updates the heads. An operation
  whose assertion fails is \<open>None\<close>.

  The unfolding is shared between configurations, so it is passed and returned separately. The
  pointer \<^verbatim>\<open>extension::configuration\<close> is left out: an extension is committed to the
  configuration that issued it.
\<close>

section \<open>State\<close>

record 'd cfg =
  thread_heads :: "(thread_id, 'd event) smap"
  lock_heads :: "(lock_id_t, 'd event) smap"
  cond_heads :: "(cond_id_t, 'd event list) smap"
  w2_heads :: "(cond_id_t, 'd event list) smap"
  used_cond_ids :: "cond_id_t set"
  used_lock_ids :: "lock_id_t set"
  c_size :: nat
  last_extension :: nat

record 'd ext =
  ext_event :: "'d event"
  ext_index :: nat
  ext_metadata :: bool

definition ex :: "'d cfg \<Rightarrow> 'd event \<Rightarrow> 'd cfg \<times> 'd ext" where
  "ex c e = (c\<lparr>last_extension := last_extension c + 1\<rparr>, \<lparr>ext_event = e, ext_index = last_extension c + 1, ext_metadata = False\<rparr>)"

text \<open>\<^verbatim>\<open>set_metadata\<close> on the event of an extension that is not committed yet.\<close>

definition set_metadata :: "bool \<Rightarrow> 'd ext \<Rightarrow> 'd ext" where
  "set_metadata md x = x\<lparr>ext_metadata := md\<rparr>"

definition ex_opt :: "'d cfg \<Rightarrow> 'd event option \<Rightarrow> ('d cfg \<times> 'd ext) option" where
  "ex_opt c oe = map_option (ex c) oe"

text \<open>\<^verbatim>\<open>configuration_root::add_thread\<close> and the constructors.\<close>

definition add_thread :: "'d unf \<times> (thread_id, 'd event) smap \<Rightarrow> ('d unf \<times> (thread_id, 'd event) smap) option" where
  "add_thread = (\<lambda>(u, heads). do {
     t \<leftarrow> tid_child tid_none (of_nat (length heads + 1));
     e \<leftarrow> alloc_thread_init t program_init;
     (u, unknown, e) \<leftarrow> deduplicate False e u;
     let heads = (if smap_has t heads then heads else smap_put t e heads);
     let u = stats_inc_event_created K_thread_init u;
     init \<leftarrow> map_of heads t;
     (if thread_creation_predecessor init = Some program_init then Some (u, heads) else None)
   })"

definition construct :: "'d unf \<times> (thread_id, 'd event) smap \<Rightarrow> ('d unf \<times> 'd cfg) option" where
  "construct = (\<lambda>(u, heads).
     if heads = [] then None
     else Some (stats_inc_unique_event K_program_init (stats_inc_event_created K_program_init u),
        \<lparr>thread_heads = heads, lock_heads = [], cond_heads = [], w2_heads = [], used_cond_ids = {},
         used_lock_ids = {}, c_size = length heads + 1, last_extension = 0\<rparr>))"

definition configuration_new :: "nat \<Rightarrow> ('d unf \<times> 'd cfg) option" where
  "configuration_new n0 = Option.bind (add_thread (unfolding_new n0, [])) construct"

section \<open>Queries\<close>

definition last_of_tid :: "'d cfg \<Rightarrow> thread_id \<Rightarrow> 'd event option" where
  "last_of_tid c t = map_of (thread_heads c) t"

definition last_of_lid :: "'d cfg \<Rightarrow> lock_id_t \<Rightarrow> 'd event option" where
  "last_of_lid c l = map_of (lock_heads c) l"

definition last_of_cid :: "'d cfg \<Rightarrow> cond_id_t \<Rightarrow> 'd event list" where
  "last_of_cid c cv = (case map_of (cond_heads c) cv of None \<Rightarrow> [] | Some es \<Rightarrow> es)"

text \<open>
  \<^verbatim>\<open>can_acquire_lock\<close>: for a lock that was used and has no head (it was destroyed) the source
  dereferences a null pointer.
\<close>

definition can_acquire_lock :: "'d cfg \<Rightarrow> lock_id_t \<Rightarrow> bool option" where
  "can_acquire_lock c l =
     (if l = 0 then None
      else if last_of_lid c l = None \<and> l \<notin> used_lock_ids c then Some True
      else case last_of_lid c l of
          None \<Rightarrow> None
        | Some h \<Rightarrow> Some (kind h = K_lock_create \<or> kind h = K_lock_release \<or> kind h = K_wait1))"

text \<open>\<^verbatim>\<open>wait2_predecessor_cond\<close>: the notification of a waiting thread among the heads.\<close>

definition notifies :: "'d event \<Rightarrow> 'd event \<Rightarrow> bool" where
  "notifies w e \<longleftrightarrow> (kind e = K_broadcast \<or> kind e = K_signal) \<and> w \<in> set (wait_predecessors e)"

definition wait2_predecessor_cond :: "'d event \<Rightarrow> 'd event list \<Rightarrow> 'd event option" where
  "wait2_predecessor_cond w cond_preds = find (notifies w) cond_preds"

definition was_notified :: "'d cfg \<Rightarrow> thread_id \<Rightarrow> cond_id_t \<Rightarrow> bool option" where
  "was_notified c t cv =
     (case last_of_tid c t of
        None \<Rightarrow> None
      | Some w \<Rightarrow>
          if kind w \<noteq> K_wait1 then Some False
          else Some (wait2_predecessor_cond w (last_of_cid c cv) \<noteq> None))"

definition active_threads :: "'d cfg \<Rightarrow> nat" where
  "active_threads c =
     length (filter (\<lambda>(t, e). kind e \<noteq> K_thread_exit \<and> kind e \<noteq> K_wait1) (thread_heads c))"

section \<open>Commit\<close>

definition cond_entry :: "'d cfg \<Rightarrow> cond_id_t \<Rightarrow> 'd event list" where
  "cond_entry c cv = (case map_of (cond_heads c) cv of None \<Rightarrow> [] | Some es \<Rightarrow> es)"

definition w2_entry :: "'d cfg \<Rightarrow> cond_id_t \<Rightarrow> 'd event list" where
  "w2_entry c cv = (case map_of (w2_heads c) cv of None \<Rightarrow> [] | Some es \<Rightarrow> es)"

text \<open>The first use of a condition variable or lock that was never created.\<close>

definition first_use_cond :: "'d event \<Rightarrow> 'd cfg \<Rightarrow> 'd cfg" where
  "first_use_cond e c =
     (if condition_variable_predecessors e = [] then c\<lparr>used_cond_ids := insert (cid e) (used_cond_ids c)\<rparr> else c)"

definition first_use_lock :: "'d event \<Rightarrow> 'd cfg \<Rightarrow> 'd cfg" where
  "first_use_lock e c =
     (if lock_predecessor e = None then c\<lparr>used_lock_ids := insert (lid e) (used_lock_ids c)\<rparr> else c)"

definition set_lock_head :: "'d event \<Rightarrow> 'd cfg \<Rightarrow> 'd cfg" where
  "set_lock_head e c = c\<lparr>lock_heads := smap_put (lid e) e (lock_heads c)\<rparr>"

definition set_cond_heads :: "'d event \<Rightarrow> 'd event list \<Rightarrow> 'd cfg \<Rightarrow> 'd cfg" where
  "set_cond_heads e es c = c\<lparr>cond_heads := smap_put (cid e) es (cond_heads c)\<rparr>"

text \<open>
  The switch of \<^verbatim>\<open>commit\<close>. A signal that is not lost overwrites the entry of the wait it
  notifies; without such an entry the source writes through the end iterator.
\<close>

definition commit_heads :: "'d event \<Rightarrow> 'd cfg \<Rightarrow> 'd cfg option" where
  "commit_heads e c =
     (case kind e of
        K_lock_create \<Rightarrow> Some (set_lock_head e (c\<lparr>used_lock_ids := insert (lid e) (used_lock_ids c)\<rparr>))
      | K_lock_acquire \<Rightarrow> Some (set_lock_head e (first_use_lock e c))
      | K_lock_release \<Rightarrow> Some (set_lock_head e c)
      | K_lock_destroy \<Rightarrow>
          Some (if lock_predecessor e = None then first_use_lock e c
                else c\<lparr>lock_heads := smap_erase (lid e) (lock_heads c)\<rparr>)
      | K_condition_variable_create \<Rightarrow>
          (let c = c\<lparr>used_cond_ids := insert (cid e) (used_cond_ids c)\<rparr> in
           Some (if smap_has (cid e) (cond_heads c) then c else set_cond_heads e [e] c))
      | K_wait1 \<Rightarrow>
          (let c = set_lock_head e (first_use_cond e c) in
           Some (set_cond_heads e (cond_entry c (cid e) @ [e]) c))
      | K_wait2 \<Rightarrow>
          (let c = set_lock_head e c in
           Some (c\<lparr>w2_heads := smap_put (cid e) (w2_entry c (cid e) @ [e]) (w2_heads c)\<rparr>))
      | K_signal \<Rightarrow>
          (let c = first_use_cond e c; preds = cond_entry c (cid e) in
           if \<not> is_lost e then do {
             w \<leftarrow> (case wait_predecessors e of w # _ \<Rightarrow> Some w | [] \<Rightarrow> None);
             preds \<leftarrow> replace_first w e preds;
             Some (set_cond_heads e preds c) }
           else Some (set_cond_heads e (preds @ [e]) c))
      | K_broadcast \<Rightarrow>
          (let c = first_use_cond e c; preds = cond_entry c (cid e);
               preds = (if \<not> is_lost e then filter (\<lambda>p. p \<notin> set (wait_predecessors e)) preds else preds) in
           Some (set_cond_heads e (preds @ [e]) c))
      | K_condition_variable_destroy \<Rightarrow>
          Some (if condition_variable_predecessors e = [] then first_use_cond e c
                else c\<lparr>cond_heads := smap_erase (cid e) (cond_heads c), w2_heads := smap_erase (cid e) (w2_heads c)\<rparr>)
      | _ \<Rightarrow> Some c)"

definition commit :: "'d ext \<Rightarrow> 'd unf \<times> 'd cfg \<Rightarrow> ('d unf \<times> 'd cfg \<times> 'd event) option" where
  "commit x = (\<lambda>(u, c).
     if ext_index x \<noteq> last_extension c then None
     else do {
       (u, unknown, e) \<leftarrow> deduplicate (ext_metadata x) (ext_event x) u;
       let c = c\<lparr>thread_heads := smap_put (tid e) e (thread_heads c)\<rparr>;
       let u = stats_inc_event_created (kind e) u;
       let c = c\<lparr>c_size := c_size c + 1\<rparr>;
       c \<leftarrow> commit_heads e c;
       Some (u, c, e) })"

section \<open>Thread and lock operations\<close>

text \<open>The lookup and the two assertions that most operations start with.\<close>

definition live_head :: "'d cfg \<Rightarrow> thread_id \<Rightarrow> 'd event option" where
  "live_head c t =
     (case map_of (thread_heads c) t of
        None \<Rightarrow> None
      | Some h \<Rightarrow> if kind h \<noteq> K_thread_exit \<and> kind h \<noteq> K_wait1 then Some h else None)"

definition create_thread :: "'d cfg \<Rightarrow> thread_id \<Rightarrow> thread_id \<Rightarrow> ('d cfg \<times> 'd ext) option" where
  "create_thread c t new_tid = do {
     h \<leftarrow> live_head c t;
     (if \<not> tid_empty new_tid \<and> \<not> smap_has new_tid (thread_heads c)
      then ex_opt c (alloc_thread_create t h new_tid) else None) }"

definition init_thread :: "'d cfg \<Rightarrow> thread_id \<Rightarrow> thread_id \<Rightarrow> ('d cfg \<times> 'd ext) option" where
  "init_thread c t created_from = do {
     cr \<leftarrow> map_of (thread_heads c) created_from;
     (if kind cr = K_thread_create \<and> tid cr \<noteq> t \<and> \<not> smap_has t (thread_heads c)
      then ex_opt c (alloc_thread_init t cr) else None) }"

definition join_thread :: "'d cfg \<Rightarrow> thread_id \<Rightarrow> thread_id \<Rightarrow> ('d cfg \<times> 'd ext) option" where
  "join_thread c t joined = do {
     h \<leftarrow> live_head c t;
     j \<leftarrow> map_of (thread_heads c) joined;
     (if kind j = K_thread_exit then ex_opt c (alloc_thread_join t h j) else None) }"

definition exit_thread :: "'d cfg \<Rightarrow> thread_id \<Rightarrow> bool \<Rightarrow> ('d cfg \<times> 'd ext) option" where
  "exit_thread c t atomic = do {
     h \<leftarrow> live_head c t;
     (if active_threads c > 0 then ex_opt c (alloc_thread_exit t h atomic) else None) }"

definition create_lock :: "'d cfg \<Rightarrow> thread_id \<Rightarrow> lock_id_t \<Rightarrow> ('d cfg \<times> 'd ext) option" where
  "create_lock c t l = do {
     h \<leftarrow> live_head c t;
     (if l \<noteq> 0 \<and> \<not> smap_has l (lock_heads c) \<and> l \<notin> used_lock_ids c
      then ex_opt c (alloc_lock_create t l h) else None) }"

definition destroy_lock :: "'d cfg \<Rightarrow> thread_id \<Rightarrow> lock_id_t \<Rightarrow> ('d cfg \<times> 'd ext) option" where
  "destroy_lock c t l = do {
     h \<leftarrow> live_head c t;
     (case map_of (lock_heads c) l of
        None \<Rightarrow> if l \<noteq> 0 then ex_opt c (alloc_lock_destroy t l h None) else None
      | Some lh \<Rightarrow> ex_opt c (alloc_lock_destroy t l h (Some lh))) }"

definition acquire_lock :: "'d cfg \<Rightarrow> thread_id \<Rightarrow> lock_id_t \<Rightarrow> ('d cfg \<times> 'd ext) option" where
  "acquire_lock c t l = do {
     h \<leftarrow> live_head c t;
     free \<leftarrow> can_acquire_lock c l;
     (if \<not> free then None
      else case map_of (lock_heads c) l of
          None \<Rightarrow> if l \<noteq> 0 then ex_opt c (alloc_lock_acquire t l h None) else None
        | Some lh \<Rightarrow> ex_opt c (alloc_lock_acquire t l h (Some lh))) }"

definition release_lock :: "'d cfg \<Rightarrow> thread_id \<Rightarrow> lock_id_t \<Rightarrow> bool \<Rightarrow> ('d cfg \<times> 'd ext) option" where
  "release_lock c t l atomic = do {
     h \<leftarrow> live_head c t;
     lh \<leftarrow> map_of (lock_heads c) l;
     ex_opt c (alloc_lock_release t l h lh atomic) }"

section \<open>Condition variable operations\<close>

definition create_cond :: "'d cfg \<Rightarrow> thread_id \<Rightarrow> cond_id_t \<Rightarrow> ('d cfg \<times> 'd ext) option" where
  "create_cond c t cv = do {
     h \<leftarrow> live_head c t;
     (if cv \<noteq> 0 \<and> \<not> smap_has cv (cond_heads c) \<and> cv \<notin> used_cond_ids c
      then ex_opt c (alloc_condition_variable_create t cv h) else None) }"

definition destroy_cond :: "('d event \<Rightarrow> nat) \<Rightarrow> 'd cfg \<Rightarrow> thread_id \<Rightarrow> cond_id_t \<Rightarrow> ('d cfg \<times> 'd ext) option" where
  "destroy_cond addr c t cv = do {
     h \<leftarrow> live_head c t;
     (if cv = 0 then None
      else case map_of (cond_heads c) cv of
          None \<Rightarrow> ex_opt c (alloc_condition_variable_destroy addr t cv h [])
        | Some cond_preds \<Rightarrow>
            if length cond_preds > 0
            then ex_opt c (alloc_condition_variable_destroy addr t cv h (cond_preds @ w2_entry c cv))
            else None) }"

definition wait1_pred_skipped :: "'d event \<Rightarrow> 'd event \<Rightarrow> bool" where
  "wait1_pred_skipped h p \<longleftrightarrow>
     kind p = K_wait1
     \<or> (kind p = K_signal \<and> \<not> is_lost p)
     \<or> (kind p = K_broadcast \<and> is_notifying_thread p (tid h))
     \<or> tid p = tid h
     \<or> is_less_than_eq p h"

definition wait1_predecessors_cond :: "'d event \<Rightarrow> 'd event list \<Rightarrow> 'd event list" where
  "wait1_predecessors_cond h cond_preds = filter (\<lambda>p. \<not> wait1_pred_skipped h p) cond_preds"

definition wait1 :: "('d event \<Rightarrow> nat) \<Rightarrow> 'd cfg \<Rightarrow> thread_id \<Rightarrow> cond_id_t \<Rightarrow> lock_id_t \<Rightarrow> ('d cfg \<times> 'd ext) option" where
  "wait1 addr c t cv l = do {
     h \<leftarrow> live_head c t;
     (case map_of (cond_heads c) cv of
        None \<Rightarrow>
          if cv \<noteq> 0 \<and> l \<noteq> 0
          then do { lh \<leftarrow> map_of (lock_heads c) l; ex_opt c (alloc_wait1 addr t cv l h lh []) }
          else None
      | Some cond_preds \<Rightarrow> do {
          lh \<leftarrow> map_of (lock_heads c) l;
          ex_opt c (alloc_wait1 addr t cv l h lh (wait1_predecessors_cond h cond_preds)) }) }"

definition wait2 :: "'d cfg \<Rightarrow> thread_id \<Rightarrow> cond_id_t \<Rightarrow> lock_id_t \<Rightarrow> ('d cfg \<times> 'd ext) option" where
  "wait2 c t cv l = do {
     h \<leftarrow> map_of (thread_heads c) t;
     (if kind h = K_wait1 then do {
        cond_preds \<leftarrow> map_of (cond_heads c) cv;
        lh \<leftarrow> map_of (lock_heads c) l;
        n \<leftarrow> wait2_predecessor_cond h cond_preds;
        ex_opt c (alloc_wait2 t cv l h lh n) }
      else None) }"

definition notified_wait1_predecessor :: "thread_id \<Rightarrow> 'd event list \<Rightarrow> 'd event option" where
  "notified_wait1_predecessor t cond_preds = find (\<lambda>e. tid e = t \<and> kind e = K_wait1) cond_preds"

text \<open>
  \<^verbatim>\<open>lost_notification_predecessors_cond\<close>: a waiting thread among the heads is an assertion
  failure, since the notification would not have been lost.
\<close>

definition lost_pred_skipped :: "'d event \<Rightarrow> 'd event \<Rightarrow> bool" where
  "lost_pred_skipped h p \<longleftrightarrow>
     (kind p = K_broadcast \<and> (is_lost p \<or> is_notifying_thread p (tid h)))
     \<or> (kind p = K_signal \<and> (is_lost p \<or> notified_thread p = tid h))
     \<or> tid p = tid h
     \<or> is_less_than_eq p h"

definition lost_notification_predecessors_cond :: "'d event \<Rightarrow> 'd event list \<Rightarrow> 'd event list option" where
  "lost_notification_predecessors_cond h cond_preds =
     (if list_ex (\<lambda>p. kind p = K_wait1) cond_preds then None
      else Some (filter (\<lambda>p. \<not> lost_pred_skipped h p) cond_preds))"

text \<open>The waiting thread that a signal or broadcast notifies, with the assertions on it.\<close>

definition notified_head :: "'d cfg \<Rightarrow> thread_id \<Rightarrow> 'd event list \<Rightarrow> thread_id \<Rightarrow> 'd event option" where
  "notified_head c t cond_preds n =
     (if n = t then None
      else do {
        w \<leftarrow> map_of (thread_heads c) n;
        (if kind w = K_wait1 then do {
           p \<leftarrow> notified_wait1_predecessor n cond_preds;
           (if p = w then Some w else None) }
         else None) })"

definition signal_thread ::
  "('d event \<Rightarrow> nat) \<Rightarrow> 'd cfg \<Rightarrow> thread_id \<Rightarrow> cond_id_t \<Rightarrow> thread_id \<Rightarrow> ('d cfg \<times> 'd ext) option" where
  "signal_thread addr c t cv notified = do {
     h \<leftarrow> live_head c t;
     (if map_of (cond_heads c) cv = None \<and> tid_empty notified
      then (if cv \<noteq> 0 then ex_opt c (alloc_signal_lost addr t cv h []) else None)
      else do {
        cond_preds \<leftarrow> map_of (cond_heads c) cv;
        (if tid_empty notified then do {
           prev \<leftarrow> lost_notification_predecessors_cond h cond_preds;
           ex_opt c (alloc_signal_lost addr t cv h prev) }
         else do {
           w \<leftarrow> notified_head c t cond_preds notified;
           ex_opt c (alloc_signal t cv h w) }) }) }"

definition broadcast_pred_skipped :: "'d event \<Rightarrow> thread_id \<Rightarrow> thread_id list \<Rightarrow> 'd event \<Rightarrow> bool" where
  "broadcast_pred_skipped h t notified p \<longleftrightarrow>
     kind p = K_wait1 \<or> kind p = K_condition_variable_create \<or> kind p = K_broadcast
     \<or> (kind p = K_signal \<and> (is_lost p \<or> notified_thread p = t \<or> notified_thread p \<in> set notified))
     \<or> tid p = t
     \<or> is_less_than_eq p h"

definition broadcast_threads ::
  "('d event \<Rightarrow> nat) \<Rightarrow> 'd cfg \<Rightarrow> thread_id \<Rightarrow> cond_id_t \<Rightarrow> thread_id list \<Rightarrow> ('d cfg \<times> 'd ext) option" where
  "broadcast_threads addr c t cv notified = do {
     h \<leftarrow> live_head c t;
     (if map_of (cond_heads c) cv = None \<and> notified = []
      then (if cv \<noteq> 0 then ex_opt c (alloc_broadcast addr t cv h []) else None)
      else do {
        cond_preds \<leftarrow> map_of (cond_heads c) cv;
        (if notified = [] then do {
           prev \<leftarrow> lost_notification_predecessors_cond h cond_preds;
           ex_opt c (alloc_broadcast addr t cv h prev) }
         else do {
           ws \<leftarrow> those (map (notified_head c t cond_preds) notified);
           ex_opt c (alloc_broadcast addr t cv h
             (ws @ filter (\<lambda>p. \<not> broadcast_pred_skipped h t notified p) cond_preds)) }) }) }"

definition local :: "'d cfg \<Rightarrow> thread_id \<Rightarrow> 'd list \<Rightarrow> ('d cfg \<times> 'd ext) option" where
  "local c t path = do {
     h \<leftarrow> map_of (thread_heads c) t;
     (if kind h \<noteq> K_thread_exit then ex_opt c (alloc_local t h path) else None) }"

section \<open>Iteration\<close>

text \<open>
  \<^verbatim>\<open>configuration_iterator\<close>: the threads from the largest id down, each from its head back to
  its first event, then the root of the unfolding. The reverse iterator is the list of heads
  still ahead, the current one first.
\<close>

record 'd cfg_iter =
  ci_thread :: "(thread_id, 'd event) smap"
  ci_event :: "'d event option"

definition ci_end :: "'d cfg_iter" where
  "ci_end = \<lparr>ci_thread = [], ci_event = None\<rparr>"

definition ci_begin :: "'d cfg \<Rightarrow> 'd cfg_iter" where
  "ci_begin c =
     (case rev (thread_heads c) of
        [] \<Rightarrow> ci_end
      | (t, h) # rest \<Rightarrow> \<lparr>ci_thread = (t, h) # rest, ci_event = Some h\<rparr>)"

definition ci_next :: "'d cfg_iter \<Rightarrow> 'd cfg_iter option" where
  "ci_next it =
     (case ci_event it of
        None \<Rightarrow> Some it
      | Some e \<Rightarrow>
          (case thread_predecessor e of
             Some p \<Rightarrow> Some (it\<lparr>ci_event := Some p\<rparr>)
           | None \<Rightarrow>
               (case ci_thread it of
                  _ # (t, h) # rest \<Rightarrow> Some \<lparr>ci_thread = (t, h) # rest, ci_event = Some h\<rparr>
                | [th] \<Rightarrow> if e = program_init then Some ci_end else Some (it\<lparr>ci_event := Some program_init\<rparr>)
                | [] \<Rightarrow> None)))"

fun ci_collect :: "nat \<Rightarrow> 'd cfg_iter \<Rightarrow> 'd event list option" where
  "ci_collect fuel it =
     (case ci_event it of
        None \<Rightarrow> Some []
      | Some e \<Rightarrow>
          (case fuel of 0 \<Rightarrow> None
           | Suc n \<Rightarrow> (case ci_next it of None \<Rightarrow> None | Some it' \<Rightarrow> map_option (Cons e) (ci_collect n it'))))"

declare ci_collect.simps [simp del]

text \<open>The events of a configuration, in the order of the iterator.\<close>

definition cfg_list :: "'d cfg \<Rightarrow> 'd event list" where
  "cfg_list c = concat (map (\<lambda>(t, h). thread_chain h) (rev (thread_heads c))) @ [program_init]"

abbreviation cfg_events :: "'d cfg \<Rightarrow> 'd event set" where
  "cfg_events c \<equiv> set (cfg_list c)"

lemma ci_collect_chain:
  "ci_collect (length (thread_chain e) + n) \<lparr>ci_thread = ths, ci_event = Some e\<rparr> =
    (case ci_next \<lparr>ci_thread = ths, ci_event = Some (last (thread_chain e))\<rparr> of
       None \<Rightarrow> None | Some it \<Rightarrow> map_option (append (thread_chain e)) (ci_collect n it))"
proof (induction e rule: thread_chain.induct)
  case (1 e)
  show ?case
  proof (cases "thread_predecessor e")
    case None
    then have "thread_chain e = [e]" using thread_chain.simps [of e] by simp
    then show ?thesis
      by (simp add: ci_collect.simps [of "Suc n"] option.map_comp comp_def cong: map_option_cong split: option.split)
  next
    case (Some p)
    have ne: "thread_chain p \<noteq> []" by (simp add: thread_chain.simps [of p])
    have chain: "thread_chain e = e # thread_chain p" using Some thread_chain.simps [of e] by simp
    have "ci_next \<lparr>ci_thread = ths, ci_event = Some e\<rparr> = Some \<lparr>ci_thread = ths, ci_event = Some p\<rparr>"
      using Some by (simp add: ci_next_def)
    then have "ci_collect (length (thread_chain e) + n) \<lparr>ci_thread = ths, ci_event = Some e\<rparr>
        = map_option (Cons e) (ci_collect (length (thread_chain p) + n) \<lparr>ci_thread = ths, ci_event = Some p\<rparr>)"
      by (simp add: chain ci_collect.simps [of "Suc (length (thread_chain p) + n)"])
    then show ?thesis using "1.IH" [OF Some] ne
      by (simp add: chain option.map_comp comp_def split: option.split)
  qed
qed

lemma ci_collect_threads:
  assumes "ths \<noteq> []" "\<forall>(t, h) \<in> set ths. thread_predecessor (last (thread_chain h)) = None \<and> last (thread_chain h) \<noteq> program_init"
  shows "ci_collect (length (concat (map (\<lambda>(t, h). thread_chain h) ths)) + 1) \<lparr>ci_thread = ths, ci_event = Some (snd (hd ths))\<rparr>
    = Some (concat (map (\<lambda>(t, h). thread_chain h) ths) @ [program_init])"
  using assms
proof (induction ths)
  case (Cons th ths)
  obtain t h where th: "th = (t, h)" by (cases th)
  have l: "thread_predecessor (last (thread_chain h)) = None" "last (thread_chain h) \<noteq> program_init"
    using Cons.prems(2) th by auto
  show ?case
  proof (cases ths)
    case Nil
    have "ci_collect (Suc 0) \<lparr>ci_thread = [(t, h)], ci_event = Some program_init\<rparr> = Some [program_init :: 'a event]"
      by (simp add: ci_collect.simps [of "Suc 0"] ci_collect.simps [of 0] ci_next_def ci_end_def thread_predecessor_def program_init_def)
    then show ?thesis using l ci_collect_chain [of h "Suc 0" "[(t, h)]"] by (simp add: Nil th ci_next_def)
  next
    case (Cons th' ths')
    have "ci_next \<lparr>ci_thread = th # ths, ci_event = Some (last (thread_chain h))\<rparr>
        = Some \<lparr>ci_thread = ths, ci_event = Some (snd (hd ths))\<rparr>"
      using l by (cases th') (simp add: ci_next_def local.Cons)
    then show ?thesis
      using Cons.IH Cons.prems(2) ci_collect_chain [of h "length (concat (map (\<lambda>(t, h). thread_chain h) ths)) + 1" "th # ths"]
      by (simp add: th local.Cons add.assoc)
  qed
qed simp

section \<open>Configurations and their events\<close>

text \<open>The heads of a configuration of the unfolding.\<close>

definition heads_ok :: "('d event \<Rightarrow> nat) \<Rightarrow> 'd cfg \<Rightarrow> bool" where
  "heads_ok addr c \<longleftrightarrow> smap_ok (thread_heads c) \<and> thread_heads c \<noteq> []
     \<and> (\<forall>t h. map_of (thread_heads c) t = Some h \<longrightarrow> tid h = t \<and> \<not> tid_empty t)
     \<and> is_configuration addr (cfg_events c)"

lemma set_cfg_list:
  "smap_ok (thread_heads c) \<Longrightarrow>
    cfg_events c = insert program_init {x. \<exists>t h. map_of (thread_heads c) t = Some h \<and> x \<in> set (thread_chain h)}"
  using map_of_eq_Some_iff [OF smap_ok_distinct [of "thread_heads c"]] by (auto simp: cfg_list_def)

lemma head_in_cfg: "heads_ok addr c \<Longrightarrow> map_of (thread_heads c) t = Some h \<Longrightarrow> h \<in> cfg_events c"
  using set_cfg_list [of c] thread_chain_self [of h] by (auto simp: heads_ok_def simp del: thread_chain_self)

lemma head_allocated: "heads_ok addr c \<Longrightarrow> map_of (thread_heads c) t = Some h \<Longrightarrow> allocated addr h"
  using head_in_cfg configuration_allocated unfolding heads_ok_def by blast

text \<open>
  C26. Iterating over a configuration ends and visits every event of the configuration exactly
  once, the root of the unfolding last; the number of steps is the number of events.
\<close>

theorem configuration_iterator_enumerates:
  assumes "heads_ok addr c"
  shows "ci_collect (length (cfg_list c)) (ci_begin c) = Some (cfg_list c) \<and> distinct (cfg_list c)"
proof
  have ok: "smap_ok (thread_heads c)" "thread_heads c \<noteq> []" using assms by (auto simp: heads_ok_def)
  have mem: "map_of (thread_heads c) t = Some h" if "(t, h) \<in> set (thread_heads c)" for t h
    using that map_of_eq_Some_iff [OF smap_ok_distinct [OF ok(1)]] by blast
  have a: "allocated addr h" "tid h = t" "\<not> tid_empty t" if "(t, h) \<in> set (thread_heads c)" for t h
    using head_allocated [OF assms mem [OF that]] assms mem [OF that] by (auto simp: heads_ok_def)
  have lst: "thread_predecessor (last (thread_chain h)) = None \<and> last (thread_chain h) \<noteq> program_init"
    if "(t, h) \<in> set (thread_heads c)" for t h
    using last_thread_chain [OF a(1) [OF that]] thread_chain_tid [OF _ a(1) [OF that]] a(2,3) [OF that]
    by (metis allocated_tid)
  have b: "ci_begin c = \<lparr>ci_thread = rev (thread_heads c), ci_event = Some (snd (hd (rev (thread_heads c))))\<rparr>"
    using ok(2) by (cases "rev (thread_heads c)") (auto simp: ci_begin_def split: prod.splits)
  show "ci_collect (length (cfg_list c)) (ci_begin c) = Some (cfg_list c)"
    unfolding b cfg_list_def length_append list.size(3,4) plus_nat.add_0
    using ci_collect_threads [of "rev (thread_heads c)"] ok(2) lst by auto
  have conf: "is_configuration addr (cfg_events c)" using assms by (simp add: heads_ok_def)
  have "cone_in (cfg_events c) (thread_heads c)"
    unfolding cone_in_def using ok(1) head_in_cfg [OF assms mem] a(2) by auto
  then have "distinct (cone_chains (thread_heads c))" by (rule distinct_cone_chains [OF conf])
  moreover have "tid x \<noteq> tid_none" if "x \<in> set (cone_chains (thread_heads c))" for x
    using that a thread_chain_tid by (fastforce simp: set_cone_chains down_def tid_empty_def tid_none_def)
  then have "program_init \<notin> set (cone_chains (thread_heads c))" by (metis event.sel(1) program_init_def)
  ultimately show "distinct (cfg_list c)"
    unfolding cfg_list_def cone_chains_def by (simp add: rev_map [symmetric] distinct_concat_rev)
qed

end
