(* ===== verification/Commit.thy ===== *)
theory Commit
  imports Configuration
begin

text \<open>
  The operations of a configuration followed by \<^verbatim>\<open>commit\<close>: every operation builds an event on
  top of the events the configuration already holds, and committing it yields the configuration
  with exactly this event added. Locks are held by at most one thread.
\<close>

section \<open>Committing an event\<close>

text \<open>The event continues its thread, or starts a thread the configuration does not have.\<close>

definition extends :: "('d event \<Rightarrow> nat) \<Rightarrow> 'd cfg \<Rightarrow> 'd event \<Rightarrow> bool" where
  "extends addr c e \<longleftrightarrow> allocated addr e \<and> \<not> tid_empty (tid e)
     \<and> thread_predecessor e = map_of (thread_heads c) (tid e) \<and> set (predecessors e) \<subseteq> cfg_events c"

lemma extends_new:
  assumes "heads_ok addr c" "extends addr c e"
  shows "e \<notin> cfg_events c"
proof
  assume "e \<in> cfg_events c"
  moreover have "e \<noteq> program_init" using assms(2) allocated_tid [of addr e] by (auto simp: extends_def)
  ultimately obtain t h where h: "map_of (thread_heads c) t = Some h" "e \<in> set (thread_chain h)"
    using set_cfg_list [of c] assms(1) by (auto simp: heads_ok_def)
  have "tid e = t" using thread_chain_tid [OF h(2) head_allocated [OF assms(1) h(1)]] assms(1) h(1)
    by (auto simp: heads_ok_def)
  then have "hb h e" using assms(2) h(1) hb_pred [OF thread_pred_in_preds [of e h]] by (simp add: extends_def)
  moreover have "e = h \<or> hb e h" by (rule thread_chain_hb [OF h(2)])
  ultimately show False using hb.irrefl hb.asym by blast
qed

lemma put_head_events:
  assumes "heads_ok addr c" "extends addr c e" "thread_heads c' = smap_put (tid e) e (thread_heads c)"
  shows "cfg_events c' = insert e (cfg_events c)"
proof -
  have ok: "smap_ok (thread_heads c)" using assms(1) by (simp add: heads_ok_def)
  have m: "map_of (thread_heads c') = (map_of (thread_heads c))(tid e \<mapsto> e)"
    by (simp add: assms(3) map_of_smap_put [OF ok])
  have chain: "set (thread_chain e) = insert e (case map_of (thread_heads c) (tid e) of None \<Rightarrow> {} | Some p \<Rightarrow> set (thread_chain p))"
    using assms(2) thread_chain.simps [of e] by (auto simp: extends_def split: option.splits)
  have "(\<exists>t h. map_of (thread_heads c') t = Some h \<and> x \<in> set (thread_chain h))
      \<longleftrightarrow> x = e \<or> (\<exists>t h. map_of (thread_heads c) t = Some h \<and> x \<in> set (thread_chain h))" for x
  proof
    assume "\<exists>t h. map_of (thread_heads c') t = Some h \<and> x \<in> set (thread_chain h)"
    then show "x = e \<or> (\<exists>t h. map_of (thread_heads c) t = Some h \<and> x \<in> set (thread_chain h))"
      unfolding m using chain by (auto split: option.splits if_split_asm)
  next
    assume x: "x = e \<or> (\<exists>t h. map_of (thread_heads c) t = Some h \<and> x \<in> set (thread_chain h))"
    have "x \<in> set (thread_chain e) \<or> (\<exists>t h. t \<noteq> tid e \<and> map_of (thread_heads c) t = Some h \<and> x \<in> set (thread_chain h))"
    proof (cases "x = e")
      case False
      then obtain t h where h: "map_of (thread_heads c) t = Some h" "x \<in> set (thread_chain h)" using x by blast
      then show ?thesis using chain by (cases "t = tid e") auto
    qed (simp add: chain)
    then show "\<exists>t h. map_of (thread_heads c') t = Some h \<and> x \<in> set (thread_chain h)"
    proof
      assume "x \<in> set (thread_chain e)"
      then show ?thesis by (intro exI [of _ "tid e"] exI [of _ e]) (simp add: m)
    next
      assume "\<exists>t h. t \<noteq> tid e \<and> map_of (thread_heads c) t = Some h \<and> x \<in> set (thread_chain h)"
      then show ?thesis by (metis fun_upd_apply m)
    qed
  qed
  then show ?thesis using set_cfg_list [of c] set_cfg_list [of c'] ok assms(3) by auto
qed

lemma put_head_ok:
  assumes "heads_ok addr c" "extends addr c e" "thread_heads c' = smap_put (tid e) e (thread_heads c)"
  shows "heads_ok addr c'"
proof -
  have ok: "smap_ok (thread_heads c)" and conf: "is_configuration addr (cfg_events c)"
    using assms(1) by (simp_all add: heads_ok_def)
  have e: "allocated addr e" "set (predecessors e) \<subseteq> cfg_events c" "thread_predecessor e = map_of (thread_heads c) (tid e)"
    using assms(2) by (simp_all add: extends_def)
  have "is_configuration addr (insert e (cfg_events c))"
  proof (rule configuration_insert [OF conf e(1,2)])
    fix a assume a: "a \<in> cfg_events c" "tid a = tid e"
    have "a \<noteq> program_init" using a(2) assms(2)
      by (cases "tid e") (auto simp: extends_def program_init_def tid_none_def tid_empty_def)
    then obtain t h where h: "map_of (thread_heads c) t = Some h" "a \<in> set (thread_chain h)"
      using a(1) set_cfg_list [OF ok] by auto
    have "tid a = t" using thread_chain_tid [OF h(2) head_allocated [OF assms(1) h(1)]] assms(1) h(1)
      by (auto simp: heads_ok_def)
    then show "a \<in> set (thread_chain e)" using h a(2) e(3) by (simp add: thread_chain.simps [of e])
  qed
  then show ?thesis
    using assms put_head_events [OF assms] by (auto simp: heads_ok_def map_of_smap_put extends_def split: if_split_asm)
qed

section \<open>The other heads\<close>

text \<open>Every event that the lock and condition variable heads refer to belongs to the configuration.\<close>

definition refs_ok :: "'d cfg \<Rightarrow> bool" where
  "refs_ok c \<longleftrightarrow> smap_ok (lock_heads c) \<and> smap_ok (cond_heads c) \<and> smap_ok (w2_heads c)
     \<and> (\<forall>l h. map_of (lock_heads c) l = Some h \<longrightarrow> h \<in> cfg_events c \<and> lid h = l)
     \<and> (\<forall>cv es. map_of (cond_heads c) cv = Some es \<longrightarrow> set es \<subseteq> cfg_events c)
     \<and> (\<forall>cv es. map_of (w2_heads c) cv = Some es \<longrightarrow> set es \<subseteq> cfg_events c)"

text \<open>What \<^verbatim>\<open>commit\<close> needs to find: the wait that a signal notifies.\<close>

definition commit_ready :: "'d cfg \<Rightarrow> 'd event \<Rightarrow> bool" where
  "commit_ready c e \<longleftrightarrow>
     (kind e = K_signal \<and> \<not> is_lost e \<longrightarrow> (\<exists>w. wait_predecessors e = [w] \<and> w \<in> set (cond_entry c (cid e))))"

lemma head_updates [simp]:
  "thread_heads (set_lock_head e c) = thread_heads c" "thread_heads (first_use_lock e c) = thread_heads c"
  "thread_heads (set_cond_heads e es c) = thread_heads c" "thread_heads (first_use_cond e c) = thread_heads c"
  "c_size (set_lock_head e c) = c_size c" "c_size (first_use_lock e c) = c_size c"
  "c_size (set_cond_heads e es c) = c_size c" "c_size (first_use_cond e c) = c_size c"
  "cond_heads (set_lock_head e c) = cond_heads c" "cond_heads (first_use_cond e c) = cond_heads c"
  "lock_heads (first_use_lock e c) = lock_heads c" "lock_heads (first_use_cond e c) = lock_heads c"
  "lock_heads (set_cond_heads e es c) = lock_heads c" "cond_heads (first_use_lock e c) = cond_heads c"
  "w2_heads (set_lock_head e c) = w2_heads c" "w2_heads (first_use_lock e c) = w2_heads c"
  "w2_heads (set_cond_heads e es c) = w2_heads c" "w2_heads (first_use_cond e c) = w2_heads c"
  "lock_heads (set_lock_head e c) = smap_put (lid e) e (lock_heads c)"
  "cond_heads (set_cond_heads e es c) = smap_put (cid e) es (cond_heads c)"
  by (simp_all add: set_lock_head_def first_use_lock_def set_cond_heads_def first_use_cond_def)

lemma cfg_events_cong: "thread_heads c' = thread_heads c \<Longrightarrow> cfg_events c' = cfg_events c"
  by (simp add: cfg_list_def)

lemma cfg_list_update [simp]:
  "cfg_list (c\<lparr>lock_heads := x\<rparr>) = cfg_list c" "cfg_list (c\<lparr>cond_heads := y\<rparr>) = cfg_list c"
  "cfg_list (c\<lparr>w2_heads := z\<rparr>) = cfg_list c" "cfg_list (c\<lparr>used_lock_ids := ls\<rparr>) = cfg_list c"
  "cfg_list (c\<lparr>used_cond_ids := cs\<rparr>) = cfg_list c" "cfg_list (c\<lparr>c_size := n\<rparr>) = cfg_list c"
  "cfg_list (c\<lparr>last_extension := n\<rparr>) = cfg_list c"
  by (simp_all add: cfg_list_def)

lemma entry_subset:
  "refs_ok c \<Longrightarrow> set (cond_entry c cv) \<subseteq> cfg_events c" "refs_ok c \<Longrightarrow> set (w2_entry c cv) \<subseteq> cfg_events c"
  by (cases "map_of (cond_heads c) cv"; simp add: refs_ok_def cond_entry_def)
     (cases "map_of (w2_heads c) cv"; simp add: refs_ok_def w2_entry_def)

lemma cond_entry_cong: "cond_heads c' = cond_heads c \<Longrightarrow> cond_entry c' = cond_entry c"
  by (simp add: cond_entry_def fun_eq_iff)

lemma refs_put_lock: "refs_ok c \<Longrightarrow> e \<in> cfg_events c \<Longrightarrow> refs_ok (set_lock_head e c)"
  using cfg_events_cong [of "set_lock_head e c" c] by (auto simp: refs_ok_def map_of_smap_put split: if_split_asm)

lemma refs_put_cond: "refs_ok c \<Longrightarrow> set es \<subseteq> cfg_events c \<Longrightarrow> refs_ok (set_cond_heads e es c)"
  using cfg_events_cong [of "set_cond_heads e es c" c] by (auto simp: refs_ok_def map_of_smap_put split: if_split_asm)

lemma refs_put_w2: "refs_ok c \<Longrightarrow> set es \<subseteq> cfg_events c \<Longrightarrow> refs_ok (c\<lparr>w2_heads := smap_put k es (w2_heads c)\<rparr>)"
  by (simp add: refs_ok_def map_of_smap_put)

lemma refs_cong:
  "refs_ok c \<Longrightarrow> thread_heads c' = thread_heads c \<Longrightarrow> lock_heads c' = lock_heads c \<Longrightarrow> cond_heads c' = cond_heads c
    \<Longrightarrow> w2_heads c' = w2_heads c \<Longrightarrow> refs_ok c'"
  using cfg_events_cong [of c' c] by (simp add: refs_ok_def)

lemma refs_first_use: "refs_ok c \<Longrightarrow> refs_ok (first_use_lock e c)" "refs_ok c \<Longrightarrow> refs_ok (first_use_cond e c)"
  by (erule refs_cong; simp)+

lemma commit_heads_ok:
  assumes "refs_ok c" "e \<in> cfg_events c" "commit_ready c e"
  shows "\<exists>c'. commit_heads e c = Some c' \<and> thread_heads c' = thread_heads c \<and> c_size c' = c_size c \<and> refs_ok c'"
proof -
  note lock = refs_put_lock [OF _ assms(2)]
  have c1: "refs_ok (first_use_cond e c)" "refs_ok (first_use_lock e c)" by (rule refs_first_use [OF assms(1)])+
  have E: "cfg_events (first_use_cond e c) = cfg_events c" "cfg_events (first_use_lock e c) = cfg_events c"
      "cfg_events (set_lock_head e c) = cfg_events c" "cfg_events (set_lock_head e (first_use_cond e c)) = cfg_events c"
    by (rule cfg_events_cong; simp)+
  have ent: "cond_entry (first_use_cond e c) = cond_entry c" "cond_entry (set_lock_head e (first_use_cond e c)) = cond_entry c"
    by (rule cond_entry_cong; simp)+
  note sub = entry_subset [OF assms(1), of "cid e"]
  have eq: "\<exists>c'. X = Some c' \<and> thread_heads c' = thread_heads c \<and> c_size c' = c_size c \<and> refs_ok c'"
    if "X = Some d" "thread_heads d = thread_heads c" "c_size d = c_size c" "refs_ok d" for X d
    using that by blast
  show ?thesis
  proof (cases "kind e")
    case K_lock_create
    show ?thesis
      by (rule eq [where d = "set_lock_head e (c\<lparr>used_lock_ids := insert (lid e) (used_lock_ids c)\<rparr>)"])
         (use assms K_lock_create in \<open>auto simp: commit_heads_def intro!: refs_put_lock refs_cong [of c]\<close>)
  next
    case K_lock_acquire
    show ?thesis
      by (rule eq [where d = "set_lock_head e (first_use_lock e c)"])
         (use assms(2) K_lock_acquire c1 E in \<open>auto simp: commit_heads_def intro!: refs_put_lock\<close>)
  next
    case K_lock_release
    show ?thesis
      by (rule eq [where d = "set_lock_head e c"]) (use assms(1) K_lock_release lock in \<open>simp_all add: commit_heads_def\<close>)
  next
    case K_lock_destroy
    have "refs_ok (c\<lparr>lock_heads := smap_erase (lid e) (lock_heads c)\<rparr>)"
      using assms(1) by (auto simp: refs_ok_def map_of_smap_erase)
    then show ?thesis using K_lock_destroy c1(2) by (auto simp: commit_heads_def)
  next
    case K_condition_variable_create
    let ?d = "c\<lparr>used_cond_ids := insert (cid e) (used_cond_ids c)\<rparr>"
    have d: "refs_ok ?d" "cfg_events ?d = cfg_events c" using assms(1) refs_cong [of c ?d] cfg_events_cong [of ?d c] by simp_all
    have "refs_ok (set_cond_heads e [e] ?d)" by (rule refs_put_cond [OF d(1)]) (use d(2) assms(2) in simp)
    then show ?thesis using K_condition_variable_create d(1) by (auto simp: commit_heads_def Let_def)
  next
    case K_wait1
    show ?thesis
      by (rule eq [where d = "set_cond_heads e (cond_entry c (cid e) @ [e]) (set_lock_head e (first_use_cond e c))"])
         (use assms(2) K_wait1 c1 E ent sub in \<open>auto simp: commit_heads_def Let_def intro!: refs_put_cond refs_put_lock\<close>)
  next
    case K_wait2
    have w: "w2_entry (set_lock_head e c) = w2_entry c" by (simp add: w2_entry_def fun_eq_iff)
    show ?thesis
      by (rule eq [where d = "(set_lock_head e c)\<lparr>w2_heads := smap_put (cid e) (w2_entry c (cid e) @ [e]) (w2_heads (set_lock_head e c))\<rparr>"])
         (use K_wait2 w sub(2) assms(2) E(3) lock [OF assms(1)] in \<open>simp_all add: commit_heads_def Let_def refs_put_w2 del: head_updates(15)\<close>)
  next
    case K_signal
    show ?thesis
    proof (cases "is_lost e")
      case True
      show ?thesis
        by (rule eq [where d = "set_cond_heads e (cond_entry c (cid e) @ [e]) (first_use_cond e c)"])
           (use True assms(2) K_signal c1 E ent sub in \<open>auto simp: commit_heads_def Let_def intro!: refs_put_cond\<close>)
    next
      case False
      then obtain w es where w: "wait_predecessors e = [w]" "replace_first w e (cond_entry c (cid e)) = Some es"
        using assms(3) K_signal replace_first_Some_iff by (metis commit_ready_def)
      then have "set es \<subseteq> cfg_events c" using set_replace_first [OF w(2)] sub(1) assms(2) by auto
      then show ?thesis
        by (intro eq [where d = "set_cond_heads e es (first_use_cond e c)"])
           (use False K_signal c1 E ent w in \<open>auto simp: commit_heads_def Let_def intro!: refs_put_cond\<close>)
    qed
  next
    case K_broadcast
    show ?thesis
      by (rule eq [where d = "set_cond_heads e ((if \<not> is_lost e then filter (\<lambda>p. p \<notin> set (wait_predecessors e)) (cond_entry c (cid e))
            else cond_entry c (cid e)) @ [e]) (first_use_cond e c)"])
         (use assms(2) K_broadcast c1 E ent sub in \<open>auto simp: commit_heads_def Let_def intro!: refs_put_cond\<close>)
  next
    case K_condition_variable_destroy
    have "refs_ok (c\<lparr>cond_heads := smap_erase (cid e) (cond_heads c), w2_heads := smap_erase (cid e) (w2_heads c)\<rparr>)"
      using assms(1) by (auto simp: refs_ok_def map_of_smap_erase)
    then show ?thesis using K_condition_variable_destroy c1(1) by (auto simp: commit_heads_def)
  qed (use assms(1) in \<open>simp_all add: commit_heads_def\<close>)
qed

section \<open>The invariant\<close>

definition cfg_inv :: "('d event \<Rightarrow> nat) \<Rightarrow> nat \<Rightarrow> 'd unf \<times> 'd cfg \<Rightarrow> bool" where
  "cfg_inv addr n0 = (\<lambda>(u, c). unf_ok addr n0 u \<and> heads_ok addr c \<and> refs_ok c
     \<and> c_size c = card (cfg_events c) \<and> cfg_events c \<subseteq> unf_set u)"

lemma refs_mono:
  "refs_ok c \<Longrightarrow> cfg_events c \<subseteq> cfg_events c' \<Longrightarrow> lock_heads c' = lock_heads c \<Longrightarrow> cond_heads c' = cond_heads c
    \<Longrightarrow> w2_heads c' = w2_heads c \<Longrightarrow> refs_ok c'"
  by (simp add: refs_ok_def) blast

lemma commit_ok:
  assumes inv: "cfg_inv addr n0 (u, c)" and e: "extends addr c e" "commit_ready c e"
    and x: "ext_event x = e" "ext_index x = last_extension c"
    and add: "e \<in> unf_set u \<or> addable addr u e"
  shows "\<exists>u' c'. commit x (u, c) = Some (u', c', e) \<and> cfg_inv addr n0 (u', c')
    \<and> cfg_events c' = insert e (cfg_events c) \<and> unf_set u' = insert e (unf_set u)"
proof -
  have ok: "unf_ok addr n0 u" "heads_ok addr c" "refs_ok c" "c_size c = card (cfg_events c)" "cfg_events c \<subseteq> unf_set u"
    using inv by (simp_all add: cfg_inv_def)
  obtain u1 b where u1: "deduplicate (ext_metadata x) e u = Some (u1, b, e)" "unf_set u1 = insert e (unf_set u)" "unf_ok addr n0 u1"
    using add deduplicate_known [OF ok(1), of e] deduplicate_new [OF ok(1), of e] by (metis insert_absorb)
  define u' where "u' = stats_inc_event_created (kind e) u1"
  have u': "unf_ok addr n0 u'" "unf_set u' = insert e (unf_set u)"
    using unf_ok_cong [of u' u1 addr n0] unf_set_cong [of u' u1] u1 by (simp_all add: u'_def stats_inc_event_created_def)
  define c1 where "c1 = c\<lparr>thread_heads := smap_put (tid e) e (thread_heads c), c_size := c_size c + 1\<rparr>"
  have t1: "thread_heads c1 = smap_put (tid e) e (thread_heads c)" by (simp add: c1_def)
  have E: "cfg_events c1 = insert e (cfg_events c)" by (rule put_head_events [OF ok(2) e(1) t1])
  have r1: "refs_ok c1" by (rule refs_mono [OF ok(3)]) (use E in \<open>auto simp: c1_def\<close>)
  have "commit_ready c1 e" using e(2) by (simp add: commit_ready_def c1_def cond_entry_def)
  then obtain c' where c': "commit_heads e c1 = Some c'" "thread_heads c' = thread_heads c1" "c_size c' = c_size c1" "refs_ok c'"
    using commit_heads_ok [OF r1] E by auto
  have E': "cfg_events c' = insert e (cfg_events c)" using cfg_events_cong [OF c'(2)] E by simp
  have "heads_ok addr c'" by (rule put_head_ok [OF ok(2) e(1)]) (use c'(2) t1 in simp)
  moreover have "c_size c' = card (cfg_events c')"
    using c'(3) ok(4) extends_new [OF ok(2) e(1)] by (simp add: E' c1_def)
  ultimately have "cfg_inv addr n0 (u', c')" using u' c'(4) ok(5) E' by (auto simp: cfg_inv_def)
  moreover have "commit x (u, c) = Some (u', c', e)"
    using u1(1) c'(1) x by (simp add: commit_def u'_def c1_def)
  ultimately show ?thesis using E' u'(2) by blast
qed

section \<open>Operations\<close>

text \<open>
  The events an executor can ask for. A new thread is initialised with a non-empty id, which the
  assertions of \<^verbatim>\<open>init_thread\<close> leave to the caller.
\<close>

inductive operation :: "('d event \<Rightarrow> nat) \<Rightarrow> 'd cfg \<Rightarrow> 'd cfg \<times> 'd ext \<Rightarrow> bool" for addr c where
  op_create_thread: "create_thread c t new_tid = Some r \<Longrightarrow> operation addr c r"
| op_init_thread: "init_thread c t from = Some r \<Longrightarrow> \<not> tid_empty t \<Longrightarrow> operation addr c r"
| op_join_thread: "join_thread c t joined = Some r \<Longrightarrow> operation addr c r"
| op_exit_thread: "exit_thread c t atomic = Some r \<Longrightarrow> operation addr c r"
| op_create_lock: "create_lock c t l = Some r \<Longrightarrow> operation addr c r"
| op_destroy_lock: "destroy_lock c t l = Some r \<Longrightarrow> operation addr c r"
| op_acquire_lock: "acquire_lock c t l = Some r \<Longrightarrow> operation addr c r"
| op_release_lock: "release_lock c t l atomic = Some r \<Longrightarrow> operation addr c r"
| op_create_cond: "create_cond c t cv = Some r \<Longrightarrow> operation addr c r"
| op_destroy_cond: "destroy_cond addr c t cv = Some r \<Longrightarrow> operation addr c r"
| op_wait1: "wait1 addr c t cv l = Some r \<Longrightarrow> operation addr c r"
| op_wait2: "wait2 c t cv l = Some r \<Longrightarrow> operation addr c r"
| op_signal_thread: "signal_thread addr c t cv n = Some r \<Longrightarrow> operation addr c r"
| op_broadcast_threads: "broadcast_threads addr c t cv ns = Some r \<Longrightarrow> operation addr c r"
| op_local: "local c t path = Some r \<Longrightarrow> operation addr c r"

lemma ex_opt_Some: "ex_opt c oe = Some r \<longleftrightarrow> (\<exists>e. oe = Some e \<and> r = ex c e)"
  by (auto simp: ex_opt_def)

lemma live_head_Some: "live_head c t = Some h \<Longrightarrow> map_of (thread_heads c) t = Some h"
  by (auto simp: live_head_def split: option.splits if_split_asm)

text \<open>An event built on the head of its thread and other events of the configuration extends it.\<close>

lemma extends_single:
  assumes "heads_ok addr c" "map_of (thread_heads c) t = Some h" "single_shape e h" "kind e \<noteq> K_thread_init" "allocated addr e" "tid e = t"
  shows "extends addr c e"
  using assms head_in_cfg [OF assms(1,2)] by (simp add: extends_def single_shape_def)

lemma extends_multi:
  assumes "heads_ok addr c" "map_of (thread_heads c) t = Some h" "multi_shape e h s os" "allocated addr e" "tid e = t"
    and "set_option s \<union> set os \<subseteq> cfg_events c"
  shows "extends addr c e"
  using assms head_in_cfg [OF assms(1,2)] by (simp add: extends_def multi_shape_def)

text \<open>The event of an operation, with what the bookkeeping needs.\<close>

definition op_ok :: "('d event \<Rightarrow> nat) \<Rightarrow> 'd cfg \<Rightarrow> 'd event \<Rightarrow> bool" where
  "op_ok addr c e \<longleftrightarrow> extends addr c e \<and> commit_ready c e"

lemma commit_readyI: "kind e \<noteq> K_signal \<Longrightarrow> commit_ready c e"
  by (simp add: commit_ready_def)

lemma op_singleI:
  assumes "heads_ok addr c" "r = ex c e" "map_of (thread_heads c) t = Some h" "single_shape e h" "allocated addr e"
    and "tid e = t \<and> kind e \<noteq> K_thread_init \<and> kind e \<noteq> K_signal"
  shows "\<exists>e. r = ex c e \<and> op_ok addr c e"
  using assms extends_single [OF assms(1,3,4) _ assms(5)] commit_readyI by (auto simp: op_ok_def)

lemma op_multiI:
  assumes "heads_ok addr c" "r = ex c e" "map_of (thread_heads c) t = Some h" "multi_shape e h s os" "allocated addr e"
    and "tid e = t \<and> kind e \<noteq> K_signal" "set_option s \<union> set os \<subseteq> cfg_events c"
  shows "\<exists>e. r = ex c e \<and> op_ok addr c e"
  using assms extends_multi [OF assms(1,3,4,5) _ assms(7)] commit_readyI by (auto simp: op_ok_def)

lemmas op_unfold = ex_opt_Some Option.bind_eq_Some_conv

lemma create_thread_ok:
  assumes "heads_ok addr c" "create_thread c t new_tid = Some r"
  shows "\<exists>e. r = ex c e \<and> op_ok addr c e"
proof -
  obtain h e where h: "map_of (thread_heads c) t = Some h" "alloc_thread_create t h new_tid = Some e" "r = ex c e"
    using assms(2) live_head_Some [of c t] by (auto simp: create_thread_def op_unfold split: if_split_asm)
  show ?thesis
    by (rule op_singleI [OF assms(1) h(3,1) shape_thread_create [OF h(2)] a_thread_create [OF head_allocated [OF assms(1) h(1)] h(2)]])
       (use alloc_thread_create_Some [OF h(2)] in \<open>simp add: kind_def\<close>)
qed

lemma exit_thread_ok:
  assumes "heads_ok addr c" "exit_thread c t atomic = Some r"
  shows "\<exists>e. r = ex c e \<and> op_ok addr c e"
proof -
  obtain h e where h: "map_of (thread_heads c) t = Some h" "alloc_thread_exit t h atomic = Some e" "r = ex c e"
    using assms(2) live_head_Some [of c t] by (auto simp: exit_thread_def op_unfold split: if_split_asm)
  show ?thesis
    by (rule op_singleI [OF assms(1) h(3,1) shape_thread_exit [OF h(2)] a_thread_exit [OF head_allocated [OF assms(1) h(1)] h(2)]])
       (use alloc_thread_exit_Some [OF h(2)] in \<open>simp add: kind_def\<close>)
qed

lemma local_ok:
  assumes "heads_ok addr c" "local c t path = Some r"
  shows "\<exists>e. r = ex c e \<and> op_ok addr c e"
proof -
  obtain h e where h: "map_of (thread_heads c) t = Some h" "alloc_local t h path = Some e" "r = ex c e"
    using assms(2) live_head_Some [of c t] by (auto simp: local_def op_unfold split: if_split_asm)
  show ?thesis
    by (rule op_singleI [OF assms(1) h(3,1) shape_local [OF h(2)] a_local [OF head_allocated [OF assms(1) h(1)] h(2)]])
       (use alloc_local_Some [OF h(2)] in \<open>simp add: kind_def\<close>)
qed

lemma create_lock_ok:
  assumes "heads_ok addr c" "create_lock c t l = Some r"
  shows "\<exists>e. r = ex c e \<and> op_ok addr c e"
proof -
  obtain h e where h: "map_of (thread_heads c) t = Some h" "alloc_lock_create t l h = Some e" "r = ex c e"
    using assms(2) live_head_Some [of c t] by (auto simp: create_lock_def op_unfold split: if_split_asm)
  show ?thesis
    by (rule op_singleI [OF assms(1) h(3,1) shape_lock_create [OF h(2)] a_lock_create [OF head_allocated [OF assms(1) h(1)] h(2)]])
       (use alloc_lock_create_Some [OF h(2)] in \<open>simp add: kind_def\<close>)
qed

lemma create_cond_ok:
  assumes "heads_ok addr c" "create_cond c t cv = Some r"
  shows "\<exists>e. r = ex c e \<and> op_ok addr c e"
proof -
  obtain h e where h: "map_of (thread_heads c) t = Some h" "alloc_condition_variable_create t cv h = Some e" "r = ex c e"
    using assms(2) live_head_Some [of c t] by (auto simp: create_cond_def op_unfold split: if_split_asm)
  show ?thesis
    by (rule op_singleI [OF assms(1) h(3,1) shape_cond_create [OF h(2)] a_cond_create [OF head_allocated [OF assms(1) h(1)] h(2)]])
       (use alloc_condition_variable_create_Some [OF h(2)] in \<open>simp add: kind_def\<close>)
qed

lemma cfg_allocated: "heads_ok addr c \<Longrightarrow> x \<in> cfg_events c \<Longrightarrow> allocated addr x"
  using configuration_allocated unfolding heads_ok_def by blast

lemma cfg_all_allocated: "heads_ok addr c \<Longrightarrow> set es \<subseteq> cfg_events c \<Longrightarrow> list_all (allocated addr) es"
  using cfg_allocated by (auto simp: list_all_iff)

lemma lock_head_in: "refs_ok c \<Longrightarrow> map_of (lock_heads c) l = Some h \<Longrightarrow> h \<in> cfg_events c"
  by (simp add: refs_ok_def)

lemma cond_head_in: "refs_ok c \<Longrightarrow> map_of (cond_heads c) cv = Some es \<Longrightarrow> set es \<subseteq> cfg_events c"
  by (simp add: refs_ok_def)

lemma cond_headD: "map_of (cond_heads c) cv = Some es \<Longrightarrow> x \<in> set es \<Longrightarrow> refs_ok c \<Longrightarrow> x \<in> cfg_events c"
  using cond_head_in [of c cv es] by blast

lemma cond_preds_in:
  "es = [] \<or> (\<exists>ps. map_of (cond_heads c) cv = Some ps \<and> set es \<subseteq> set ps) \<Longrightarrow> refs_ok c \<Longrightarrow> set es \<subseteq> cfg_events c"
  using cond_head_in [of c cv] by (metis empty_subsetI list.set(1) subset_trans)

lemma init_thread_ok:
  assumes "heads_ok addr c" "init_thread c t from = Some r" "\<not> tid_empty t"
  shows "\<exists>e. r = ex c e \<and> op_ok addr c e"
proof -
  obtain cr e where h: "map_of (thread_heads c) from = Some cr" "alloc_thread_init t cr = Some e" "r = ex c e"
      "map_of (thread_heads c) t = None"
    using assms(2) by (auto simp: init_thread_def op_unfold smap_has_def split: if_split_asm)
  have e: "allocated addr e" by (rule a_thread_init [OF head_allocated [OF assms(1) h(1)] assms(3) h(2)])
  have k: "kind e = K_thread_init" "tid e = t" using alloc_thread_init_Some [OF h(2)] by (auto simp: kind_def)
  have "extends addr c e"
    using shape_thread_init [OF h(2) assms(3)] e k h(4) assms(3) head_in_cfg [OF assms(1) h(1)]
    by (simp add: extends_def single_shape_def)
  moreover have "commit_ready c e" using k(1) by (simp add: commit_readyI)
  ultimately show ?thesis using h(3) by (auto simp: op_ok_def)
qed

lemma join_thread_ok:
  assumes "heads_ok addr c" "join_thread c t joined = Some r"
  shows "\<exists>e. r = ex c e \<and> op_ok addr c e"
proof -
  obtain h j e where h: "map_of (thread_heads c) t = Some h" "map_of (thread_heads c) joined = Some j"
      "alloc_thread_join t h j = Some e" "r = ex c e"
    using assms(2) live_head_Some [of c t] by (auto simp: join_thread_def op_unfold split: if_split_asm)
  note a = head_allocated [OF assms(1) h(1)] head_allocated [OF assms(1) h(2)]
  show ?thesis
    by (rule op_multiI [OF assms(1) h(4,1) shape_thread_join [OF h(3)] a_thread_join [OF a h(3)]])
       (use alloc_thread_join_Some [OF h(3)] head_in_cfg [OF assms(1) h(2)] in \<open>simp_all add: kind_def\<close>)
qed

lemma destroy_lock_ok:
  assumes "heads_ok addr c" "refs_ok c" "destroy_lock c t l = Some r"
  shows "\<exists>e. r = ex c e \<and> op_ok addr c e"
proof -
  obtain h e where h: "map_of (thread_heads c) t = Some h" "alloc_lock_destroy t l h (map_of (lock_heads c) l) = Some e" "r = ex c e"
    using assms(3) live_head_Some [of c t]
    by (cases "map_of (lock_heads c) l") (auto simp: destroy_lock_def op_unfold split: if_split_asm)
  have lp: "set_option (map_of (lock_heads c) l) \<subseteq> cfg_events c" using lock_head_in [OF assms(2)] by auto
  then have a: "pred_option (allocated addr) (map_of (lock_heads c) l)"
    using cfg_allocated [OF assms(1)] by (cases "map_of (lock_heads c) l") auto
  show ?thesis
    by (rule op_multiI [OF assms(1) h(3,1) shape_lock_destroy [OF h(2)] a_lock_destroy [OF head_allocated [OF assms(1) h(1)] a h(2)]])
       (use alloc_lock_destroy_Some [OF h(2)] lp in \<open>simp_all add: kind_def\<close>)
qed

lemma acquire_lock_ok:
  assumes "heads_ok addr c" "refs_ok c" "acquire_lock c t l = Some r"
  shows "\<exists>e. r = ex c e \<and> op_ok addr c e"
proof -
  obtain h e where h: "map_of (thread_heads c) t = Some h" "alloc_lock_acquire t l h (map_of (lock_heads c) l) = Some e" "r = ex c e"
    using assms(3) live_head_Some [of c t]
    by (cases "map_of (lock_heads c) l") (auto simp: acquire_lock_def op_unfold split: if_split_asm)
  have lp: "set_option (map_of (lock_heads c) l) \<subseteq> cfg_events c" using lock_head_in [OF assms(2)] by auto
  then have a: "pred_option (allocated addr) (map_of (lock_heads c) l)"
    using cfg_allocated [OF assms(1)] by (cases "map_of (lock_heads c) l") auto
  show ?thesis
    by (rule op_multiI [OF assms(1) h(3,1) shape_lock_acquire [OF h(2)] a_lock_acquire [OF head_allocated [OF assms(1) h(1)] a h(2)]])
       (use alloc_lock_acquire_Some [OF h(2)] lp in \<open>simp_all add: kind_def\<close>)
qed

lemma release_lock_ok:
  assumes "heads_ok addr c" "refs_ok c" "release_lock c t l atomic = Some r"
  shows "\<exists>e. r = ex c e \<and> op_ok addr c e"
proof -
  obtain h lh e where h: "map_of (thread_heads c) t = Some h" "map_of (lock_heads c) l = Some lh"
      "alloc_lock_release t l h lh atomic = Some e" "r = ex c e"
    using assms(3) live_head_Some [of c t] by (auto simp: release_lock_def op_unfold)
  note lp = lock_head_in [OF assms(2) h(2)]
  show ?thesis
    by (rule op_multiI [OF assms(1) h(4,1) shape_lock_release [OF h(3)]
          a_lock_release [OF head_allocated [OF assms(1) h(1)] cfg_allocated [OF assms(1) lp] h(3)]])
       (use alloc_lock_release_Some [OF h(3)] lp in \<open>simp_all add: kind_def\<close>)
qed

lemma destroy_cond_ok:
  assumes "heads_ok addr c" "refs_ok c" "destroy_cond addr c t cv = Some r"
  shows "\<exists>e. r = ex c e \<and> op_ok addr c e"
proof -
  obtain h es e where h: "map_of (thread_heads c) t = Some h" "alloc_condition_variable_destroy addr t cv h es = Some e" "r = ex c e"
      "es = [] \<or> (\<exists>ps. map_of (cond_heads c) cv = Some ps \<and> es = ps @ w2_entry c cv)"
    using assms(3) live_head_Some [of c t]
    by (cases "map_of (cond_heads c) cv") (auto simp: destroy_cond_def op_unfold split: if_split_asm)
  have es: "set es \<subseteq> cfg_events c" 
    using h(4) entry_subset(2) [OF assms(2), of cv] cond_headD [OF _ _ assms(2), of cv] by auto
  show ?thesis
    by (rule op_multiI [OF assms(1) h(3,1) shape_cond_destroy [OF h(2)]
          a_cond_destroy [OF head_allocated [OF assms(1) h(1)] cfg_all_allocated [OF assms(1) es] h(2)]])
       (use alloc_condition_variable_destroy_Some [OF h(2)] es in \<open>simp_all add: kind_def\<close>)
qed

lemma wait1_ok:
  assumes "heads_ok addr c" "refs_ok c" "wait1 addr c t cv l = Some r"
  shows "\<exists>e. r = ex c e \<and> op_ok addr c e"
proof -
  obtain h lh es e where h: "map_of (thread_heads c) t = Some h" "map_of (lock_heads c) l = Some lh"
      "alloc_wait1 addr t cv l h lh es = Some e" "r = ex c e"
      "es = [] \<or> (\<exists>ps. map_of (cond_heads c) cv = Some ps \<and> set es \<subseteq> set ps)"
    using assms(3) live_head_Some [of c t]
    by (cases "map_of (cond_heads c) cv") (auto simp: wait1_def op_unfold wait1_predecessors_cond_def split: if_split_asm)
  note lp = lock_head_in [OF assms(2) h(2)]
  have es: "set es \<subseteq> cfg_events c" by (rule cond_preds_in [OF h(5) assms(2)])
  show ?thesis
    by (rule op_multiI [OF assms(1) h(4,1) shape_wait1 [OF h(3)] a_wait1 [OF head_allocated [OF assms(1) h(1)]
            cfg_allocated [OF assms(1) lp] cfg_all_allocated [OF assms(1) es] h(3)]])
       (use alloc_wait1_Some [OF h(3)] lp es in \<open>simp_all add: kind_def\<close>)
qed

lemma wait2_ok:
  assumes "heads_ok addr c" "refs_ok c" "wait2 c t cv l = Some r"
  shows "\<exists>e. r = ex c e \<and> op_ok addr c e"
proof -
  obtain h lh ps n e where h: "map_of (thread_heads c) t = Some h" "map_of (lock_heads c) l = Some lh"
      "map_of (cond_heads c) cv = Some ps" "wait2_predecessor_cond h ps = Some n"
      "alloc_wait2 t cv l h lh n = Some e" "r = ex c e"
    using assms(3) by (auto simp: wait2_def op_unfold split: if_split_asm)
  note lp = lock_head_in [OF assms(2) h(2)]
  have n: "n \<in> cfg_events c"
    using h(4) cond_head_in [OF assms(2) h(3)] by (auto simp: wait2_predecessor_cond_def find_Some_iff dest: nth_mem)
  show ?thesis
    by (rule op_multiI [OF assms(1) h(6,1) shape_wait2 [OF h(5)] a_wait2 [OF head_allocated [OF assms(1) h(1)]
            cfg_allocated [OF assms(1) lp] cfg_allocated [OF assms(1) n] h(5)]])
       (use alloc_wait2_Some [OF h(5)] lp n in \<open>simp_all add: kind_def\<close>)
qed

lemma notified_head_Some:
  "notified_head c t ps n = Some w \<Longrightarrow> w \<in> set ps \<and> kind w = K_wait1 \<and> map_of (thread_heads c) n = Some w"
  by (auto simp: notified_head_def notified_wait1_predecessor_def op_unfold find_Some_iff split: if_split_asm)

lemma lost_preds_subset: "lost_notification_predecessors_cond h ps = Some es \<Longrightarrow> set es \<subseteq> set ps"
  by (auto simp: lost_notification_predecessors_cond_def split: if_split_asm)

lemma signal_body:
  "body e = Signal cv tp cps \<Longrightarrow> is_lost e = signal_is_lost_of cps \<and> kind e = K_signal \<and> cid e = cv
    \<and> wait_predecessors e = (case signal_wait_predecessor cps of None \<Rightarrow> [] | Some w \<Rightarrow> [w])"
  by (cases e) (simp add: kind_def cid_def)

lemma signal_thread_ok:
  assumes "heads_ok addr c" "refs_ok c" "signal_thread addr c t cv n = Some r"
  shows "\<exists>e. r = ex c e \<and> op_ok addr c e"
proof -
  consider (lost) h es e where "map_of (thread_heads c) t = Some h" "alloc_signal_lost addr t cv h es = Some e" "r = ex c e"
      "es = [] \<or> (\<exists>ps. map_of (cond_heads c) cv = Some ps \<and> lost_notification_predecessors_cond h ps = Some es)"
    | (notify) h ps w e where "map_of (thread_heads c) t = Some h" "map_of (cond_heads c) cv = Some ps"
      "notified_head c t ps n = Some w" "alloc_signal t cv h w = Some e" "r = ex c e"
    using assms(3) live_head_Some [of c t] by (auto simp: signal_thread_def op_unfold split: if_split_asm)
  then show ?thesis
  proof cases
    case lost
    have es: "set es \<subseteq> cfg_events c" 
      using lost(4) lost_preds_subset by (intro cond_preds_in [OF _ assms(2), of _ cv]) blast
    note s = alloc_signal_lost_Some [OF lost(2)]
    have "extends addr c e"
      by (rule extends_multi [OF assms(1) lost(1) shape_signal_lost [OF lost(2)] a_signal_lost [OF
            head_allocated [OF assms(1) lost(1)] cfg_all_allocated [OF assms(1) es] lost(2)]])
         (use s es in simp_all)
    moreover have "is_lost e" using s signal_body [of e cv h "sort_key addr es"] by simp
    ultimately show ?thesis using lost(3) by (auto simp: op_ok_def commit_ready_def)
  next
    case notify
    note w = notified_head_Some [OF notify(3)]
    have wC: "w \<in> cfg_events c" using w cond_head_in [OF assms(2) notify(2)] by auto
    note s = alloc_signal_Some [OF notify(4)]
    have "extends addr c e"
      by (rule extends_multi [OF assms(1) notify(1) shape_signal [OF notify(4)] a_signal [OF
            head_allocated [OF assms(1) notify(1)] cfg_allocated [OF assms(1) wC] notify(4)]])
         (use s wC in simp_all)
    moreover have "wait_predecessors e = [w]" "cid e = cv"
      using s signal_body [of e cv h "[w]"] by (simp_all add: signal_wait_predecessor_def)
    moreover have "w \<in> set (cond_entry c cv)" using w notify(2) by (simp add: cond_entry_def)
    ultimately show ?thesis using notify(5) by (auto simp: op_ok_def commit_ready_def)
  qed
qed

lemma those_subset: "those (map f xs) = Some ys \<Longrightarrow> y \<in> set ys \<Longrightarrow> \<exists>x \<in> set xs. f x = Some y"
  by (induction xs arbitrary: ys) (auto split: option.splits)

lemma broadcast_threads_ok:
  assumes "heads_ok addr c" "refs_ok c" "broadcast_threads addr c t cv ns = Some r"
  shows "\<exists>e. r = ex c e \<and> op_ok addr c e"
proof -
  obtain h es e where h: "map_of (thread_heads c) t = Some h" "alloc_broadcast addr t cv h es = Some e" "r = ex c e"
      "es = [] \<or> (\<exists>ps. map_of (cond_heads c) cv = Some ps \<and> (lost_notification_predecessors_cond h ps = Some es
         \<or> (\<exists>ws. those (map (notified_head c t ps) ns) = Some ws
               \<and> es = ws @ filter (\<lambda>p. \<not> broadcast_pred_skipped h t ns p) ps)))"
    using assms(3) live_head_Some [of c t] by (auto simp: broadcast_threads_def op_unfold split: if_split_asm)
  have "set ws \<subseteq> set ps" if "those (map (notified_head c t ps) ns) = Some ws" for ws ps
    using those_subset [OF that] notified_head_Some by blast
  then have "es = [] \<or> (\<exists>ps. map_of (cond_heads c) cv = Some ps \<and> set es \<subseteq> set ps)"
    using h(4) lost_preds_subset [of h _ es] by fastforce
  then have es: "set es \<subseteq> cfg_events c" by (rule cond_preds_in [OF _ assms(2)])
  show ?thesis
    by (rule op_multiI [OF assms(1) h(3,1) shape_broadcast [OF h(2)]
          a_broadcast [OF head_allocated [OF assms(1) h(1)] cfg_all_allocated [OF assms(1) es] h(2)]])
       (use alloc_broadcast_Some [OF h(2)] es in \<open>simp_all add: kind_def\<close>)
qed

lemma operation_ok:
  assumes "operation addr c r" "heads_ok addr c" "refs_ok c"
  shows "\<exists>e. r = ex c e \<and> op_ok addr c e"
  using assms(1)
  by (cases rule: operation.cases)
     (erule create_thread_ok [OF assms(2)] init_thread_ok [OF assms(2)] join_thread_ok [OF assms(2)]
        exit_thread_ok [OF assms(2)] create_lock_ok [OF assms(2)] destroy_lock_ok [OF assms(2,3)]
        acquire_lock_ok [OF assms(2,3)] release_lock_ok [OF assms(2,3)] create_cond_ok [OF assms(2)]
        destroy_cond_ok [OF assms(2,3)] wait1_ok [OF assms(2,3)] wait2_ok [OF assms(2,3)]
        signal_thread_ok [OF assms(2,3)] broadcast_threads_ok [OF assms(2,3)] local_ok [OF assms(2)]; assumption?)+

section \<open>Properties\<close>

lemma extends_local_config:
  assumes "heads_ok addr c" "extends addr c e"
  shows "is_configuration addr (local_config e)" "local_config e \<subseteq> insert e (cfg_events c)"
proof -
  define c' where "c' = c\<lparr>thread_heads := smap_put (tid e) e (thread_heads c)\<rparr>"
  then have c': "thread_heads c' = smap_put (tid e) e (thread_heads c)" by simp
  have conf: "is_configuration addr (insert e (cfg_events c))"
    using put_head_ok [OF assms c'] put_head_events [OF assms c'] by (simp add: heads_ok_def)
  show sub: "local_config e \<subseteq> insert e (cfg_events c)"
    using configuration_hb [OF _ conf, of _ e] by (auto simp: local_config_def)
  have "causally_closed (local_config e)"
    using hb_pred hb.trans by (auto simp: causally_closed_def local_config_def) blast
  then show "is_configuration addr (local_config e)" by (rule configuration_subset [OF conf sub])
qed

lemma cfg_inv_last_extension: "cfg_inv addr n0 (u, c\<lparr>last_extension := k\<rparr>) \<longleftrightarrow> cfg_inv addr n0 (u, c)"
  by (simp add: cfg_inv_def heads_ok_def refs_ok_def)

lemma op_ok_last_extension: "op_ok addr (c\<lparr>last_extension := k\<rparr>) e \<longleftrightarrow> op_ok addr c e"
  by (simp add: op_ok_def extends_def commit_ready_def cond_entry_def)

text \<open>
  C9. A lock whose head is an acquisition or the return from a wait is held by the thread of that
  event: nobody can acquire or destroy it or return from a wait with it, and no other thread can
  release it or start waiting with it.
\<close>

theorem lock_held_exclusive:
  assumes "map_of (lock_heads c) l = Some h" "kind h = K_lock_acquire \<or> kind h = K_wait2"
  shows "acquire_lock c t l = None \<and> destroy_lock c t l = None \<and> wait2 c t cv l = None
    \<and> (t \<noteq> tid h \<longrightarrow> release_lock c t l atomic = None \<and> wait1 addr c t cv l = None)"
proof -
  have "acquire_lock c t l = None"
    using assms by (auto simp: acquire_lock_def can_acquire_lock_def last_of_lid_def split: bind_splits if_split_asm)
  moreover have "destroy_lock c t l = None"
    using assms by (auto simp: destroy_lock_def alloc_lock_destroy_def ex_opt_def split: bind_splits)
  moreover have "wait2 c t cv l = None"
    using assms by (auto simp: wait2_def alloc_wait2_def ex_opt_def split: bind_splits)
  moreover have "release_lock c t l atomic = None" "wait1 addr c t cv l = None" if "t \<noteq> tid h"
    using assms that
    by (auto simp: release_lock_def wait1_def alloc_lock_release_def alloc_wait1_def ex_opt_def Let_def
        split: bind_splits option.splits)
  ultimately show ?thesis by blast
qed

text \<open>Consecutive operations on one lock.\<close>

definition lock_step_ok :: "'d event \<Rightarrow> 'd event \<Rightarrow> bool" where
  "lock_step_ok x y \<longleftrightarrow> lid y = lid x \<and>
     (if kind x = K_lock_release \<or> kind x = K_wait1
      then (kind y = K_lock_acquire \<or> kind y = K_wait2) \<and> tid y = tid x
      else (kind x = K_lock_acquire \<or> kind x = K_wait2 \<or> kind x = K_lock_destroy)
        \<and> (kind y = K_lock_create \<or> kind y = K_lock_release \<or> kind y = K_wait1))"

lemma lock_pred_step:
  assumes "allocated addr e" "lock_predecessor e = Some p"
  shows "lock_step_ok e p"
  using assms(1)
proof (cases rule: allocated.cases)
  case (a_lock_destroy tp lp t l)
  then show ?thesis using alloc_lock_destroy_Some [OF a_lock_destroy(3)] assms(2)
    by (auto simp: lock_step_ok_def lock_predecessor_def kind_def lid_def)
next
  case (a_lock_acquire tp lp t l)
  then show ?thesis using alloc_lock_acquire_Some [OF a_lock_acquire(3)] assms(2)
    by (auto simp: lock_step_ok_def lock_predecessor_def kind_def lid_def)
next
  case (a_lock_release tp lp t l atomic)
  then show ?thesis using alloc_lock_release_Some [OF a_lock_release(3)] assms(2)
    by (auto simp: lock_step_ok_def lock_predecessor_def kind_def lid_def)
next
  case (a_wait1 tp lp cps t c l)
  then show ?thesis using alloc_wait1_Some [OF a_wait1(4)] assms(2)
    by (auto simp: lock_step_ok_def lock_predecessor_def kind_def lid_def)
next
  case (a_wait2 tp lp n t c l)
  then show ?thesis using alloc_wait2_Some [OF a_wait2(4)] assms(2)
    by (auto simp: lock_step_ok_def lock_predecessor_def kind_def lid_def)
qed (use assms(2) in \<open>auto dest!: alloc_Some simp: lock_predecessor_def program_init_def\<close>)

text \<open>
  C10. Going back from any event along its lock predecessors, acquisitions and releases of the
  lock alternate and every release (or wait) is by the thread that acquired it: the recorded
  history of a lock is one critical section after the other.
\<close>

theorem lock_history_alternates:
  assumes "allocated addr e"
  shows "successively lock_step_ok (lock_chain e)"
  using assms
proof (induction e rule: lock_chain.induct)
  case (1 e)
  show ?case
  proof (cases "lock_predecessor e")
    case None
    then show ?thesis by (simp add: lock_chain.simps [of e])
  next
    case (Some p)
    have "allocated addr p" using allocated_pred [OF "1.prems" lock_pred_in_preds [OF Some]] .
    then have "successively lock_step_ok (lock_chain p)" using "1.IH" [OF Some] by blast
    moreover have "lock_step_ok e p" by (rule lock_pred_step [OF "1.prems" Some])
    ultimately show ?thesis
      using Some by (simp add: lock_chain.simps [of e] lock_chain.simps [of p] successively_Cons)
  qed
qed

section \<open>The initial configuration\<close>

lemma add_thread_new:
  "\<exists>u. add_thread (unfolding_new n0, []) = Some (u, [(Thread_Id [1], ex_init)])
    \<and> unf_ok depth n0 u \<and> unf_set u = {ex_init, program_init}"
proof -
  have new: "ex_init \<notin> unf_set (unfolding_new n0)" by (simp add: ex_distinct)
  obtain t where t: "deduplicate False ex_init (unfolding_new n0) = Some (t, True, ex_init)" "unf_ok depth n0 t"
      "unf_set t = insert ex_init {program_init}"
    using deduplicate_new [OF unfolding_new_ok ex_init_addable new, of False] by auto
  let ?u = "stats_inc_event_created K_thread_init t"
  have "unf_ok depth n0 ?u" "unf_set ?u = {ex_init, program_init}"
    using unf_ok_cong [of ?u t depth n0] unf_set_cong [of ?u t] t(2,3) by (simp_all add: stats_inc_event_created_def)
  moreover have "tid_child tid_none 1 = Some (Thread_Id [1])" by (simp add: tid_child_def tid_none_def)
  moreover have "thread_creation_predecessor ex_init = Some program_init" by (simp add: ex_init_def)
  ultimately show ?thesis using t(1) ex_alloc(1) by (simp add: add_thread_def smap_has_def)
qed

lemma configuration_new_inv:
  "\<exists>u c. configuration_new n0 = Some (u, c) \<and> cfg_inv depth n0 (u, c)
    \<and> thread_heads c = [(Thread_Id [1], ex_init)] \<and> lock_heads c = [] \<and> used_lock_ids c = {}
    \<and> unf_set u = {ex_init, program_init}"
proof -
  obtain u where u: "add_thread (unfolding_new n0, []) = Some (u, [(Thread_Id [1], ex_init)])"
      "unf_ok depth n0 u" "unf_set u = {ex_init, program_init}"
    using add_thread_new by blast
  let ?u = "stats_inc_unique_event K_program_init (stats_inc_event_created K_program_init u)"
  have u': "unf_ok depth n0 ?u" "unf_set ?u = {ex_init, program_init}"
    using unf_ok_cong [of ?u u depth n0] unf_set_cong [of ?u u] u(2,3)
    by (simp_all add: stats_inc_event_created_def stats_inc_unique_event_def)
  define c :: "nat cfg" where "c = \<lparr>thread_heads = [(Thread_Id [1], ex_init)], lock_heads = [], cond_heads = [],
    w2_heads = [], used_cond_ids = {}, used_lock_ids = {}, c_size = 2, last_extension = 0\<rparr>"
  have E: "cfg_events c = {ex_init, program_init}" by (simp add: c_def cfg_list_def ex_chain)
  have "is_configuration depth {ex_init, program_init}"
    by (rule configuration_subset [OF ex_configuration])
       (auto simp: ex_set_def causally_closed_def predecessors_def ex_init_def program_init_def)
  then have "heads_ok depth c" unfolding heads_ok_def E by (simp add: c_def smap_ok_def ex_init_def tid_empty_def)
  moreover have "refs_ok c" by (simp add: refs_ok_def c_def)
  moreover have "c_size c = card (cfg_events c)" unfolding E by (simp add: c_def ex_distinct)
  ultimately have "cfg_inv depth n0 (?u, c)" using u' E by (simp add: cfg_inv_def)
  moreover have "configuration_new n0 = Some (?u, c)" using u(1) by (simp add: configuration_new_def construct_def c_def)
  ultimately show ?thesis using u'(2) by (auto simp: c_def)
qed

section \<open>Examples\<close>

theorem configuration_iterator_enumerates_witness:
  "\<exists>u c. configuration_new 0 = Some (u, c) \<and> ci_collect 2 (ci_begin c) = Some [ex_init, program_init]"
proof -
  obtain u c where c: "configuration_new 0 = Some (u, c)" "heads_ok depth c" "thread_heads c = [(Thread_Id [1], ex_init)]"
    using configuration_new_inv [of 0] by (auto simp: cfg_inv_def)
  have "cfg_list c = [ex_init, program_init]" using c(3) by (simp add: cfg_list_def ex_chain)
  then show ?thesis using configuration_iterator_enumerates [OF c(2)] c(1) by (auto simp: numeral_2_eq_2)
qed

definition ex_lock :: "nat event" where
  "ex_lock = Event (Thread_Id [1]) [(Thread_Id [1], ex_init)] 2 (Lock_Create 1 ex_init)"

lemma ex_lock_alloc: "alloc_lock_create (Thread_Id [1]) 1 ex_init = Some ex_lock"
  by (simp add: ex_lock_def ex_init_def alloc_lock_create_def event_single_def cone_of_event_def kind_def
      thread_pred_ok_def tid_empty_def)

definition ex_acquire :: "nat event" where
  "ex_acquire = Event (Thread_Id [1]) [(Thread_Id [1], ex_lock)] 3 (Lock_Acquire 1 ex_lock (Some ex_lock))"

definition ex_held :: "nat cfg" where
  "ex_held = \<lparr>thread_heads = [(Thread_Id [1], ex_acquire)], lock_heads = [(1, ex_acquire)], cond_heads = [],
    w2_heads = [], used_cond_ids = {}, used_lock_ids = {1}, c_size = 4, last_extension = 2\<rparr>"

theorem lock_held_exclusive_witness:
  "acquire_lock ex_held (Thread_Id [1]) 1 = None \<and> release_lock ex_held (Thread_Id [2]) 1 False = None"
proof -
  have "map_of (lock_heads ex_held) 1 = Some ex_acquire" by (simp add: ex_held_def)
  moreover have "kind ex_acquire = K_lock_acquire" "tid ex_acquire = Thread_Id [1]"
    by (simp_all add: ex_acquire_def kind_def)
  ultimately show ?thesis
    using lock_held_exclusive [of ex_held 1 ex_acquire "Thread_Id [1]"]
      lock_held_exclusive [of ex_held 1 ex_acquire "Thread_Id [2]" _ False] by simp
qed

lemma ex_acquire_allocated: "allocated addr ex_acquire"
proof -
  have l: "allocated addr ex_lock" by (rule a_lock_create [OF ex_allocated(1) ex_lock_alloc])
  have "alloc_lock_acquire (Thread_Id [1]) 1 ex_lock (Some ex_lock) = Some ex_acquire"
    by (simp add: ex_acquire_def alloc_lock_acquire_def event_multi_def cone_of_events_def cone_insert_def
        cone_update_def cone_max_depth_def cone_events_def thread_pred_ok_def ex_lock_def ex_init_def kind_def lid_def tid_empty_def Let_def)
  then show ?thesis using l by (intro a_lock_acquire [OF l]) auto
qed

theorem lock_history_alternates_witness:
  "lock_chain ex_acquire = [ex_acquire, ex_lock] \<and> successively lock_step_ok [ex_acquire, ex_lock]"
proof -
  have "lock_chain ex_acquire = [ex_acquire, ex_lock]"
    by (simp add: lock_chain.simps [of ex_acquire] lock_chain.simps [of ex_lock] lock_predecessor_def)
       (simp add: ex_acquire_def ex_lock_def lock_chain.simps lock_predecessor_def)
  then show ?thesis using lock_history_alternates [OF ex_acquire_allocated [of "\<lambda>_. 0"]] by simp
qed

end
