(* ===== verification/Run_Invariant.thy ===== *)
theory Run_Invariant
  imports Commit
begin

text \<open>
  The invariant that a configuration and its unfolding keep while an execution adds events to
  them: besides the invariant of \<^verbatim>\<open>commit\<close>, the heads of the locks are their last events, all used
  locks are recorded, and no two events of the configuration are in conflict. From these follows
  that the event of every operation is fit for being deduplicated and committed.
\<close>

section \<open>The locks of a configuration\<close>

text \<open>
  The ids of all locks that were operated on are recorded as used, and the head of a lock is the
  last of its events.
\<close>

definition lock_use_ok :: "'d cfg \<Rightarrow> bool" where
  "lock_use_ok c \<longleftrightarrow> (\<forall>x \<in> cfg_events c. lid x \<noteq> 0 \<longrightarrow> lid x \<in> used_lock_ids c
     \<and> (\<forall>h. map_of (lock_heads c) (lid x) = Some h \<longrightarrow> x = h \<or> hb x h))"

text \<open>How the event of an operation uses its lock, and that a created thread is new.\<close>

definition op_ids_ok :: "'d cfg \<Rightarrow> 'd event \<Rightarrow> bool" where
  "op_ids_ok c e \<longleftrightarrow>
     (is_lock_kind (kind e) \<longrightarrow> lid e \<noteq> 0 \<and> lock_predecessor e = map_of (lock_heads c) (lid e)
        \<and> (lock_predecessor e = None \<longrightarrow> kind e = K_lock_destroy \<or> lid e \<notin> used_lock_ids c
             \<and> (kind e = K_lock_create \<or> kind e = K_lock_acquire)))
     \<and> (kind e = K_thread_create \<longrightarrow> map_of (thread_heads c) (created_tid e) = None)"

lemma created_tid_body: "body e = Thread_Create tp n \<Longrightarrow> created_tid e = n"
  by (cases e) simp

lemma destroy_lock_ids:
  assumes "heads_ok addr c" "refs_ok c" "destroy_lock c t l = Some r"
  shows "op_ids_ok c (ext_event (snd r))"
proof -
  obtain h e where h: "alloc_lock_destroy t l h (map_of (lock_heads c) l) = Some e" "r = ex c e"
      "map_of (lock_heads c) l = None \<longrightarrow> l \<noteq> 0"
    using assms(3) by (cases "map_of (lock_heads c) l") (auto simp: destroy_lock_def op_unfold split: if_split_asm)
  note b = alloc_lock_destroy_Some [OF h(1)]
  have "l \<noteq> 0"
  proof (cases "map_of (lock_heads c) l")
    case (Some p)
    then have "ids_ok p" using allocated_ids_ok [OF cfg_allocated [OF assms(1) lock_head_in [OF assms(2)]]] by blast
    then show ?thesis using b Some by (auto simp: ids_ok_def is_lock_kind_def)
  qed (use h(3) in simp)
  then show ?thesis using b h(2) by (simp add: op_ids_ok_def ex_def kind_def lid_def lock_predecessor_def)
qed

lemma acquire_lock_ids: "acquire_lock c t l = Some r \<Longrightarrow> op_ids_ok c (ext_event (snd r))"
  by (cases "map_of (lock_heads c) l")
     (auto simp: acquire_lock_def op_unfold ex_def can_acquire_lock_def last_of_lid_def op_ids_ok_def kind_def lid_def
       lock_predecessor_def split: if_split_asm dest!: alloc_lock_acquire_Some)

lemma create_lock_ids: "create_lock c t l = Some r \<Longrightarrow> op_ids_ok c (ext_event (snd r))"
  by (auto simp: create_lock_def op_unfold ex_def smap_has_def op_ids_ok_def kind_def lid_def
       lock_predecessor_def split: if_split_asm dest!: alloc_lock_create_Some)

lemma lock_use_ids:
  "release_lock c t l atomic = Some r \<Longrightarrow> op_ids_ok c (ext_event (snd r))"
  "wait1 addr c t cv l = Some r \<Longrightarrow> op_ids_ok c (ext_event (snd r))"
  "wait2 c t cv l = Some r \<Longrightarrow> op_ids_ok c (ext_event (snd r))"
  by (auto simp: release_lock_def wait1_def wait2_def op_unfold ex_def op_ids_ok_def kind_def lid_def
       lock_predecessor_def split: if_split_asm option.splits
       dest!: alloc_lock_release_Some alloc_wait1_Some alloc_wait2_Some)

lemma no_lock_ids:
  "kind e \<notin> {K_lock_create, K_lock_acquire, K_lock_release, K_lock_destroy, K_wait1, K_wait2, K_thread_create}
    \<Longrightarrow> op_ids_ok c e"
  by (simp add: op_ids_ok_def is_lock_kind_def)

lemma thread_ids:
  "create_thread c t n = Some r \<Longrightarrow> op_ids_ok c (ext_event (snd r))"
  "init_thread c t from = Some r \<Longrightarrow> op_ids_ok c (ext_event (snd r))"
  "join_thread c t joined = Some r \<Longrightarrow> op_ids_ok c (ext_event (snd r))"
  "exit_thread c t atomic = Some r \<Longrightarrow> op_ids_ok c (ext_event (snd r))"
  "local c t path = Some r \<Longrightarrow> op_ids_ok c (ext_event (snd r))"
  by (auto simp: create_thread_def init_thread_def join_thread_def exit_thread_def local_def op_unfold ex_def
       smap_has_def op_ids_ok_def is_lock_kind_def kind_def created_tid_body split: if_split_asm
       dest!: alloc_thread_create_Some alloc_thread_init_Some alloc_thread_join_Some alloc_thread_exit_Some alloc_local_Some)

lemma cond_ids:
  "create_cond c t cv = Some r \<Longrightarrow> op_ids_ok c (ext_event (snd r))"
  "destroy_cond addr c t cv = Some r \<Longrightarrow> op_ids_ok c (ext_event (snd r))"
  "signal_thread addr c t cv n = Some r \<Longrightarrow> op_ids_ok c (ext_event (snd r))"
  "broadcast_threads addr c t cv ns = Some r \<Longrightarrow> op_ids_ok c (ext_event (snd r))"
  by (auto simp: create_cond_def destroy_cond_def signal_thread_def broadcast_threads_def op_unfold ex_def Let_def
       intro!: no_lock_ids simp: kind_def split: if_split_asm option.splits dest!: alloc_condition_variable_create_Some
       alloc_condition_variable_destroy_Some alloc_signal_Some alloc_signal_lost_Some alloc_broadcast_Some)

lemma operation_ids:
  assumes "operation addr c r" "heads_ok addr c" "refs_ok c"
  shows "op_ids_ok c (ext_event (snd r))"
  using assms(1)
  by (cases rule: operation.cases)
     (erule thread_ids cond_ids lock_use_ids create_lock_ids acquire_lock_ids destroy_lock_ids [OF assms(2,3)])+

text \<open>What a commit does to the lock heads and the used ids.\<close>

lemma commit_heads_locks:
  assumes "commit_heads e c = Some c'"
  shows "lock_heads c' = (if \<not> is_lock_kind (kind e) then lock_heads c
      else if kind e \<noteq> K_lock_destroy then smap_put (lid e) e (lock_heads c)
      else if lock_predecessor e = None then lock_heads c else smap_erase (lid e) (lock_heads c))"
    "used_lock_ids c' = (if kind e = K_lock_create \<or> (kind e = K_lock_acquire \<or> kind e = K_lock_destroy) \<and> lock_predecessor e = None
      then insert (lid e) (used_lock_ids c) else used_lock_ids c)"
  using assms
  by (cases "kind e"; auto simp: commit_heads_def is_lock_kind_def Let_def set_lock_head_def first_use_lock_def set_cond_heads_def
      first_use_cond_def op_unfold split: if_split_asm)+

text \<open>A lock that is destroyed without being in use was not destroyed before.\<close>

definition destroyed_once :: "'d cfg \<Rightarrow> 'd event \<Rightarrow> bool" where
  "destroyed_once c e \<longleftrightarrow> (kind e = K_lock_destroy \<and> lock_predecessor e = None \<longrightarrow> lid e \<notin> used_lock_ids c)"

lemma lock_below:
  assumes "lock_use_ok c" "op_ids_ok c e" "destroyed_once c e" "x \<in> cfg_events c" "lid x = lid e" "lid e \<noteq> 0"
  shows "hb x e"
proof (cases "lock_predecessor e")
  case None
  then have "lid e \<notin> used_lock_ids c"
    using assms(2,3) lid_kind [OF assms(6)] by (auto simp: op_ids_ok_def destroyed_once_def)
  then show ?thesis using assms(1,4,5,6) by (auto simp: lock_use_ok_def)
next
  case (Some p)
  then have "map_of (lock_heads c) (lid x) = Some p" using assms(2,5) lid_kind [OF assms(6)] by (simp add: op_ids_ok_def)
  then have "x = p \<or> hb x p" using assms(1,4,5,6) by (auto simp: lock_use_ok_def)
  then show ?thesis using hb_pred [OF lock_pred_in_preds [OF Some]] hb.trans by blast
qed

lemma commit_lock_use:
  assumes ok: "lock_use_ok c" "refs_ok c" "op_ids_ok c e" "destroyed_once c e"
    and c': "cfg_events c' = insert e (cfg_events c)" "commit_heads e d = Some c'"
      "lock_heads d = lock_heads c" "used_lock_ids d = used_lock_ids c"
  shows "lock_use_ok c'"
  unfolding lock_use_ok_def
proof (intro ballI impI conjI allI)
  note L = commit_heads_locks [OF c'(2), unfolded c'(3,4)]
  have smap: "smap_ok (lock_heads c)" using ok(2) by (simp add: refs_ok_def)
  fix x assume x: "x \<in> cfg_events c'" "lid x \<noteq> 0"
  show "lid x \<in> used_lock_ids c'"
  proof (cases "x = e")
    case True
    note k = lid_kind [OF x(2)]
    show ?thesis
    proof (cases "lock_predecessor e")
      case None
      then show ?thesis using ok(3) k True L(2) by (auto simp: op_ids_ok_def)
    next
      case (Some p)
      then have "map_of (lock_heads c) (lid e) = Some p" using ok(3) k True by (simp add: op_ids_ok_def)
      then have "p \<in> cfg_events c" "lid p = lid e" using ok(2) by (auto simp: refs_ok_def)
      then show ?thesis using ok(1) x(2) True L(2) by (auto simp: lock_use_ok_def)
    qed
  qed (use ok(1) x c'(1) L(2) in \<open>auto simp: lock_use_ok_def\<close>)
  fix h assume h: "map_of (lock_heads c') (lid x) = Some h"
  show "x = h \<or> hb x h"
  proof (cases "lid x = lid e")
    case True
    note k = lid_kind [of e]
    have "h = e"
      using h True x(2) k ok(3) L(1) smap
      by (auto simp: map_of_smap_put map_of_smap_erase op_ids_ok_def split: if_split_asm)
    then show ?thesis using lock_below [OF ok(1,3,4), of x] x True c'(1) by auto
  next
    case False
    then have "x \<in> cfg_events c" "map_of (lock_heads c) (lid x) = Some h"
      using h x(1) c'(1) L(1) smap by (auto simp: map_of_smap_put map_of_smap_erase split: if_split_asm)
    then show ?thesis using ok(1) x(2) by (auto simp: lock_use_ok_def)
  qed
qed

section \<open>Conflicts in a configuration\<close>

text \<open>No two events of the configuration are recorded as being in conflict.\<close>

definition conflict_free :: "'d unf \<Rightarrow> 'd cfg \<Rightarrow> bool" where
  "conflict_free u c \<longleftrightarrow> (\<forall>p \<in> cfg_events c. \<forall>q \<in> cfg_events c. q \<notin> set (u_conflicts u p))"

text \<open>The events of the configuration that a new event depends on are causes of it.\<close>

definition dependents_below :: "'d cfg \<Rightarrow> 'd event \<Rightarrow> bool" where
  "dependents_below c e \<longleftrightarrow> (\<forall>x \<in> cfg_events c. is_independent_of e x = Some False \<longrightarrow> hb x e)"

text \<open>The operations for which this always holds.\<close>

definition ordered_kind :: "event_kind \<Rightarrow> bool" where
  "ordered_kind k \<longleftrightarrow> k \<in> {K_local, K_thread_create, K_thread_exit, K_lock_create, K_lock_acquire,
     K_lock_release, K_lock_destroy}"

lemma dependentD:
  assumes "event_facts a" "event_facts b" "is_independent_of a b = Some False"
  shows "tid b = tid a \<or> kind a = K_program_init \<or> kind b = K_program_init
    \<or> \<not> thread_is_independent a b \<or> same_lock a b \<or> cond_dep a b"
proof (cases "row_guard a b")
  case True
  then show ?thesis using independence_char [OF assms(1,2) True] assms(3) by auto
next
  case False
  then show ?thesis using assms(3) by (auto simp: row_guard_def is_independent_of_def split: if_split_asm)
qed

lemma pred_not_exit:
  assumes "allocated addr e" "thread_predecessor e = Some p"
  shows "kind p \<noteq> K_thread_exit"
  using assms
  by (cases rule: allocated.cases)
     (auto dest!: alloc_Some simp: thread_predecessor_def thread_pred_ok_def program_init_def)

lemma chain_exit:
  assumes "allocated addr h" "j \<in> set (thread_chain h)" "kind j = K_thread_exit"
  shows "j = h"
  using assms
proof (induction h rule: thread_chain.induct)
  case (1 h)
  show ?case
  proof (cases "j = h")
    case False
    then obtain p where p: "thread_predecessor h = Some p" "j \<in> set (thread_chain p)"
      using "1.prems"(2) by (cases "thread_predecessor h") (auto simp: thread_chain.simps [of h])
    have "j = p" using "1.IH" [OF p(1) _ p(2)] allocated_pred [OF "1.prems"(1) thread_pred_in_preds [OF p(1)]] "1.prems"(3) by blast
    then show ?thesis using pred_not_exit [OF "1.prems"(1) p(1)] "1.prems"(3) by blast
  qed
qed

lemma cfg_thread:
  assumes "heads_ok addr c" "x \<in> cfg_events c" "x \<noteq> program_init"
  shows "\<exists>h. map_of (thread_heads c) (tid x) = Some h \<and> x \<in> set (thread_chain h)"
proof -
  obtain t h where h: "map_of (thread_heads c) t = Some h" "x \<in> set (thread_chain h)"
    using assms set_cfg_list [of c] by (auto simp: heads_ok_def)
  have "tid x = t" using thread_chain_tid [OF h(2) head_allocated [OF assms(1) h(1)]] assms(1) h(1)
    by (auto simp: heads_ok_def)
  then show ?thesis using h by blast
qed

lemma extends_chain:
  assumes "heads_ok addr c" "extends addr c e" "x \<in> cfg_events c" "tid x = tid e"
  shows "x \<in> set (thread_chain e) \<and> x \<noteq> e \<and> map_of (thread_heads c) (tid e) \<noteq> None"
proof -
  have "x \<noteq> program_init" using assms(2,4) by (cases "tid e") (auto simp: extends_def program_init_def tid_none_def tid_empty_def)
  then obtain h where h: "map_of (thread_heads c) (tid e) = Some h" "x \<in> set (thread_chain h)"
    using cfg_thread [OF assms(1,3)] assms(4) by auto
  then show ?thesis
    using h assms(2,3,4) extends_new [OF assms(1,2)] by (auto simp: extends_def thread_chain.simps [of e])
qed

lemma join_body: "kind x = K_thread_join \<Longrightarrow> \<exists>tp j. body x = Thread_Join tp j \<and> joined_thread x = tid j"
  by (cases x rule: joined_thread.cases) (auto simp: kind_def)

lemma join_exit: "allocated addr x \<Longrightarrow> body x = Thread_Join tp j \<Longrightarrow> kind j = K_thread_exit"
  by (cases rule: allocated.cases) (auto dest!: alloc_Some simp: program_init_def)

lemma thread_dependent:
  assumes "heads_ok addr c" "extends addr c e" "op_ids_ok c e" "x \<in> cfg_events c" "ordered_kind (kind e)"
  shows "thread_is_independent e x"
proof (rule ccontr)
  assume n: "\<not> thread_is_independent e x"
  have ax: "allocated addr x" by (rule cfg_allocated [OF assms(1,4)])
  consider (create) "kind e = K_thread_create" "kind x = K_thread_init" "tid x = created_tid e"
    | (exit) "kind e = K_thread_exit" "kind x = K_thread_join" "joined_thread x = tid e"
    using n assms(5) by (cases "kind x") (auto simp: ordered_kind_def thread_is_independent_def thread_event_is_independent_def is_thread_kind_def)
  then show False
  proof cases
    case create
    have "x \<noteq> program_init" using create(2) by auto
    then obtain h where h: "map_of (thread_heads c) (tid x) = Some h" using cfg_thread [OF assms(1,4)] by blast
    then show False using h create assms(3) by (simp add: op_ids_ok_def)
  next
    case exit
    obtain tp j where j: "body x = Thread_Join tp j" "tid j = tid e" using join_body [OF exit(2)] exit(3) by auto
    have "j \<in> set (predecessors x)" using j(1) by (simp add: predecessors_def)
    then have "j \<in> cfg_events c" using assms(1,4) by (auto simp: heads_ok_def is_configuration_def causally_closed_def)
    then have "j \<in> set (thread_chain e)" "j \<noteq> e" using extends_chain [OF assms(1,2) _ j(2)] by blast+
    moreover have "allocated addr e" using assms(2) by (simp add: extends_def)
    ultimately show False using chain_exit [OF _ _ join_exit [OF ax j(1)]] by blast
  qed
qed

lemma ordered_dependents_below:
  assumes "heads_ok addr c" "lock_use_ok c" "extends addr c e" "op_ids_ok c e" "destroyed_once c e" "ordered_kind (kind e)"
    and facts: "event_facts e" "\<forall>x \<in> cfg_events c. event_facts x"
  shows "dependents_below c e"
  unfolding dependents_below_def
proof (intro ballI impI)
  fix x assume x: "x \<in> cfg_events c" "is_independent_of e x = Some False"
  have e: "allocated addr e" "e \<noteq> program_init" using assms(3) allocated_tid [of addr e] by (auto simp: extends_def)
  have c: "\<not> cond_dep e x" by (rule no_cond_row [OF facts(1)]) (use assms(6) in \<open>auto simp: ordered_kind_def is_cond_kind_def\<close>)
  consider "tid x = tid e" | "kind x = K_program_init" | "same_lock e x"
    using dependentD [OF facts(1) _ x(2)] facts(2) x(1) c thread_dependent [OF assms(1,3,4) x(1) assms(6)]
      allocated_root [OF e(1)] e(2) by blast
  then show "hb x e"
  proof cases
    case 1
    then show ?thesis using extends_chain [OF assms(1,3) x(1)] thread_chain_hb by blast
  next
    case 2
    then show ?thesis using allocated_root [OF cfg_allocated [OF assms(1) x(1)]] root_hb [OF e(1)] e(2) by simp
  next
    case 3
    then show ?thesis using lock_below [OF assms(2,4,5) x(1)] by (simp add: same_lock_def)
  qed
qed

lemma deduplicate_conflicts:
  assumes "unf_ok addr n0 s" "e \<in> unf_set s \<or> addable addr s e" "deduplicate md e s = Some (t, b, e)"
    and "p \<noteq> e" "q \<noteq> e" "q \<in> set (u_conflicts t p)"
  shows "q \<in> set (u_conflicts s p)"
proof (cases "e \<in> unf_set s")
  case True
  then show ?thesis using deduplicate_known [OF assms(1) True, of md] assms(3,6) by auto
next
  case False
  then have "addable addr s e" using assms(2) by blast
  then show ?thesis using deduplicate_new [OF assms(1) _ False, of md] assms(3-6) by auto
qed

text \<open>A commit keeps the configuration free of conflicts if the dependent events are causes.\<close>

lemma conflict_free_insert:
  assumes "conflict_free u c" "dependents_below c e" "unf_ok addr n0 u'" "e \<in> unf_set u'"
    and "cfg_events c' = insert e (cfg_events c)"
    and old: "\<And>p q. p \<noteq> e \<Longrightarrow> q \<noteq> e \<Longrightarrow> q \<in> set (u_conflicts u' p) \<Longrightarrow> q \<in> set (u_conflicts u p)"
  shows "conflict_free u' c'"
proof -
  have cfl: "\<And>a b. b \<in> set (u_conflicts u' a) \<longleftrightarrow> a \<in> set (u_conflicts u' b)"
      "\<And>a b. b \<in> set (u_conflicts u' a) \<Longrightarrow> is_independent_of a b = Some False"
      "\<And>p q. p \<in> local_config e \<Longrightarrow> q \<in> local_config e \<Longrightarrow> q \<notin> set (u_conflicts u' p)"
    using assms(3,4) unfolding unf_ok_def conflicts_ok_def by blast+
  have e: "x \<notin> set (u_conflicts u' e)" if "x \<in> insert e (cfg_events c)" for x
  proof
    assume "x \<in> set (u_conflicts u' e)"
    moreover from this have "x = e \<or> hb x e" using cfl(2) that assms(2) by (auto simp: dependents_below_def)
    ultimately show False using cfl(3) [of e x] by (auto simp: local_config_def)
  qed
  show ?thesis
    unfolding conflict_free_def assms(5)
  proof (intro ballI notI)
    fix p q assume pq: "p \<in> insert e (cfg_events c)" "q \<in> insert e (cfg_events c)" "q \<in> set (u_conflicts u' p)"
    then have "p \<noteq> e" "q \<noteq> e" using e cfl(1) by blast+
    then show False using pq old assms(1) by (auto simp: conflict_free_def)
  qed
qed

lemma op_addable:
  assumes inv: "cfg_inv addr n0 (u, c)" "lock_use_ok c" "conflict_free u c"
    and e: "extends addr c e" "op_ids_ok c e" "destroyed_once c e" "inj_on addr (insert e (unf_set u))"
  shows "addable addr u e"
proof -
  have ok: "heads_ok addr c" "cfg_events c \<subseteq> unf_set u" using inv(1) by (simp_all add: cfg_inv_def)
  have "lid tp \<noteq> lid e"
    if "thread_predecessor e = Some tp" "kind e = K_lock_acquire \<or> kind e = K_lock_destroy" "lock_predecessor e = None" for tp
  proof -
    have "lid e \<noteq> 0" "lid e \<notin> used_lock_ids c" using that(2,3) e(2,3) by (auto simp: op_ids_ok_def is_lock_kind_def destroyed_once_def)
    moreover have "tp \<in> cfg_events c" using e(1) thread_pred_in_preds [OF that(1)] by (auto simp: extends_def)
    ultimately show ?thesis using inv(2) by (auto simp: lock_use_ok_def)
  qed
  then have "lock_pred_complete e" by (cases "thread_predecessor e") (auto simp: lock_pred_complete_def)
  moreover have "kind e = K_lock_destroy \<longrightarrow> lid e \<noteq> 0" using e(2) by (simp add: op_ids_ok_def is_lock_kind_def)
  moreover have "causes_free u e"
  proof -
    have "p \<in> cfg_events c" if "hb p e" for p
      using extends_local_config(2) [OF ok(1) e(1)] that hb.irrefl by (auto simp: local_config_def)
    then show ?thesis using inv(3) by (simp add: causes_free_def conflict_free_def)
  qed
  moreover have "e \<noteq> program_init" using e(1) allocated_tid [of addr e] by (auto simp: extends_def)
  moreover have "set (predecessors e) \<subseteq> unf_set u" using e(1) ok(2) by (auto simp: extends_def)
  ultimately show ?thesis using extends_local_config(1) [OF ok(1) e(1)] e(4) by (simp add: addable_def event_ok_def)
qed

lemma commit_Some:
  assumes "commit x (u, c) = Some (u', c', e)"
  shows "\<exists>u1 b. deduplicate (ext_metadata x) (ext_event x) u = Some (u1, b, e) \<and> u_conflicts u' = u_conflicts u1
    \<and> commit_heads e (c\<lparr>thread_heads := smap_put (tid e) e (thread_heads c), c_size := c_size c + 1\<rparr>) = Some c'"
  using assms by (auto simp: commit_def op_unfold Let_def stats_inc_event_created_def split: if_split_asm)

text \<open>The state of an exploration between two operations.\<close>

definition run_inv :: "('d event \<Rightarrow> nat) \<Rightarrow> nat \<Rightarrow> 'd unf \<times> 'd cfg \<Rightarrow> bool" where
  "run_inv addr n0 = (\<lambda>(u, c). cfg_inv addr n0 (u, c) \<and> lock_use_ok c \<and> conflict_free u c)"

section \<open>Properties\<close>

text \<open>
  C2. Every operation of a configuration, once committed, adds exactly one event: the commit does
  not abort, the event was not in the configuration before, the events remain a configuration
  (closed under causes, one chain per thread) whose size is counted correctly, all heads refer to
  events of the configuration, the head of a lock is its last event, and the unfolding keeps its
  invariant. Assumed are distinct addresses of events, that a lock is not destroyed a second
  time, and that the configuration has no two events in conflict. The latter is kept as well by
  local, thread creation, thread exit and all lock operations, and by the others (thread
  initialisation, join, condition variable operations) whenever the new event has the events of
  the configuration it depends on among its causes.
\<close>

theorem operation_commit_invariant:
  assumes "run_inv addr n0 (u, c)" "operation addr c (c1, x)"
    and "inj_on addr (insert (ext_event x) (unf_set u))" "destroyed_once c (ext_event x)"
  shows "\<exists>u' c'. commit x (u, c1) = Some (u', c', ext_event x) \<and> cfg_inv addr n0 (u', c') \<and> lock_use_ok c'
    \<and> (ordered_kind (kind (ext_event x)) \<or> dependents_below c (ext_event x) \<longrightarrow> run_inv addr n0 (u', c'))
    \<and> ext_event x \<notin> cfg_events c \<and> cfg_events c' = insert (ext_event x) (cfg_events c)
    \<and> unf_set u' = insert (ext_event x) (unf_set u)"
proof -
  have inv: "cfg_inv addr n0 (u, c)" "lock_use_ok c" "conflict_free u c" using assms(1) by (simp_all add: run_inv_def)
  then have ok: "heads_ok addr c" "refs_ok c" "cfg_events c \<subseteq> unf_set u" "unf_ok addr n0 u" by (simp_all add: cfg_inv_def)
  obtain e where e: "(c1, x) = ex c e" "op_ok addr c e" using operation_ok [OF assms(2) ok(1,2)] by blast
  then have x: "ext_event x = e" "ext_index x = last_extension c1" "c1 = c\<lparr>last_extension := last_extension c + 1\<rparr>"
    by (simp_all add: ex_def)
  have ext: "extends addr c e" using e(2) by (simp add: op_ok_def)
  have ids: "op_ids_ok c e" using operation_ids [OF assms(2) ok(1,2)] x(1) by simp
  have once: "destroyed_once c e" using assms(4) x(1) by simp
  have add: "addable addr u e" using op_addable [OF inv ext ids once] assms(3) x(1) by simp
  have "cfg_inv addr n0 (u, c1)" "extends addr c1 e" "commit_ready c1 e" "cfg_events c1 = cfg_events c"
    using inv(1) e(2) op_ok_last_extension [where c = c and k = "last_extension c + 1" and e = e and addr = addr]
    by (simp_all add: x(3) cfg_inv_last_extension op_ok_def)
  then obtain u' c' where c': "commit x (u, c1) = Some (u', c', e)" "cfg_inv addr n0 (u', c')"
      "cfg_events c' = insert e (cfg_events c)" "unf_set u' = insert e (unf_set u)"
    using commit_ok [of addr n0 u c1 e x] x(1,2) add by auto
  obtain u1 b d where d: "deduplicate (ext_metadata x) e u = Some (u1, b, e)" "u_conflicts u' = u_conflicts u1"
      "commit_heads e d = Some c'" "lock_heads d = lock_heads c" "used_lock_ids d = used_lock_ids c"
    using commit_Some [OF c'(1)] x(1,3) by fastforce
  have use: "lock_use_ok c'" by (rule commit_lock_use [OF inv(2) ok(2) ids once c'(3) d(3-5)])
  have "event_facts e" "\<forall>x \<in> cfg_events c. event_facts x"
    using event_ok_facts [of addr] add ok(3,4) by (auto simp: addable_def unf_ok_def)
  then have "dependents_below c e" if "ordered_kind (kind e) \<or> dependents_below c e"
    using that ordered_dependents_below [OF ok(1) inv(2) ext ids once] by blast
  moreover have "conflict_free u' c'" if "dependents_below c e"
  proof (rule conflict_free_insert [OF inv(3) that _ _ c'(3)])
    show "unf_ok addr n0 u'" "e \<in> unf_set u'" using c'(2,4) by (simp_all add: cfg_inv_def)
    show "q \<in> set (u_conflicts u p)" if "p \<noteq> e" "q \<noteq> e" "q \<in> set (u_conflicts u' p)" for p q
      using deduplicate_conflicts [OF ok(4) _ d(1) that(1,2)] that(3) d(2) add by simp
  qed
  ultimately show ?thesis using c' use x(1) extends_new [OF ok(1) ext] by (auto simp: run_inv_def)
qed

section \<open>The initial configuration\<close>

lemma configuration_new_run:
  "\<exists>u c. configuration_new n0 = Some (u, c) \<and> run_inv depth n0 (u, c)
    \<and> thread_heads c = [(Thread_Id [1], ex_init)] \<and> lock_heads c = [] \<and> used_lock_ids c = {}
    \<and> unf_set u = {ex_init, program_init}"
proof -
  obtain u c where c: "configuration_new n0 = Some (u, c)" "cfg_inv depth n0 (u, c)"
      "thread_heads c = [(Thread_Id [1], ex_init)]" "lock_heads c = []" "used_lock_ids c = {}"
      "unf_set u = {ex_init, program_init}"
    using configuration_new_inv [of n0] by blast
  have E: "cfg_events c = {ex_init, program_init}" using c(3) by (simp add: cfg_list_def ex_chain)
  have "local_config ex_init = {ex_init, program_init}"
    using hb_last [of _ ex_init] by (auto simp: local_config_def ex_init_def predecessors_def)
  then have "conflict_free u c"
    using c(2,6) E unfolding conflict_free_def by (auto simp: cfg_inv_def unf_ok_def conflicts_ok_def)
  moreover have "lock_use_ok c" unfolding lock_use_ok_def E by (simp add: lid_def ex_init_def program_init_def)
  ultimately show ?thesis using c by (auto simp: run_inv_def)
qed

theorem operation_commit_invariant_witness:
  "\<exists>u c c1 x u' c'. configuration_new 0 = Some (u, c) \<and> create_lock c (Thread_Id [1]) 1 = Some (c1, x)
    \<and> commit x (u, c1) = Some (u', c', ex_lock) \<and> run_inv depth 0 (u', c')
    \<and> cfg_events c' = {ex_lock, ex_init, program_init}"
proof -
  obtain u c where c: "configuration_new 0 = Some (u, c)" "run_inv depth 0 (u, c)"
      "thread_heads c = [(Thread_Id [1], ex_init)]" "lock_heads c = []" "used_lock_ids c = {}"
      "unf_set u = {ex_init, program_init}"
    using configuration_new_run [of 0] by blast
  obtain c1 x where cx: "create_lock c (Thread_Id [1]) 1 = Some (c1, x)" "ext_event x = ex_lock"
    using c(3-5) ex_lock_alloc
    by (simp add: create_lock_def live_head_def smap_has_def ex_opt_def ex_def ex_init_def kind_def)
  have "inj_on depth {ex_lock, ex_init, program_init}" by (simp add: ex_lock_def ex_init_def program_init_def)
  then have "inj_on depth (insert (ext_event x) (unf_set u))" using cx(2) c(6) by simp
  moreover have k: "kind (ext_event x) = K_lock_create" using cx(2) by (simp add: ex_lock_def kind_def)
  then have "destroyed_once c (ext_event x)" "ordered_kind (kind (ext_event x))" by (simp_all add: destroyed_once_def ordered_kind_def)
  moreover have "cfg_events c = {ex_init, program_init}" using c(3) by (simp add: cfg_list_def ex_chain)
  ultimately show ?thesis
    using operation_commit_invariant [OF c(2) op_create_lock [OF cx(1)]] c(1) cx by auto
qed

end
