(* ===== verification/Alternative.thy ===== *)
theory Alternative
  imports Commit
begin

text \<open>
  \<^verbatim>\<open>unfolding::compute_alternative\<close> (\<^verbatim>\<open>lib/Por/unfolding.cpp\<close>): the search for an event that
  replaces an event of \<open>D\<close> in another exploration of the configuration. The two colours are fresh,
  the events of \<open>D\<close> are coloured after those of the configuration.
\<close>

definition alt_color :: "'d event list \<Rightarrow> 'd event list \<Rightarrow> 'd coloring" where
  "alt_color C D x = (if x \<in> set D then Some Blue else if x \<in> set C then Some Red else None)"

definition in_immediate_conflict_with_color :: "'d unf \<Rightarrow> 'd coloring \<Rightarrow> 'd event \<Rightarrow> color \<Rightarrow> bool" where
  "in_immediate_conflict_with_color u col e k \<longleftrightarrow> list_ex (\<lambda>x. col x = Some k) (u_conflicts u e)"

text \<open>The scan of \<open>D\<close> for an event without conflict in the configuration; the top of the stack is the head.\<close>

fun alt_pick :: "'d unf \<Rightarrow> 'd coloring \<Rightarrow> 'd event list \<Rightarrow> 'd event option" where
  "alt_pick u col [] = None"
| "alt_pick u col (d # ds) =
     (if ends_atomic_operation d then None
      else if \<not> in_immediate_conflict_with_color u col d Red then Some d
      else alt_pick u col ds)"

definition alt_step :: "'d unf \<Rightarrow> 'd coloring \<Rightarrow> 'd event list \<times> bool \<Rightarrow> 'd event list \<times> bool" where
  "alt_step u col st =
     (case st of (W, in_conflict) \<Rightarrow>
        let w = hd W; W = tl W in
        if col w = Some Red then (W, in_conflict)
        else if col w = Some Blue \<or> in_immediate_conflict_with_color u col w Red then (W, True)
        else (rev (immediate_predecessors w) @ W, in_conflict))"

definition alt_in_conflict :: "'d unf \<Rightarrow> 'd coloring \<Rightarrow> 'd event \<Rightarrow> bool option" where
  "alt_in_conflict u col f =
     map_option snd (while_option (\<lambda>(W, in_conflict). W \<noteq> [] \<and> \<not> in_conflict) (alt_step u col) ([f], False))"

fun alt_search :: "'d unf \<Rightarrow> 'd coloring \<Rightarrow> 'd event list \<Rightarrow> 'd event option option" where
  "alt_search u col [] = Some None"
| "alt_search u col (f # fs) =
     (if col f = Some Red then None
      else if u_cutoff u f then alt_search u col fs
      else case alt_in_conflict u col f of
          None \<Rightarrow> None
        | Some False \<Rightarrow> Some (Some f)
        | Some True \<Rightarrow> alt_search u col fs)"

definition compute_alternative :: "'d unf \<Rightarrow> 'd cfg \<Rightarrow> 'd event list \<Rightarrow> 'd event option option" where
  "compute_alternative u c D =
     (if D = [] then None
      else let col = alt_color (cfg_list c) D in
        case alt_pick u col D of
          None \<Rightarrow> None
        | Some e \<Rightarrow> alt_search u col (u_conflicts u e))"

section \<open>Correctness\<close>

text \<open>
  An event can replace: nothing in its local configuration outside of the configuration is in
  \<open>D\<close> or in conflict with the configuration.
\<close>

definition compatible :: "'d unf \<Rightarrow> 'd event set \<Rightarrow> 'd event set \<Rightarrow> 'd event \<Rightarrow> bool" where
  "compatible u C D f \<longleftrightarrow> (\<forall>g \<in> local_config f - C. g \<notin> D \<and> set (u_conflicts u g) \<inter> C = {})"

lemma causally_closed_hb: "hb g w \<Longrightarrow> causally_closed S \<Longrightarrow> w \<in> S \<Longrightarrow> g \<in> S"
  unfolding hb_def by (induction rule: converse_tranclp_induct) (auto simp: causally_closed_def)

lemma alt_loop:
  fixes f :: "'d event"
  assumes hist: "histories_ok addr u" and C: "causally_closed (set C)" "set C \<inter> set D = {}" and f: "f \<in> unf_set u"
  shows "alt_in_conflict u (alt_color C D) f = Some (\<not> compatible u (set C) (set D) f)"
proof -
  let ?col = "alt_color C D"
  let ?go = "\<lambda>st. fst st \<noteq> [] \<and> \<not> snd st"
  have red: "?col x = Some Red \<longleftrightarrow> x \<in> set C" and blue: "?col x = Some Blue \<longleftrightarrow> x \<in> set D" for x
    using C(2) by (auto simp: alt_color_def)
  have cfl: "in_immediate_conflict_with_color u ?col x Red \<longleftrightarrow> set (u_conflicts u x) \<inter> set C \<noteq> {}" for x
    using red by (auto simp: in_immediate_conflict_with_color_def list_ex_iff)
  define bad where "bad = (\<lambda>g. g \<notin> set C \<and> (g \<in> set D \<or> set (u_conflicts u g) \<inter> set C \<noteq> {}))"
  have compat: "compatible u (set C) (set D) x \<longleftrightarrow> (\<forall>g \<in> local_config x. \<not> bad g)" for x
    by (auto simp: compatible_def bad_def)
  have closed: "\<not> bad g" if "w \<in> set C" "g \<in> local_config w" for w g
    using that causally_closed_hb [OF _ C(1)] by (auto simp: local_config_def bad_def)
  define P :: "'d event list \<times> bool \<Rightarrow> bool" where
    "P = (\<lambda>(W, b). set W \<subseteq> unf_set u \<and> (if b then \<not> compatible u (set C) (set D) f
       else (\<forall>w \<in> set W. w \<in> local_config f)
         \<and> (\<forall>g \<in> local_config f. bad g \<longrightarrow> (\<exists>w \<in> set W. g \<in> local_config w))))"
  have init: "P ([f], False)" using f by (simp add: P_def local_config_def)
  have imm: "set (immediate_predecessors w) \<subseteq> set (predecessors w)" "set (predecessors w) \<subseteq> unf_set u"
      "maximal_preds w \<subseteq> set (immediate_predecessors w)" if "w \<in> unf_set u" for w
    using that immediate_subset [of addr w] hist by (auto simp: histories_ok_def)
  have step: "P (alt_step u ?col st)" if st: "P st" "?go st" for st
  proof -
    obtain w W where eq: "st = (w # W, False)" using st(2) by (cases st; cases "fst st") auto
    have w: "w \<in> unf_set u" "w \<in> local_config f" and W: "set W \<subseteq> unf_set u" "\<forall>x \<in> set W. x \<in> local_config f"
      and todo: "\<And>g. g \<in> local_config f \<Longrightarrow> bad g \<Longrightarrow> g \<in> local_config w \<or> (\<exists>x \<in> set W. g \<in> local_config x)"
      using st(1) by (auto simp: P_def eq)
    consider "w \<in> set C" | "w \<notin> set C" "bad w" | "w \<notin> set C" "\<not> bad w" by blast
    then show ?thesis
    proof cases
      case 1
      then have "alt_step u ?col st = (W, False)" by (simp add: alt_step_def eq red)
      moreover have "\<exists>x \<in> set W. g \<in> local_config x" if "g \<in> local_config f" "bad g" for g
        using todo [OF that] closed [OF 1, of g] that(2) by blast
      ultimately show ?thesis using W by (simp add: P_def)
    next
      case 2
      then have "alt_step u ?col st = (W, True)" by (auto simp: alt_step_def eq red blue cfl bad_def)
      then show ?thesis using W(1) 2(2) w(2) compat by (auto simp: P_def)
    next
      case 3
      then have s: "alt_step u ?col st = (rev (immediate_predecessors w) @ W, False)"
        by (auto simp: alt_step_def eq red blue cfl bad_def)
      have below: "\<exists>x \<in> set (immediate_predecessors w). g \<in> local_config x" if "g \<in> local_config w" "bad g" for g
      proof -
        have "hb g w" using that 3(2) by (auto simp: local_config_def)
        then obtain p where "p \<in> set (predecessors w)" "g = p \<or> hb g p" using hb_last [of g w] by blast
        moreover obtain q where "q \<in> maximal_preds w" "p = q \<or> hb p q" using maximal_pred_above [OF calculation(1)] by blast
        ultimately show ?thesis using imm(3) [OF w(1)] hb.trans by (auto simp: local_config_def) blast+
      qed
      have "x \<in> local_config f" if "x \<in> set (immediate_predecessors w)" for x
        using that imm(1) [OF w(1)] w(2) hb_pred hb.trans by (auto simp: local_config_def) blast+
      moreover have "\<exists>x \<in> set (rev (immediate_predecessors w) @ W). g \<in> local_config x" if "g \<in> local_config f" "bad g" for g
        using todo [OF that] below [of g] that(2) by auto
      ultimately show ?thesis unfolding s P_def using W imm(1,2) [OF w(1)] by auto
    qed
  qed
  have dec: "\<exists>ys. fst (alt_step u ?col st) = ys @ tl (fst st) \<and> (\<forall>y \<in> set ys. size y < size (hd (fst st)))"
    if st: "P st" "?go st" for st
  proof -
    obtain w W where eq: "st = (w # W, False)" using st(2) by (cases st; cases "fst st") auto
    have "size y < size w" if "y \<in> set (immediate_predecessors w)" for y
      using that imm(1) [of w] st(1) size_predecessor by (auto simp: P_def eq)
    then show ?thesis by (auto simp: alt_step_def eq Let_def)
  qed
  have cond: "(\<lambda>(W, b). W \<noteq> [] \<and> \<not> b) = ?go" by auto
  obtain t where t: "while_option ?go (alt_step u ?col) ([f], False) = Some t"
    using stack_while_Some [where P = P and W = fst and b = ?go and c = "alt_step u ?col" and f = size, OF init _ step dec]
    by blast
  have "P t" using while_option_rule [where P = P, OF step t init] by blast
  moreover have "\<not> ?go t" by (rule while_option_stop [OF t])
  ultimately have "snd t \<longleftrightarrow> \<not> compatible u (set C) (set D) f"
    unfolding compat by (cases t) (auto simp: P_def compat split: if_split_asm)
  then show ?thesis using t unfolding alt_in_conflict_def cond by simp
qed

lemma alt_search_find:
  assumes "histories_ok addr u" "causally_closed (set C)" "set C \<inter> set D = {}" "set fs \<subseteq> unf_set u" "set fs \<inter> set C = {}"
  shows "alt_search u (alt_color C D) fs = Some (find (\<lambda>f. \<not> u_cutoff u f \<and> compatible u (set C) (set D) f) fs)"
  using assms(4,5)
proof (induction fs)
  case (Cons f fs)
  have "alt_color C D f \<noteq> Some Red" using Cons.prems by (auto simp: alt_color_def)
  then show ?case using Cons alt_loop [OF assms(1-3), of f] by auto
qed simp

lemma alt_pick_find:
  assumes "\<forall>d \<in> set ds. \<not> ends_atomic_operation d" "set C \<inter> set D = {}"
  shows "alt_pick u (alt_color C D) ds = find (\<lambda>d. set (u_conflicts u d) \<inter> set C = {}) ds"
  using assms(1)
proof (induction ds)
  case (Cons d ds)
  have "in_immediate_conflict_with_color u (alt_color C D) d Red \<longleftrightarrow> set (u_conflicts u d) \<inter> set C \<noteq> {}"
    using assms(2) by (auto simp: in_immediate_conflict_with_color_def list_ex_iff alt_color_def)
  then show ?case using Cons by auto
qed simp

text \<open>
  C5. \<^verbatim>\<open>compute_alternative\<close> ends, passes its assertions, and returns the first event that is in
  immediate conflict with the chosen event of \<open>D\<close>, is not a cutoff, and whose local configuration
  adds neither an event of \<open>D\<close> nor a conflict to the configuration; it returns none only if there
  is no such event. The chosen event is the first of \<open>D\<close> without conflict in the configuration.
\<close>

theorem compute_alternative_spec:
  assumes "cfg_inv addr n0 (u, c)" "set D \<inter> cfg_events c = {}" "\<forall>d \<in> set D. \<not> ends_atomic_operation d"
    and "find (\<lambda>d. set (u_conflicts u d) \<inter> cfg_events c = {}) D = Some e"
  shows "compute_alternative u c D
    = Some (find (\<lambda>f. \<not> u_cutoff u f \<and> compatible u (cfg_events c) (set D) f) (u_conflicts u e))"
proof -
  have hist: "histories_ok addr u" and conf: "is_configuration addr (cfg_events c)"
    and cfl: "set (u_conflicts u e) \<subseteq> unf_set u"
    using assms(1) unf_ok_histories by (auto simp: cfg_inv_def heads_ok_def unf_ok_def conflicts_ok_def)
  have disj: "cfg_events c \<inter> set D = {}" using assms(2) by blast
  have "alt_pick u (alt_color (cfg_list c) D) D = Some e" using alt_pick_find [OF assms(3) disj] assms(4) by simp
  moreover have "D \<noteq> []" using assms(4) by auto
  moreover have "set (u_conflicts u e) \<inter> cfg_events c = {}" using assms(4) by (auto simp: find_Some_iff)
  ultimately show ?thesis
    using alt_search_find [OF hist _ disj cfl] conf by (simp add: compute_alternative_def is_configuration_def Let_def)
qed

theorem compute_alternative_spec_witness:
  "\<exists>u c. configuration_new 0 = Some (u, c) \<and> compute_alternative u c [ex_create] = Some None"
proof -
  obtain u c where c: "configuration_new 0 = Some (u, c)" "cfg_inv depth 0 (u, c)"
      "thread_heads c = [(Thread_Id [1], ex_init)]" "unf_set u = {ex_init, program_init}"
    using configuration_new_inv [of 0] by blast
  have E: "cfg_events c = {ex_init, program_init}" using c(3) by (simp add: cfg_list_def ex_chain)
  have sym: "\<And>a b. b \<in> set (u_conflicts u a) \<longleftrightarrow> a \<in> set (u_conflicts u b)" "\<And>a. set (u_conflicts u a) \<subseteq> unf_set u"
    using c(2) by (auto simp: cfg_inv_def unf_ok_def conflicts_ok_def)
  have "ex_create \<notin> unf_set u" using c(4) ex_distinct by auto
  then have none: "u_conflicts u ex_create = []" using sym by (metis last_in_set subsetD)
  have "set [ex_create] \<inter> cfg_events c = {}" using E ex_distinct by auto
  moreover have "\<forall>d \<in> set [ex_create]. \<not> ends_atomic_operation d" by (simp add: ex_create_def ends_atomic_operation_def)
  moreover have "find (\<lambda>d. set (u_conflicts u d) \<inter> cfg_events c = {}) [ex_create] = Some ex_create" using none by simp
  ultimately show ?thesis using compute_alternative_spec [OF c(2)] c(1) none by auto
qed

end
