(* ===== verification/Erv.thy ===== *)
theory Erv
  imports Dedup "HOL-Library.List_Lexorder" "HOL-Library.Monad_Syntax"
begin

text \<open>
  \<^verbatim>\<open>lib/Por/erv.cpp\<close>: the comparison of local configurations that decides which of two events
  with the same fingerprint is a cutoff. Local configurations are compared by size, then by their
  Parikh vectors, then by their Foata normal forms.
\<close>

section \<open>Definitions\<close>

text \<open>
  \<^verbatim>\<open>event::local_configuration()\<close>. The iterator makes one step for each event below, one for the
  event itself and one for the program-init event, which is the fuel it gets.
\<close>

definition local_configuration :: "'d event \<Rightarrow> 'd event list option" where
  "local_configuration e = event_range (length (cone_chains (cone e)) + 2) e True True"

definition local_configuration_size :: "'d event \<Rightarrow> nat option" where
  "local_configuration_size e = map_option length (local_configuration e)"

fun lex_compare :: "('a \<Rightarrow> 'a \<Rightarrow> int) \<Rightarrow> 'a list \<Rightarrow> 'a list \<Rightarrow> int" where
  "lex_compare cmp (x # xs) (y # ys) = (let res = cmp x y in if res \<noteq> 0 then res else lex_compare cmp xs ys)"
| "lex_compare cmp [] [] = 0"
| "lex_compare cmp [] (y # ys) = -1"
| "lex_compare cmp (x # xs) [] = 1"

definition comp_event_total_order :: "'d unf \<Rightarrow> 'd event \<Rightarrow> 'd event \<Rightarrow> int" where
  "comp_event_total_order s a b =
     (if a = b then 0
      else if kind a \<noteq> kind b then (if kind a < kind b then -1 else 1)
      else if lid a \<noteq> lid b then (if lid a < lid b then -1 else 1)
      else if cid a \<noteq> cid b then (if cid a < cid b then -1 else 1)
      else if tid a \<noteq> tid b then (if tid a < tid b then -1 else 1)
      else if u_id s a < u_id s b then -1 else 1)"

definition parikh_vector :: "'d unf \<Rightarrow> 'd event list \<Rightarrow> 'd event list" where
  "parikh_vector s es = cmp_sort (\<lambda>a b. comp_event_total_order s a b < 0) es"

definition parikh_compare :: "'d unf \<Rightarrow> 'd event list \<Rightarrow> 'd event list \<Rightarrow> int" where
  "parikh_compare s v w = lex_compare (comp_event_total_order s) v w"

text \<open>The loop of the constructor peels one layer of minimal events after the other off the comb.\<close>

fun foata_loop :: "'d unf \<Rightarrow> nat \<Rightarrow> 'd comb \<Rightarrow> 'd event list list option" where
  "foata_loop s n C =
     (if C = [] then Some []
      else case n of 0 \<Rightarrow> None
        | Suc m \<Rightarrow> do {
            mins \<leftarrow> comb_min C;
            let v = parikh_vector s mins;
            C \<leftarrow> comb_remove_range v C;
            fnf \<leftarrow> foata_loop s m C;
            Some (v # fnf) })"

declare foata_loop.simps [simp del]

text \<open>There is one layer for each depth up to the depth of the event.\<close>

definition foata_normal_form :: "'d unf \<Rightarrow> 'd event \<Rightarrow> 'd event list list option" where
  "foata_normal_form s e = do {
     es \<leftarrow> local_configuration e;
     C \<leftarrow> comb_of_range es;
     foata_loop s (Suc (depth e)) (comb_sort C) }"

fun foata_less :: "'d unf \<Rightarrow> 'd event list list \<Rightarrow> 'd event list list \<Rightarrow> bool" where
  "foata_less s (v # f) (w # g) =
     (let res = parikh_compare s v w in if res \<noteq> 0 then res < 0 else foata_less s f g)"
| "foata_less s _ _ = False"

definition compare_adequate_total_order :: "'d unf \<Rightarrow> 'd event \<Rightarrow> 'd event \<Rightarrow> bool option" where
  "compare_adequate_total_order s a b = do {
     asize \<leftarrow> local_configuration_size a;
     bsize \<leftarrow> local_configuration_size b;
     if asize = bsize then do {
       as \<leftarrow> local_configuration a;
       bs \<leftarrow> local_configuration b;
       let res = parikh_compare s (parikh_vector s as) (parikh_vector s bs);
       if res = 0 then do {
         afnf \<leftarrow> foata_normal_form s a;
         bfnf \<leftarrow> foata_normal_form s b;
         Some (foata_less s afnf bfnf)
       } else Some (res < 0)
     } else Some (asize < bsize) }"

section \<open>The order on events and on Parikh vectors\<close>

definition event_rank :: "'d unf \<Rightarrow> 'd event \<Rightarrow> event_kind \<times> lock_id_t \<times> cond_id_t \<times> thread_id \<times> nat" where
  "event_rank s e = (kind e, lid e, cid e, tid e, u_id s e)"

lemma comp_rank:
  assumes "inj_on (event_rank s) U" "a \<in> U" "b \<in> U"
  shows "comp_event_total_order s a b < 0 \<longleftrightarrow> event_rank s a < event_rank s b"
    "comp_event_total_order s a b = 0 \<longleftrightarrow> a = b"
proof -
  have "event_rank s a = event_rank s b \<Longrightarrow> a = b" using assms by (auto dest: inj_onD)
  then show "comp_event_total_order s a b < 0 \<longleftrightarrow> event_rank s a < event_rank s b"
    by (auto simp: comp_event_total_order_def event_rank_def less_prod_def' not_less_iff_gr_or_eq)
  show "comp_event_total_order s a b = 0 \<longleftrightarrow> a = b" by (simp add: comp_event_total_order_def)
qed

lemma parikh_vector_rank:
  assumes "inj_on (event_rank s) U" "set es \<subseteq> U"
  shows "parikh_vector s es = sort_key (event_rank s) es"
  unfolding parikh_vector_def
  using assms by (intro cmp_sort_key comp_rank(1) [OF assms(1)]) auto

lemma parikh_compare_rank:
  assumes "inj_on (event_rank s) U" "set v \<subseteq> U" "set w \<subseteq> U"
  shows "(parikh_compare s v w < 0 \<longleftrightarrow> map (event_rank s) v < map (event_rank s) w)
    \<and> (parikh_compare s v w = 0 \<longleftrightarrow> v = w)"
  using assms(2,3) unfolding parikh_compare_def
proof (induction "comp_event_total_order s" v w rule: lex_compare.induct)
  case (1 x xs y ys)
  note c = comp_rank [OF assms(1), of x y]
  have "event_rank s x = event_rank s y \<Longrightarrow> x = y" using inj_onD [OF assms(1), of x y] 1 by simp
  then show ?case using 1 c by (cases "x = y") (auto simp: Let_def)
qed auto

section \<open>Local configurations as lists\<close>

lemma it_collect_mono:
  "it_collect n lc wr it = Some xs \<Longrightarrow> n \<le> m \<Longrightarrow> it_collect m lc wr it = Some xs"
proof (induction n arbitrary: m it xs)
  case 0
  then have "it_event it = None" by (subst (asm) it_collect.simps) (simp split: option.splits)
  then show ?case using 0 by (subst (asm) it_collect.simps, subst it_collect.simps) simp
next
  case (Suc n)
  obtain k where m: "m = Suc k" "n \<le> k" using Suc.prems(2) by (cases m) auto
  show ?case
  proof (cases "it_event it")
    case None
    then show ?thesis using Suc.prems by (subst (asm) it_collect.simps, subst it_collect.simps) simp
  next
    case (Some ev)
    then obtain it' ys where it': "it_next lc wr it = Some it'" "it_collect n lc wr it' = Some ys" "xs = ev # ys"
      using Suc.prems(1) by (subst (asm) it_collect.simps) (auto simp: Option.bind_eq_Some_conv)
    then show ?thesis using Suc.IH [OF it'(2) m(2)] it_collect_step [OF Some it'(1)] m by simp
  qed
qed

definition lc_ok :: "('d event \<Rightarrow> nat) \<Rightarrow> 'd event \<Rightarrow> bool" where
  "lc_ok addr e \<longleftrightarrow> is_configuration addr (local_config e) \<and> tids_hierarchical (local_config e)"

lemma local_configuration_ok:
  assumes "lc_ok addr e"
  shows "\<exists>xs. local_configuration e = Some xs \<and> distinct xs \<and> set xs = local_config e"
proof -
  have e: "is_configuration addr (local_config e)" "e \<in> local_config e" "tids_hierarchical (local_config e)"
    using assms by (simp_all add: lc_ok_def local_config_def)
  obtain xs where xs: "event_range (length xs) e True True = Some xs" "distinct xs" "set xs = local_config e"
    using event_range_ok [OF e, of True True] by (auto simp: local_config_def)
  have "set xs \<subseteq> insert e (insert program_init (set (cone_chains (cone e))))"
    using xs(3) down_cone [OF e(1,2)] by (auto simp: local_config_def set_cone_chains)
  from card_mono [OF _ this]
  have "card (set xs) \<le> card (insert e (insert program_init (set (cone_chains (cone e)))))" by simp
  also have "\<dots> \<le> length (cone_chains (cone e)) + 2"
    using card_length [of "e # program_init # cone_chains (cone e)"] by simp
  finally have "length xs \<le> length (cone_chains (cone e)) + 2" using distinct_card [OF xs(2)] by simp
  then have "local_configuration e = Some xs"
    using xs(1) it_collect_mono by (fastforce simp: local_configuration_def event_range_def Option.bind_eq_Some_conv)
  then show ?thesis using xs by blast
qed

lemma local_config_inj:
  assumes "lc_ok addr a" "lc_ok addr b" "local_config a = local_config b"
  shows "a = b"
proof (rule ccontr)
  assume "a \<noteq> b"
  then have "hb a b" "hb b a" using assms(3) by (auto simp: local_config_def)
  then show False using hb.trans hb.irrefl by blast
qed

section \<open>The layers of the Foata normal form\<close>

lemma fold_max_attained: "fold (\<lambda>e m. max (f e) m) es n = n \<or> (\<exists>e \<in> set es. fold (\<lambda>e m. max (f e) m) es n = f e)" for n :: nat
proof (induction es arbitrary: n)
  case (Cons a es)
  show ?case using Cons.IH [of "max (f a) n"] by (auto simp: max_def split: if_splits)
qed simp

lemma allocated_shape:
  "allocated addr e \<Longrightarrow> e = program_init \<or> (\<exists>p. single_shape e p) \<or> (\<exists>p s os. multi_shape e p s os)"
  by (induction rule: allocated_shape_induct) blast+

lemma depth_attained:
  assumes "allocated addr x" "depth x = Suc d"
  shows "\<exists>p. hb p x \<and> depth p = d"
proof -
  consider (root) "x = program_init" | (single) p where "single_shape x p" | (multi) p s os where "multi_shape x p s os"
    using allocated_shape [OF assms(1)] by blast
  then show ?thesis
proof cases
  case (single p)
  then show ?thesis using assms(2) hb_pred [of p x] by (auto simp: single_shape_def)
next
  case (multi p s os)
  then have d: "d = cone_max_depth (cone x)" using assms(2) by (simp add: multi_shape_def)
  show ?thesis
  proof (cases "\<exists>f \<in> set (cone_events (cone x)). d = depth f")
    case True
    then show ?thesis using cone_soundD(2) [OF allocated_cone_sound [OF assms(1)]] by (force simp: cone_events_def)
  next
    case False
    then have "d = 0" using d fold_max_attained [of depth "cone_events (cone x)" 0] by (auto simp: cone_max_depth_def)
    then show ?thesis using root_hb [OF assms(1)] assms(2) by (auto intro: exI [of _ program_init])
  qed
qed (use assms(2) in simp)
qed

text \<open>The events from depth \<open>i\<close> on, and the layer that the loop takes off next.\<close>

abbreviation layer :: "'d event \<Rightarrow> nat \<Rightarrow> 'd event set" where
  "layer e i \<equiv> {x \<in> local_config e. depth x = i}"

lemma minimal_layer:
  assumes "is_configuration addr (local_config e)"
  shows "{x \<in> {x \<in> local_config e. i \<le> depth x}. \<forall>y \<in> {x \<in> local_config e. i \<le> depth x}. \<not> hb y x} = layer e i"
proof (intro set_eqI iffI)
  fix x assume x: "x \<in> {x \<in> {x \<in> local_config e. i \<le> depth x}. \<forall>y \<in> {x \<in> local_config e. i \<le> depth x}. \<not> hb y x}"
  have False if lt: "i < depth x"
  proof -
    obtain p where p: "hb p x" "depth p = depth x - 1"
      using depth_attained [OF configuration_allocated [OF assms], of x "depth x - 1"] x lt by auto
    then have "p \<in> local_config e" using configuration_hb [OF _ assms] x by blast
    then show False using x p lt by auto
  qed
  then show "x \<in> layer e i" using x by force
next
  fix x assume x: "x \<in> layer e i"
  have "\<not> hb y x" if "i \<le> depth y" for y
    using x that depth_hb [OF _ configuration_allocated [OF assms], of y x] by auto
  then show "x \<in> {x \<in> {x \<in> local_config e. i \<le> depth x}. \<forall>y \<in> {x \<in> local_config e. i \<le> depth x}. \<not> hb y x}"
    using x by auto
qed

lemma foata_loop_ok:
  assumes "is_configuration addr (local_config e)" "inj_on (event_rank s) (local_config e)"
    and "comb_sorted C" "set (comb_events C) = {x \<in> local_config e. i \<le> depth x}" "i + n = Suc (depth e)"
  shows "\<exists>fnf. foata_loop s n C = Some fnf \<and> map set fnf = map (layer e) [i..<Suc (depth e)]
    \<and> (\<forall>v \<in> set fnf. sorted (map (event_rank s) v))"
  using assms(3-5)
proof (induction n arbitrary: C i)
  case 0
  have "\<not> i \<le> depth x" if "x \<in> local_config e" for x
    using that depth_hb [OF _ configuration_allocated [OF assms(1)], of x e] 0(3) by (auto simp: local_config_def)
  then have "set (comb_events C) = {}" unfolding 0(2) by blast
  then have "C = []" using 0(1) by (cases C) (auto simp: comb_sorted_def comb_ok_def comb_events_def)
  then show ?case using 0 by (simp add: foata_loop.simps)
next
  case (Suc n)
  let ?E = "set (comb_events C)"
  have "e \<in> ?E" using Suc.prems by (simp add: local_config_def)
  then have ne: "C \<noteq> []" by (auto simp: comb_events_def)
  have sub: "?E \<subseteq> local_config e" using Suc.prems(2) by auto
  have ok: "comb_ok C" using Suc.prems(1) by (simp add: comb_sorted_def)
  obtain ms where ms: "comb_min C = Some ms" "set ms = layer e i"
    using comb_extremes [OF assms(1) ok sub] minimal_layer [OF assms(1), of i]
    unfolding Suc.prems(2) by auto
  have v: "parikh_vector s ms = sort_key (event_rank s) ms"
    by (rule parikh_vector_rank [OF assms(2)]) (use ms(2) in auto)
  obtain D where D: "comb_remove_range (parikh_vector s ms) C = Some D" "comb_sorted D"
      "set (comb_events D) = ?E - layer e i"
    using comb_remove_range_ok [OF Suc.prems(1), of "parikh_vector s ms"] ms(2) v by auto
  have "set (comb_events D) = {x \<in> local_config e. Suc i \<le> depth x}"
    using D(3) Suc.prems(2) by auto
  then obtain fnf where fnf: "foata_loop s n D = Some fnf" "map set fnf = map (layer e) [Suc i..<Suc (depth e)]"
      "\<forall>v \<in> set fnf. sorted (map (event_rank s) v)"
    using Suc.IH [OF D(2)] Suc.prems(3) by fastforce
  have "[i..<Suc (depth e)] = i # [Suc i..<Suc (depth e)]" using Suc.prems(3) by (subst upt_conv_Cons) auto
  then show ?case
    using ne ms D(1) fnf v by (subst foata_loop.simps) simp
qed

lemma foata_normal_form_ok:
  assumes "lc_ok addr e" "inj_on (event_rank s) (local_config e)"
  shows "\<exists>fnf. foata_normal_form s e = Some fnf \<and> map set fnf = map (layer e) [0..<Suc (depth e)]
    \<and> (\<forall>v \<in> set fnf. sorted (map (event_rank s) v))"
proof -
  have c: "is_configuration addr (local_config e)" using assms(1) by (simp add: lc_ok_def)
  obtain xs where xs: "local_configuration e = Some xs" "set xs = local_config e"
    using local_configuration_ok [OF assms(1)] by blast
  obtain C where C: "comb_of_range xs = Some C" "comb_ok C" "set (comb_events C) = local_config e"
    using comb_insert_all [OF c, of "[]" xs] xs(2) by (auto simp: comb_of_range_def comb_events_def)
  show ?thesis
    using foata_loop_ok [OF c assms(2), of "comb_sort C" 0 "Suc (depth e)"] comb_sort_ok [OF C(2)] C(1,3) xs(1)
    by (simp add: foata_normal_form_def)
qed

section \<open>The order is a strict total order\<close>

lemma foata_less_irrefl: "\<not> foata_less s f f"
proof (induction f)
  case (Cons v f)
  have "lex_compare (comp_event_total_order s) v v = 0"
    by (induction v) (simp_all add: comp_event_total_order_def)
  then show ?case using Cons by (simp add: parikh_compare_def)
qed simp

text \<open>The value by which two local configurations are really compared.\<close>

definition lc_key where
  "lc_key s e = (length (the (local_configuration e)),
     map (event_rank s) (sort_key (event_rank s) (the (local_configuration e))))"

lemma local_config_mono: "hb a b \<Longrightarrow> local_config a \<subseteq> local_config b"
  using hb_trans [of _ a b] by (auto simp: local_config_def)

lemma local_config_closed: "causally_closed (local_config e)"
  using hb_pred hb_trans unfolding causally_closed_def local_config_def by blast

lemma lc_key_hb:
  assumes "lc_ok addr a" "lc_ok addr b" "hb a b"
  shows "lc_key s a < lc_key s b"
proof -
  obtain as bs where l: "local_configuration a = Some as" "set as = local_config a" "distinct as"
      "local_configuration b = Some bs" "set bs = local_config b" "distinct bs"
    using local_configuration_ok [OF assms(1)] local_configuration_ok [OF assms(2)] by blast
  have "b \<notin> local_config a" using assms(3) hb_trans [of b a b] hb.irrefl by (auto simp: local_config_def)
  moreover have "b \<in> local_config b" by (simp add: local_config_def)
  ultimately have "set as \<subset> set bs" using local_config_mono [OF assms(3)] l(2,5) by blast
  then have "card (set as) < card (set bs)" by (rule psubset_card_mono [OF finite_set])
  then have "length as < length bs" unfolding distinct_card [OF l(3)] distinct_card [OF l(6)] .
  then show ?thesis by (simp add: lc_key_def l(1,4))
qed

lemma lc_key_inj:
  assumes "lc_ok addr a" "lc_ok addr b" "inj_on (event_rank s) (local_config a \<union> local_config b)" "lc_key s a = lc_key s b"
  shows "a = b"
proof -
  obtain as bs where l: "local_configuration a = Some as" "set as = local_config a"
      "local_configuration b = Some bs" "set bs = local_config b"
    using local_configuration_ok [OF assms(1)] local_configuration_ok [OF assms(2)] by blast
  then have "event_rank s ` set as = event_rank s ` set bs"
    using assms(4) by (auto simp: lc_key_def dest!: arg_cong [where f = set])
  then have "set as = set bs" using inj_on_image_eq_iff [OF assms(3)] l by auto
  then show ?thesis using local_config_inj [OF assms(1,2)] l by simp
qed

lemma compare_adequate_key:
  assumes "lc_ok addr a" "lc_ok addr b" "inj_on (event_rank s) (local_config a \<union> local_config b)"
  shows "compare_adequate_total_order s a b = Some (lc_key s a < lc_key s b)"
proof -
  obtain as bs where l: "local_configuration a = Some as" "set as = local_config a"
      "local_configuration b = Some bs" "set bs = local_config b"
    using local_configuration_ok [OF assms(1)] local_configuration_ok [OF assms(2)] by blast
  let ?U = "local_config a \<union> local_config b"
  have pv: "parikh_vector s as = sort_key (event_rank s) as" "parikh_vector s bs = sort_key (event_rank s) bs"
    using l by (auto intro!: parikh_vector_rank [OF assms(3)])
  have cmp: "(parikh_compare s (parikh_vector s as) (parikh_vector s bs) < 0
      \<longleftrightarrow> map (event_rank s) (parikh_vector s as) < map (event_rank s) (parikh_vector s bs))
    \<and> (parikh_compare s (parikh_vector s as) (parikh_vector s bs) = 0 \<longleftrightarrow> parikh_vector s as = parikh_vector s bs)"
    by (rule parikh_compare_rank [OF assms(3)]) (use l pv in auto)
  note def = compare_adequate_total_order_def local_configuration_size_def lc_key_def l(1,3)
  show ?thesis
  proof (cases "length as = length bs \<and> parikh_vector s as = parikh_vector s bs")
    case True
    then have "a = b" using lc_key_inj [OF assms] pv by (simp add: lc_key_def l(1,3))
    moreover obtain fnf where "foata_normal_form s a = Some fnf"
      using foata_normal_form_ok [OF assms(1), of s] inj_on_subset [OF assms(3)] by blast
    ultimately show ?thesis using True cmp foata_less_irrefl [of s fnf] by (simp add: def)
  next
    case False
    then show ?thesis using cmp pv by (auto simp: def)
  qed
qed

text \<open>
  C15. In an unfolding whose ids are distinct, \<^verbatim>\<open>compare_adequate_total_order\<close> returns for any
  two events, and it is a strict total order on events that contains causality. This is what makes
  it usable to decide which of two events with the same fingerprint is the cutoff.
\<close>

theorem compare_adequate_total_order_spec:
  assumes "\<forall>e \<in> A. lc_ok addr e" "inj_on (u_id s) (\<Union>e \<in> A. local_config e)"
  shows "\<exists>less. (\<forall>a \<in> A. \<forall>b \<in> A. compare_adequate_total_order s a b = Some (less a b))
    \<and> (\<forall>a \<in> A. \<not> less a a) \<and> (\<forall>a \<in> A. \<forall>b \<in> A. \<forall>c \<in> A. less a b \<longrightarrow> less b c \<longrightarrow> less a c)
    \<and> (\<forall>a \<in> A. \<forall>b \<in> A. a = b \<or> less a b \<or> less b a) \<and> (\<forall>a \<in> A. \<forall>b \<in> A. hb a b \<longrightarrow> less a b)"
proof -
  have inj: "inj_on (event_rank s) (local_config a \<union> local_config b)" if "a \<in> A" "b \<in> A" for a b
    using that inj_on_subset [OF assms(2), of "local_config a \<union> local_config b"]
    by (auto simp: event_rank_def inj_on_def)
  have total: "a = b \<or> lc_key s a < lc_key s b \<or> lc_key s b < lc_key s a" if "a \<in> A" "b \<in> A" for a b
    using lc_key_inj [OF _ _ inj [OF that]] assms(1) that by (metis linorder_neqE)
  have eq: "compare_adequate_total_order s a b = Some (lc_key s a < lc_key s b)" if "a \<in> A" "b \<in> A" for a b
    using compare_adequate_key [OF _ _ inj [OF that]] assms(1) that by blast
  show ?thesis
  proof (intro exI [of _ "\<lambda>a b. lc_key s a < lc_key s b"] conjI ballI impI)
    fix a b assume "a \<in> A" "b \<in> A" "hb a b"
    then show "lc_key s a < lc_key s b" using lc_key_hb assms(1) by blast
  qed (use eq total in \<open>auto intro: less_trans\<close>)
qed

lemma ex_lc_ok: "lc_ok addr ex_child" "lc_ok addr ex_create"
proof -
  show "lc_ok addr ex_child" by (simp add: lc_ok_def ex_local_config ex_configuration ex_hierarchical)
  have "local_config ex_create \<subseteq> ex_set"
    using configuration_hb [OF _ ex_configuration ex_mem(3)] ex_mem(3) by (auto simp: local_config_def)
  moreover have "is_configuration addr (local_config ex_create)"
    by (rule configuration_subset [OF ex_configuration calculation local_config_closed])
  ultimately show "lc_ok addr ex_create" using ex_hierarchical by (auto simp: lc_ok_def tids_hierarchical_def)
qed

text \<open>An unfolding whose ids are the depths, which are distinct on the example.\<close>

definition ex_ids :: "nat unf" where
  "ex_ids = (unfolding_new 0)\<lparr>u_id := depth\<rparr>"

lemma ex_ids_inj: "inj_on (u_id ex_ids) ex_set"
  by (simp add: ex_ids_def ex_set_def ex_defs program_init_def)

theorem compare_adequate_total_order_spec_witness:
  "compare_adequate_total_order ex_ids ex_create ex_child = Some True"
proof -
  have h: "hb ex_create ex_child" by (rule hb_pred) (simp add: ex_child_def predecessors_def)
  have "(\<Union>e \<in> {ex_create, ex_child}. local_config e) = ex_set"
    using local_config_mono [OF h] by (auto simp: ex_local_config)
  then have "inj_on (u_id ex_ids) (\<Union>e \<in> {ex_create, ex_child}. local_config e)" using ex_ids_inj by simp
  moreover have "\<forall>e \<in> {ex_create, ex_child}. lc_ok depth e" using ex_lc_ok by simp
  ultimately obtain less where "compare_adequate_total_order ex_ids ex_create ex_child = Some (less ex_create ex_child)"
      "hb ex_create ex_child \<longrightarrow> less ex_create ex_child"
    using compare_adequate_total_order_spec [of "{ex_create, ex_child}" depth ex_ids] by blast
  then show ?thesis using h by simp
qed

text \<open>
  C30. The Foata normal form of a local configuration is computed without an abort: its layers are
  the events of depth 0, 1, 2 and so on up to the depth of the event, each sorted by the order on
  events. In particular all events of a layer have the same depth.
\<close>

theorem foata_normal_form_spec:
  assumes "lc_ok addr e" "inj_on (u_id s) (local_config e)"
  shows "\<exists>fnf. foata_normal_form s e = Some fnf
    \<and> map set fnf = map (\<lambda>i. {x \<in> local_config e. depth x = i}) [0..<Suc (depth e)]
    \<and> (\<forall>v \<in> set fnf. sorted (map (event_rank s) v))"
  by (rule foata_normal_form_ok [OF assms(1)]) (use assms(2) in \<open>auto simp: event_rank_def inj_on_def\<close>)

theorem foata_normal_form_spec_witness:
  "\<exists>fnf. foata_normal_form ex_ids ex_child = Some fnf \<and> map set fnf = [{program_init}, {ex_init}, {ex_create}, {ex_child}]"
proof -
  obtain fnf where f: "foata_normal_form ex_ids ex_child = Some fnf"
      "map set fnf = map (\<lambda>i. {x \<in> local_config ex_child. depth x = i}) [0..<Suc (depth ex_child)]"
    using foata_normal_form_spec [OF ex_lc_ok(1) [of depth], of ex_ids] ex_local_config ex_ids_inj by auto
  have d: "depth program_init = 0" "depth ex_init = 1" "depth ex_create = 2" "depth ex_child = 3"
    by (simp_all add: ex_defs program_init_def)
  have "{x \<in> ex_set. depth x = 0} = {program_init}" "{x \<in> ex_set. depth x = 1} = {ex_init}"
      "{x \<in> ex_set. depth x = 2} = {ex_create}" "{x \<in> ex_set. depth x = 3} = {ex_child}"
    using d by (auto simp: ex_set_def)
  then show ?thesis using f d by (simp add: ex_local_config upt_conv_Cons numeral_eq_Suc)
qed

text \<open>
  C36. The ids do not stay distinct. When an event is created again before its metadata has been
  attached, \<^verbatim>\<open>deduplicate\<close> overwrites the metadata of the stored event with that of the new
  object, and with it the id: it is 0 from then on. Two such events of one kind, thread, lock and
  condition variable are each reported greater than the other.
\<close>

theorem deduplicate_resets_id:
  assumes "unf_ok addr n0 s" "a \<in> unf_set s" "\<not> u_metadata s a"
  shows "\<exists>t. deduplicate md a s = Some (t, False, a) \<and> u_id t a = 0
    \<and> (\<forall>b. b \<noteq> a \<and> kind b = kind a \<and> lid b = lid a \<and> cid b = cid a \<and> tid b = tid a \<and> u_id t b = 0
          \<longrightarrow> comp_event_total_order t a b = 1 \<and> comp_event_total_order t b a = 1)"
  using deduplicate_known [OF assms(1,2), of md] assms(3) by (auto simp: comp_event_total_order_def)

theorem deduplicate_resets_id_witness:
  "\<exists>s t. deduplicate False ex_init (unfolding_new 0) = Some (s, True, ex_init) \<and> u_id s ex_init = 2
    \<and> deduplicate False ex_init s = Some (t, False, ex_init) \<and> u_id t ex_init = 0"
proof -
  have new: "ex_init \<notin> unf_set (unfolding_new 0)" by (simp add: ex_distinct)
  obtain s where s: "deduplicate False ex_init (unfolding_new 0) = Some (s, True, ex_init)" "unf_ok depth 0 s"
      "unf_set s = {ex_init, program_init}" "u_id s ex_init = 2" "\<not> u_metadata s ex_init"
    using deduplicate_new [OF unfolding_new_ok ex_init_addable new, of False] by auto
  then show ?thesis using deduplicate_resets_id [OF s(2), of ex_init False] by auto
qed

end
