(* ===== verification/Combinations.thy ===== *)
theory Combinations
  imports Immediate "HOL-Library.Monad_Syntax"
begin

text \<open>
  \<^verbatim>\<open>comb::concurrent_combinations\<close>: calls a function on every set of pairwise concurrent events of a
  comb. The sets are enumerated by a bit mask over the threads and, for each mask, by a vector of
  indices into the events of the selected threads, which counts like an odometer.

  The function may change state and abort: it maps a list of events and a state to a new state and
  its boolean result.
\<close>

section \<open>Definitions\<close>

definition nth_opt :: "'a list \<Rightarrow> nat \<Rightarrow> 'a option" where
  "nth_opt xs i = (if i < length xs then Some (xs ! i) else None)"

text \<open>
  The end of the loop body: find the lowest position that is not at its highest index, increment it
  and reset the positions below. \<open>None\<close> is the \<^verbatim>\<open>break\<close>.
\<close>

fun next_indices :: "nat list \<Rightarrow> nat list \<Rightarrow> nat list option" where
  "next_indices (h # hs) (i # is) =
     (if i = h then map_option (Cons 0) (next_indices hs is) else Some (Suc i # is))"
| "next_indices _ _ = None"

text \<open>
  The vectors that the loop goes through. There are \<open>\<Prod> (highest_index + 1)\<close> many, which is the fuel
  it gets below.
\<close>

fun index_vectors :: "nat \<Rightarrow> nat list \<Rightarrow> nat list \<Rightarrow> nat list list option" where
  "index_vectors 0 his idx = None"
| "index_vectors (Suc n) his idx =
     (case next_indices his idx of
        None \<Rightarrow> Some [idx]
      | Some idx' \<Rightarrow> map_option (Cons idx) (index_vectors n his idx'))"

text \<open>
  \<^verbatim>\<open>subset\<close> for one vector: \<open>Some None\<close> if \<^verbatim>\<open>is_concurrent\<close> becomes false, \<open>None\<close> on an access out of
  range.
\<close>

fun pick_concurrent :: "'d event list \<Rightarrow> ('d event list \<times> nat) list \<Rightarrow> 'd event list option option" where
  "pick_concurrent sub [] = Some (Some sub)"
| "pick_concurrent sub ((row, i) # rest) = do {
     e \<leftarrow> nth_opt row i;
     (if list_ex (\<lambda>x. is_less_than x e \<or> is_less_than e x) sub then Some None
      else pick_concurrent (sub @ [e]) rest) }"

definition call_filter ::
  "('d event list \<Rightarrow> 's \<Rightarrow> ('s \<times> bool) option) \<Rightarrow> 'd event list \<Rightarrow> 's \<times> 'd event list list
     \<Rightarrow> ('s \<times> 'd event list list) option" where
  "call_filter f M = (\<lambda>(s, result). do {
     (s, keep) \<leftarrow> f M s;
     Some (s, if keep then result @ [M] else result) })"

definition combine_vector where
  "combine_vector f rows idx st = do {
     r \<leftarrow> pick_concurrent [] (zip rows idx);
     (case r of None \<Rightarrow> Some st | Some M \<Rightarrow> call_filter f M st) }"

text \<open>The rows of the threads whose bit is set in the mask.\<close>

definition selected_rows :: "nat \<Rightarrow> 'a list \<Rightarrow> 'a list" where
  "selected_rows m rows = map fst (filter (\<lambda>(r, i). bit m i) (zip rows [0..<length rows]))"

definition combine_mask where
  "combine_mask f c m st =
     (let rows = selected_rows m (map (\<lambda>(u, t). t_events t) c);
          highest = map (\<lambda>r. length r - 1) rows in
      if rows = [] then call_filter f [] st
      else do {
        idxs \<leftarrow> index_vectors (prod_list (map Suc highest)) highest (replicate (length rows) 0);
        foldM (combine_vector f rows) idxs st })"

definition concurrent_combinations ::
  "('d event list \<Rightarrow> 's \<Rightarrow> ('s \<times> bool) option) \<Rightarrow> 'd comb \<Rightarrow> 's \<Rightarrow> ('s \<times> 'd event list list) option" where
  "concurrent_combinations f c s =
     (let c = comb_sort c in
      if length c < 64 then foldM (combine_mask f c) [0..<2 ^ length c] (s, []) else None)"

section \<open>The odometer\<close>

fun all_vectors :: "nat list \<Rightarrow> nat list list" where
  "all_vectors [] = [[]]"
| "all_vectors (h # hs) = concat (map (\<lambda>is. map (\<lambda>i. i # is) [0..<Suc h]) (all_vectors hs))"

lemma set_all_vectors: "set (all_vectors hs) = {is. list_all2 (\<le>) is hs}"
proof (induction hs)
  case (Cons h hs)
  have "list_all2 (\<le>) is (h # hs) \<longleftrightarrow> (\<exists>i js. is = i # js \<and> i \<le> h \<and> list_all2 (\<le>) js hs)" for "is"
    by (auto simp: list_all2_Cons2)
  then show ?case using Cons by (force simp: less_Suc_eq_le image_iff simp del: upt_Suc)
qed simp

lemma distinct_all_vectors: "distinct (all_vectors hs)"
proof (induction hs)
  case (Cons h hs)
  have "distinct (concat (map (\<lambda>is. map (\<lambda>i. i # is) [0..<Suc h]) iss))" if "distinct iss" for iss
    using that by (induction iss) (auto simp: distinct_map inj_on_def simp del: upt_Suc)
  then show ?case using Cons by (simp del: upt_Suc)
qed simp

definition runs_through :: "nat list \<Rightarrow> nat list list \<Rightarrow> bool" where
  "runs_through his xs \<longleftrightarrow> xs \<noteq> [] \<and> successively (\<lambda>a b. next_indices his a = Some b) xs \<and> next_indices his (last xs) = None"

lemma index_vectors_run:
  "runs_through his xs \<Longrightarrow> index_vectors (length xs) his (hd xs) = Some xs"
proof (induction xs)
  case (Cons x xs)
  show ?case
  proof (cases xs)
    case Nil
    then show ?thesis using Cons.prems by (simp add: runs_through_def)
  next
    case (Cons y ys)
    then have "runs_through his xs" "next_indices his x = Some y"
      using Cons.prems by (auto simp: runs_through_def)
    then show ?thesis using Cons.IH Cons by simp
  qed
qed (simp add: runs_through_def)

lemma block_run:
  "i \<le> h \<Longrightarrow> successively (\<lambda>a b. next_indices (h # hs) a = Some b) (map (\<lambda>i. i # is) [i..<Suc h])"
proof (induction "h - i" arbitrary: i)
  case (Suc n)
  then have "[i..<Suc h] = i # Suc i # [Suc (Suc i)..<Suc h]" by (simp add: upt_conv_Cons del: upt_Suc)
  moreover have "successively (\<lambda>a b. next_indices (h # hs) a = Some b) (map (\<lambda>i. i # is) [Suc i..<Suc h])"
    using Suc.hyps(2) by (intro Suc.hyps(1)) auto
  moreover have "[Suc i..<Suc h] = Suc i # [Suc (Suc i)..<Suc h]" using Suc.hyps(2) by (simp add: upt_conv_Cons del: upt_Suc)
  ultimately show ?case using Suc.hyps(2) by (simp del: upt_Suc)
qed simp

lemma blocks_run:
  assumes "xs \<noteq> []" "successively (\<lambda>a b. next_indices hs a = Some b) xs"
  shows "successively (\<lambda>a b. next_indices (h # hs) a = Some b) (concat (map (\<lambda>is. map (\<lambda>i. i # is) [0..<Suc h]) xs))"
  using assms
proof (induction xs)
  case (Cons x xs)
  show ?case
  proof (cases xs)
    case Nil
    then show ?thesis using block_run [of 0 h hs x] by (simp del: upt_Suc)
  next
    case (Cons y ys)
    have "hd (concat (map (\<lambda>is. map (\<lambda>i. i # is) [0..<Suc h]) xs)) = 0 # y" by (simp add: Cons upt_conv_Cons del: upt_Suc)
    moreover have "last (map (\<lambda>i. i # x) [0..<Suc h]) = h # x" by simp
    ultimately show ?thesis
      using Cons.IH Cons.prems Cons block_run [of 0 h hs x]
      by (auto simp: successively_append_iff simp del: upt_Suc)
  qed
qed simp

lemma all_vectors_run: "runs_through hs (all_vectors hs) \<and> hd (all_vectors hs) = replicate (length hs) 0"
proof (induction hs)
  case Nil
  show ?case by (simp add: runs_through_def)
next
  case (Cons h hs)
  let ?f = "\<lambda>is. map (\<lambda>i. i # is) [0..<Suc h]" and ?xs = "all_vectors hs"
  obtain x ys where x: "?xs = x # ys" "x = replicate (length hs) 0"
    using Cons by (cases ?xs) (auto simp: runs_through_def)
  obtain zs z where z: "?xs = zs @ [z]" "next_indices hs z = None"
    using Cons by (cases ?xs rule: rev_cases) (auto simp: runs_through_def)
  have "last (concat (map ?f ?xs)) = h # z" by (simp add: z(1))
  moreover have "hd (concat (map ?f ?xs)) = 0 # x" by (simp add: x(1) upt_conv_Cons del: upt_Suc)
  moreover have "concat (map ?f ?xs) \<noteq> []" by (simp add: x(1))
  ultimately show ?case
    using blocks_run [of ?xs hs h] Cons x z(2) by (simp add: runs_through_def del: upt_Suc)
qed

lemma length_all_vectors: "length (all_vectors hs) = prod_list (map Suc hs)"
proof (induction hs)
  case (Cons h hs)
  then show ?case by (simp add: length_concat comp_def sum_list_triv del: upt_Suc)
qed simp

lemma index_vectors_all:
  "index_vectors (prod_list (map Suc hs)) hs (replicate (length hs) 0) = Some (all_vectors hs)"
  using index_vectors_run [of hs "all_vectors hs"] all_vectors_run [of hs] by (simp add: length_all_vectors)

section \<open>Selections of events\<close>

text \<open>One element of each row, by index; and a set as such a selection from some of the rows.\<close>

definition select :: "'a list list \<Rightarrow> nat list \<Rightarrow> 'a list" where
  "select rows idx = map2 (!) rows idx"

lemma select_simps [simp]:
  "select [] idx = []" "select rows [] = []" "select (r # rows) (i # idx) = r ! i # select rows idx"
  by (simp_all add: select_def)

abbreviation indices_ok :: "nat list \<Rightarrow> 'a list list \<Rightarrow> bool" where
  "indices_ok idx rows \<equiv> list_all2 (\<lambda>i r. i < length r) idx rows"

fun rows_ok :: "'a list list \<Rightarrow> bool" where
  "rows_ok [] = True"
| "rows_ok (r # rows) \<longleftrightarrow> distinct r \<and> r \<noteq> [] \<and> set r \<inter> \<Union> (set ` set rows) = {} \<and> rows_ok rows"

lemma set_select_subset: "indices_ok idx rows \<Longrightarrow> set (select rows idx) \<subseteq> \<Union> (set ` set rows)"
  by (induction rule: list_all2_induct) auto

lemma nths_rows_subset: "\<Union> (set ` set (nths rows A)) \<subseteq> \<Union> (set ` set rows)"
  using set_nths_subset [of rows A] by auto

lemma selection_unique:
  assumes "rows_ok rows" "indices_ok idx (nths rows A)" "indices_ok jdx (nths rows B)"
    and "set (select (nths rows A) idx) = set (select (nths rows B) jdx)"
  shows "(\<forall>i < length rows. i \<in> A \<longleftrightarrow> i \<in> B) \<and> idx = jdx"
  using assms
proof (induction rows arbitrary: A B idx jdx)
  case (Cons r rows)
  let ?A = "{j. Suc j \<in> A}" and ?B = "{j. Suc j \<in> B}"
  have r: "distinct r" "set r \<inter> \<Union> (set ` set rows) = {}" "rows_ok rows" using Cons.prems(1) by auto
  have out: "set (select (nths rows X) is) \<inter> set r = {}" if "indices_ok is (nths rows X)" for X "is"
    using set_select_subset [OF that] nths_rows_subset [of rows X] r(2) by blast
  have split: "\<exists>is. indices_ok is (nths rows {j. Suc j \<in> X}) \<and> (if 0 \<in> X then \<exists>i < length r. idx = i # is
        \<and> set (select (nths (r # rows) X) idx) = insert (r ! i) (set (select (nths rows {j. Suc j \<in> X}) is))
      else idx = is \<and> set (select (nths (r # rows) X) idx) = set (select (nths rows {j. Suc j \<in> X}) is))"
    if ok: "indices_ok idx (nths (r # rows) X)" for X idx
  proof (cases "0 \<in> X")
    case True
    then obtain i "is" where "idx = i # is" "i < length r" "indices_ok is (nths rows {j. Suc j \<in> X})"
      using ok by (auto simp: nths_Cons list_all2_Cons2)
    then show ?thesis using True by (auto simp: nths_Cons)
  next
    case False
    then show ?thesis using ok by (auto simp: nths_Cons)
  qed
  obtain "is" where i: "indices_ok is (nths rows ?A)" "if 0 \<in> A then \<exists>i < length r. idx = i # is
        \<and> set (select (nths (r # rows) A) idx) = insert (r ! i) (set (select (nths rows ?A) is))
      else idx = is \<and> set (select (nths (r # rows) A) idx) = set (select (nths rows ?A) is)"
    using split [OF Cons.prems(2)] by blast
  obtain js where j: "indices_ok js (nths rows ?B)" "if 0 \<in> B then \<exists>i < length r. jdx = i # js
        \<and> set (select (nths (r # rows) B) jdx) = insert (r ! i) (set (select (nths rows ?B) js))
      else jdx = js \<and> set (select (nths (r # rows) B) jdx) = set (select (nths rows ?B) js)"
    using split [OF Cons.prems(3)] by blast
  note oi = out [OF i(1)] and oj = out [OF j(1)]
  have z: "0 \<in> A \<longleftrightarrow> 0 \<in> B" using i(2) j(2) oi oj Cons.prems(4) nth_mem [of _ r] by (auto split: if_splits)
  have "set (select (nths rows ?A) is) = set (select (nths (r # rows) A) idx) - set r"
    "set (select (nths rows ?B) js) = set (select (nths (r # rows) B) jdx) - set r"
    using i(2) j(2) oi oj nth_mem [of _ r] by (auto split: if_splits)
  then have IH: "(\<forall>i < length rows. i \<in> ?A \<longleftrightarrow> i \<in> ?B) \<and> is = js"
    using Cons.IH [OF r(3) i(1) j(1)] Cons.prems(4) by simp
  have "idx = jdx"
  proof (cases "0 \<in> A")
    case True
    then obtain a b where ab: "a < length r" "idx = a # is" "set (select (nths (r # rows) A) idx) \<inter> set r = {r ! a}"
        "b < length r" "jdx = b # js" "set (select (nths (r # rows) B) jdx) \<inter> set r = {r ! b}"
      using i(2) j(2) z oi oj by auto
    then have "a = b" using Cons.prems(4) nth_eq_iff_index_eq [OF r(1)] by auto
    then show ?thesis using ab IH by simp
  qed (use i(2) j(2) z IH in simp)
  moreover have "\<forall>i < length (r # rows). i \<in> A \<longleftrightarrow> i \<in> B"
    using IH z by (auto simp: less_Suc_eq_0_disj)
  ultimately show ?case by blast
qed simp

lemma selection_exists:
  assumes "rows_ok rows" "S \<subseteq> \<Union> (set ` set rows)" "\<forall>r \<in> set rows. \<forall>x \<in> S \<inter> set r. \<forall>y \<in> S \<inter> set r. x = y"
  shows "\<exists>A idx. A \<subseteq> {..<length rows} \<and> indices_ok idx (nths rows A) \<and> set (select (nths rows A) idx) = S"
  using assms
proof (induction rows arbitrary: S)
  case (Cons r rows)
  have r: "rows_ok rows" "set r \<inter> \<Union> (set ` set rows) = {}" using Cons.prems(1) by auto
  obtain A idx where A: "A \<subseteq> {..<length rows}" "indices_ok idx (nths rows A)" "set (select (nths rows A) idx) = S - set r"
  proof -
    have "S - set r \<subseteq> \<Union> (set ` set rows)" using Cons.prems(2) by auto
    moreover have "\<forall>q \<in> set rows. \<forall>x \<in> (S - set r) \<inter> set q. \<forall>y \<in> (S - set r) \<inter> set q. x = y"
      using Cons.prems(3) by auto
    ultimately show ?thesis using Cons.IH [OF r(1), of "S - set r"] that by blast
  qed
  have shift: "{j. Suc j \<in> Suc ` A} = A" "{j. Suc j \<in> insert 0 (Suc ` A)} = A" by auto
  show ?case
  proof (cases "S \<inter> set r = {}")
    case True
    then show ?thesis using A shift
      by (intro exI [of _ "Suc ` A"] exI [of _ idx]) (auto simp: nths_Cons)
  next
    case False
    then obtain x where x: "x \<in> S" "x \<in> set r" by blast
    then have "S \<inter> set r = {x}" using Cons.prems(3) by auto
    moreover obtain i where "i < length r" "r ! i = x" using x(2) by (auto simp: in_set_conv_nth)
    ultimately show ?thesis using A shift
      by (intro exI [of _ "insert 0 (Suc ` A)"] exI [of _ "i # idx"]) (auto simp: nths_Cons)
  qed
qed simp

section \<open>The enumeration\<close>

definition bits :: "nat \<Rightarrow> nat set" where
  "bits m = {i. bit m i}"

lemma selected_rows_nths: "selected_rows m rows = nths rows (bits m)"
  by (simp add: selected_rows_def nths_def bits_def case_prod_unfold)

definition concurrent_events :: "'d event set \<Rightarrow> bool" where
  "concurrent_events S \<longleftrightarrow> (\<forall>a \<in> S. \<forall>b \<in> S. \<not> is_less_than a b)"

lemma pick_concurrent_select:
  assumes "indices_ok idx rows" "concurrent_events (set acc)"
  shows "pick_concurrent acc (zip rows idx) =
    Some (if concurrent_events (set (acc @ select rows idx)) then Some (acc @ select rows idx) else None)"
  using assms
proof (induction arbitrary: acc rule: list_all2_induct)
  case (Cons i idx r rows)
  let ?e = "r ! i"
  show ?case
  proof (cases "list_ex (\<lambda>x. is_less_than x ?e \<or> is_less_than ?e x) acc")
    case True
    then have "\<not> concurrent_events (set (acc @ ?e # select rows idx))"
      by (auto simp: concurrent_events_def list_ex_iff)
    then show ?thesis using True Cons.hyps by (simp add: nth_opt_def)
  next
    case False
    have "\<not> is_less_than ?e ?e" by (simp add: is_less_than_def)
    then have "concurrent_events (set (acc @ [?e]))"
      using False Cons.prems by (auto simp: concurrent_events_def list_ex_iff)
    from Cons.IH [OF this] show ?thesis using False Cons.hyps by (simp add: nth_opt_def)
  qed
qed simp

lemma rows_ok_nths: "rows_ok rows \<Longrightarrow> rows_ok (nths rows A)"
proof (induction rows arbitrary: A)
  case (Cons r rows)
  then show ?case using nths_rows_subset [of rows "{j. Suc j \<in> A}"] by (auto simp: nths_Cons)
qed simp

lemma distinct_select: "indices_ok idx rows \<Longrightarrow> rows_ok rows \<Longrightarrow> distinct (select rows idx)"
proof (induction rule: list_all2_induct)
  case (Cons i idx r rows)
  have "r ! i \<in> set r" by (rule nth_mem [OF Cons.hyps(1)])
  then have "r ! i \<notin> set (select rows idx)" using set_select_subset [OF Cons.hyps(2)] Cons.prems by auto
  then show ?case using Cons by simp
qed simp

lemma rows_ok_nonempty: "rows_ok rows \<Longrightarrow> r \<in> set rows \<Longrightarrow> r \<noteq> []"
  by (induction rows) auto

lemma vectors_indices:
  assumes "rows_ok rows"
  shows "set (all_vectors (map (\<lambda>r. length r - 1) rows)) = {idx. indices_ok idx rows}"
proof -
  have "list_all2 (\<le>) idx (map (\<lambda>r. length r - 1) rows) \<longleftrightarrow> indices_ok idx rows" for idx
  proof -
    have "idx ! i \<le> length (rows ! i) - 1 \<longleftrightarrow> idx ! i < length (rows ! i)" if "i < length rows" for i
      using rows_ok_nonempty [OF assms nth_mem [OF that]] by (cases "rows ! i") auto
    then show ?thesis by (auto simp: list_all2_conv_all_nth)
  qed
  then show ?thesis by (simp add: set_all_vectors)
qed

lemma comb_rows_ok: "comb_ok c \<Longrightarrow> rows_ok (map (\<lambda>(u, t). t_events t) c)"
proof (induction c)
  case (Cons x c)
  obtain u t where x: "x = (u, t)" by (cases x)
  have ok: "comb_ok c" "t_events t \<noteq> []" "tooth_ok u t" using Cons.prems by (auto simp: comb_ok_def smap_ok_Cons x)
  have "v \<noteq> u \<and> tooth_ok v r" if "(v, r) \<in> set c" for v r
    using Cons.prems that by (auto simp: comb_ok_def smap_ok_Cons x)
  then have "set (t_events t) \<inter> \<Union> (set ` set (map (\<lambda>(u, t). t_events t) c)) = {}"
    using tooth_tid [OF ok(3)] tooth_tid by fastforce
  moreover have "distinct (t_events t)" using ok(3) by (auto simp: tooth_ok_def Let_def intro: distinct_map_depth)
  ultimately show ?case using Cons.IH [OF ok(1)] ok(2) by (simp add: x)
qed simp

text \<open>The sets in the order in which the function is called on them.\<close>

definition choices :: "'d event list list \<Rightarrow> (nat \<times> nat list) list" where
  "choices rows = concat (map (\<lambda>m. map (Pair m) (all_vectors (map (\<lambda>r. length r - 1) (nths rows (bits m))))) [0..<2 ^ length rows])"

definition chosen :: "'d event list list \<Rightarrow> nat \<times> nat list \<Rightarrow> 'd event list" where
  "chosen rows = (\<lambda>(m, idx). select (nths rows (bits m)) idx)"

definition combinations :: "'d event list list \<Rightarrow> 'd event list list" where
  "combinations rows = map (chosen rows) (filter (\<lambda>p. concurrent_events (set (chosen rows p))) (choices rows))"

lemma foldM_concat: "foldM (\<lambda>x. foldM g (h x)) xs s = foldM g (concat (map h xs)) s"
  by (induction xs arbitrary: s) (auto simp: foldM_append split: bind_split)

lemma foldM_cong: "(\<And>x s. x \<in> set xs \<Longrightarrow> f x s = g x s) \<Longrightarrow> foldM f xs s = foldM g xs s"
  by (induction xs arbitrary: s) (auto intro!: arg_cong [where f = "Option.bind _"])

lemma foldM_filter: "foldM (\<lambda>x s. if P x then g (k x) s else Some s) xs s = foldM g (map k (filter P xs)) s"
  by (induction xs arbitrary: s) (auto split: bind_split)

lemma combine_mask_eq:
  assumes "rows_ok (map (\<lambda>(u, t). t_events t) c)"
  shows "combine_mask f c m st =
    foldM (call_filter f) (map (chosen (map (\<lambda>(u, t). t_events t) c))
      (filter (\<lambda>p. concurrent_events (set (chosen (map (\<lambda>(u, t). t_events t) c) p)))
        (map (Pair m) (all_vectors (map (\<lambda>r. length r - 1) (nths (map (\<lambda>(u, t). t_events t) c) (bits m))))))) st"
proof -
  let ?rows = "nths (map (\<lambda>(u, t). t_events t) c) (bits m)"
  note selected_rows_nths [simp]
  let ?vs = "all_vectors (map (\<lambda>r. length r - 1) ?rows)"
  have "combine_vector f ?rows idx st = (if concurrent_events (set (select ?rows idx)) then call_filter f (select ?rows idx) st else Some st)"
    if "idx \<in> set ?vs" for idx st
    using that pick_concurrent_select [of idx ?rows "[]"] vectors_indices [OF rows_ok_nths [OF assms]]
    by (simp add: combine_vector_def concurrent_events_def [of "{}"])
  then have "foldM (combine_vector f ?rows) ?vs st
      = foldM (\<lambda>idx st. if concurrent_events (set (select ?rows idx)) then call_filter f (select ?rows idx) st else Some st) ?vs st"
    by (rule foldM_cong)
  also have "\<dots> = foldM (call_filter f) (map (select ?rows) (filter (\<lambda>idx. concurrent_events (set (select ?rows idx))) ?vs)) st"
    by (rule foldM_filter)
  finally have ne: "foldM (combine_vector f ?rows) ?vs st = \<dots>" .
  have iv: "index_vectors (prod_list (map Suc (map (\<lambda>r. length r - 1) ?rows))) (map (\<lambda>r. length r - 1) ?rows)
      (replicate (length ?rows) 0) = Some ?vs"
    using index_vectors_all [of "map (\<lambda>r. length r - 1) ?rows"] by (simp only: length_map)
  show ?thesis
  proof (cases "?rows = []")
    case True
    then show ?thesis by (cases "call_filter f [] st") (simp_all add: combine_mask_def chosen_def concurrent_events_def)
  next
    case False
    then have "combine_mask f c m st = foldM (combine_vector f ?rows) ?vs st"
      by (simp only: combine_mask_def Let_def selected_rows_nths iv if_False Option.bind.bind_lunit)
    then show ?thesis unfolding ne by (simp add: filter_map comp_def chosen_def)
  qed
qed

lemma concurrent_combinations_eq:
  assumes "comb_ok c" "length c < 64"
  shows "concurrent_combinations f c s = foldM (call_filter f) (combinations (map (\<lambda>(u, t). t_events t) (comb_sort c))) (s, [])"
proof -
  let ?c = "comb_sort c"
  have ok: "rows_ok (map (\<lambda>(u, t). t_events t) ?c)"
    using comb_rows_ok comb_sort_ok(1) [OF assms(1)] by (auto simp: comb_sorted_def)
  have len: "length ?c = length c" by (simp add: comb_sort_def)
  have "foldM (combine_mask f ?c) ms st = foldM (\<lambda>m. foldM (call_filter f)
      (map (chosen (map (\<lambda>(u, t). t_events t) ?c))
        (filter (\<lambda>p. concurrent_events (set (chosen (map (\<lambda>(u, t). t_events t) ?c) p)))
          (map (Pair m) (all_vectors (map (\<lambda>r. length r - 1) (nths (map (\<lambda>(u, t). t_events t) ?c) (bits m)))))))) ms st"
    for ms st
    by (rule foldM_cong) (rule combine_mask_eq [OF ok])
  then show ?thesis
    using assms(2)
    by (simp only: concurrent_combinations_def Let_def len foldM_concat combinations_def choices_def
        filter_concat map_concat comp_def map_map length_map if_True)
qed

lemma distinct_choices: "distinct (choices rows)"
proof -
  have "distinct (concat (map (\<lambda>m. map (Pair m) (F m)) ms))" if "distinct ms" "\<And>m. distinct (F m)" for ms and F :: "nat \<Rightarrow> nat list list"
    using that(1) by (induction ms) (auto simp: distinct_map inj_on_def that(2))
  from this [OF distinct_upt distinct_all_vectors] show ?thesis unfolding choices_def .
qed

lemma mask_eq:
  assumes "(m :: nat) < 2 ^ n" "k < 2 ^ n" "\<forall>i < n. bit m i \<longleftrightarrow> bit k i"
  shows "m = k"
proof (rule bit_eqI)
  fix i
  show "bit m i \<longleftrightarrow> bit k i"
    using assms bit_take_bit_iff [of n m i] bit_take_bit_iff [of n k i] by (simp add: take_bit_nat_eq_self) blast
qed

lemma mask_exists:
  assumes "A \<subseteq> {..<n}"
  shows "\<exists>m < (2 :: nat) ^ n. bits m = A"
proof -
  let ?bs = "map (\<lambda>i. i \<in> A) [0..<n]"
  have "horner_sum of_bool (2 :: nat) ?bs < 2 ^ n" using horner_sum_of_bool_2_less [of ?bs] by simp
  moreover have "bits (horner_sum of_bool (2 :: nat) ?bs) = A"
    using assms by (auto simp: bits_def bit_horner_sum_bit_iff)
  ultimately show ?thesis by blast
qed

lemma combinations_exact:
  assumes "rows_ok rows" "\<forall>r \<in> set rows. \<forall>a \<in> set r. \<forall>b \<in> set r. a = b \<or> is_less_than a b \<or> is_less_than b a"
  shows "distinct (map set (combinations rows))" "M \<in> set (combinations rows) \<Longrightarrow> distinct M"
    and "set ` set (combinations rows) = {S. S \<subseteq> \<Union> (set ` set rows) \<and> concurrent_events S}"
proof -
  have ch: "(m, idx) \<in> set (choices rows) \<longleftrightarrow> m < 2 ^ length rows \<and> indices_ok idx (nths rows (bits m))" for m idx
    using vectors_indices [OF rows_ok_nths [OF assms(1)]] by (auto simp: choices_def)
  have inj: "inj_on (\<lambda>p. set (chosen rows p)) (set (choices rows))"
  proof (rule inj_onI)
    fix p q assume pq: "p \<in> set (choices rows)" "q \<in> set (choices rows)" "set (chosen rows p) = set (chosen rows q)"
    obtain m idx k jdx where e: "p = (m, idx)" "q = (k, jdx)" by (cases p; cases q)
    have mk: "m < 2 ^ length rows" "k < 2 ^ length rows" "indices_ok idx (nths rows (bits m))"
        "indices_ok jdx (nths rows (bits k))" using pq(1,2) by (auto simp: e ch)
    have "(\<forall>i < length rows. i \<in> bits m \<longleftrightarrow> i \<in> bits k) \<and> idx = jdx"
      using selection_unique [OF assms(1) mk(3,4)] pq(3) by (simp add: e chosen_def)
    then show "p = q" using mask_eq [OF mk(1,2)] by (simp add: e bits_def)
  qed
  show "distinct (map set (combinations rows))"
    unfolding combinations_def map_map distinct_map
    using distinct_choices [of rows] inj_on_subset [OF inj] by (auto simp: comp_def)
  show "distinct M" if M: "M \<in> set (combinations rows)"
  proof -
    obtain m idx where "M = select (nths rows (bits m)) idx" "indices_ok idx (nths rows (bits m))"
      using M by (auto simp: combinations_def chosen_def ch)
    then show ?thesis using distinct_select rows_ok_nths [OF assms(1)] by blast
  qed
  show "set ` set (combinations rows) = {S. S \<subseteq> \<Union> (set ` set rows) \<and> concurrent_events S}"
  proof (intro set_eqI iffI)
    fix S assume "S \<in> set ` set (combinations rows)"
    then obtain m idx where S: "S = set (select (nths rows (bits m)) idx)" "concurrent_events S"
        "indices_ok idx (nths rows (bits m))"
      by (auto simp: combinations_def chosen_def ch)
    then show "S \<in> {S. S \<subseteq> \<Union> (set ` set rows) \<and> concurrent_events S}"
      using set_select_subset [OF S(3)] nths_rows_subset [of rows "bits m"] by auto
  next
    fix S assume S: "S \<in> {S. S \<subseteq> \<Union> (set ` set rows) \<and> concurrent_events S}"
    then have "\<forall>r \<in> set rows. \<forall>x \<in> S \<inter> set r. \<forall>y \<in> S \<inter> set r. x = y"
      using assms(2) unfolding concurrent_events_def by blast
    then obtain A idx where A: "A \<subseteq> {..<length rows}" "indices_ok idx (nths rows A)" "set (select (nths rows A) idx) = S"
      using selection_exists [OF assms(1), of S] S by blast
    obtain m where m: "m < 2 ^ length rows" "bits m = A" using mask_exists [OF A(1)] by blast
    have "(m, idx) \<in> set (choices rows)" "chosen rows (m, idx) = select (nths rows A) idx"
      using m A(2) by (simp_all add: ch chosen_def)
    then have "set (chosen rows (m, idx)) = S" "chosen rows (m, idx) \<in> set (combinations rows)"
      using S A(3) unfolding combinations_def set_map set_filter by (simp, intro imageI, simp)
    then show "S \<in> set ` set (combinations rows)" by blast
  qed
qed

lemma concurrent_hb:
  assumes "is_configuration addr C" "S \<subseteq> C"
  shows "concurrent_events S \<longleftrightarrow> (\<forall>a \<in> S. \<forall>b \<in> S. \<not> hb a b)"
  using configuration_less_than [OF assms(1)] assms(2) unfolding concurrent_events_def by blast

lemma rows_comparable:
  assumes "is_configuration addr C" "comb_ok c" "set (comb_events c) \<subseteq> C"
  shows "\<forall>r \<in> set (map (\<lambda>(u, t). t_events t) c). \<forall>a \<in> set r. \<forall>b \<in> set r. a = b \<or> is_less_than a b \<or> is_less_than b a"
proof (intro ballI)
  fix r a b assume r: "r \<in> set (map (\<lambda>(u, t). t_events t) c)" "a \<in> set r" "b \<in> set r"
  then obtain u t where t: "(u, t) \<in> set c" "r = t_events t" by auto
  have "tid a = u" "tid b = u" using tooth_tid [of u t] t r(2,3) assms(2) by (auto simp: comb_ok_def)
  moreover have ab: "a \<in> C" "b \<in> C" using r(2,3) t assms(3) by (auto simp: comb_events_def)
  ultimately have "a = b \<or> hb a b \<or> hb b a"
    using less_than_cone_hb [OF assms(1) ab] less_than_cone_hb [OF assms(1) ab(2,1)]
    by (cases "depth a \<le> depth b") auto
  then show "a = b \<or> is_less_than a b \<or> is_less_than b a"
    using configuration_less_than [OF assms(1)] ab by blast
qed

text \<open>
  C31. \<^verbatim>\<open>comb::concurrent_combinations\<close> on a comb of events of one configuration, with fewer than 64
  threads, calls the filter on exactly the sets of pairwise concurrent events of the comb, the empty
  set included: each of them once, without repeated events, in a fixed order that does not depend on
  what the filter answers, and the result keeps those for which the filter answers true.
\<close>

theorem concurrent_combinations_spec:
  assumes "is_configuration addr C" "comb_ok c" "set (comb_events c) \<subseteq> C" "length c < 64"
  shows "\<exists>Ms. (\<forall>f s. concurrent_combinations f c (s :: 's) = foldM (call_filter f) Ms (s, []))
    \<and> distinct (map set Ms) \<and> list_all distinct Ms
    \<and> set ` set Ms = {S. S \<subseteq> set (comb_events c) \<and> (\<forall>a \<in> S. \<forall>b \<in> S. \<not> hb a b)}"
proof -
  let ?c = "comb_sort c" and ?rows = "map (\<lambda>(u, t). t_events t) (comb_sort c)"
  have c: "comb_ok ?c" "set (comb_events ?c) = set (comb_events c)"
    using comb_sort_ok [OF assms(2)] by (simp_all add: comb_sorted_def)
  have un: "\<Union> (set ` set ?rows) = set (comb_events c)" using c(2) by (auto simp: comb_events_def)
  have cmp: "\<forall>r \<in> set ?rows. \<forall>a \<in> set r. \<forall>b \<in> set r. a = b \<or> is_less_than a b \<or> is_less_than b a"
    using rows_comparable [OF assms(1) c(1)] c(2) assms(3) by simp
  note ex = combinations_exact [OF comb_rows_ok [OF c(1)] cmp]
  have "{S. S \<subseteq> set (comb_events c) \<and> concurrent_events S} = {S. S \<subseteq> set (comb_events c) \<and> (\<forall>a \<in> S. \<forall>b \<in> S. \<not> hb a b)}"
    by (intro Collect_cong conj_cong refl concurrent_hb [OF assms(1)] order_trans [OF _ assms(3)])
  then have "set ` set (combinations ?rows) = {S. S \<subseteq> set (comb_events c) \<and> (\<forall>a \<in> S. \<forall>b \<in> S. \<not> hb a b)}"
    using ex(3) by (simp only: un)
  moreover have "list_all distinct (combinations ?rows)" using ex(2) by (auto simp: list_all_iff)
  ultimately show ?thesis
    using concurrent_combinations_eq [OF assms(2,4)] ex(1) by (intro exI [of _ "combinations ?rows"] conjI allI)
qed

theorem concurrent_combinations_spec_witness:
  "\<exists>c Ms. comb_insert ex_child [] = Some c
    \<and> concurrent_combinations (\<lambda>M n. Some (Suc n, M \<noteq> [])) c (0 :: nat) = foldM (call_filter (\<lambda>M n. Some (Suc n, M \<noteq> []))) Ms (0, [])
    \<and> set ` set Ms = {{}, {ex_child}}"
proof -
  obtain c where c: "comb_insert ex_child [] = Some c" "comb_ok c" "set (comb_events c) = {ex_child}"
    using comb_insert_configuration [OF ex_configuration [of "\<lambda>_. 0"], of "[]" ex_child] ex_mem
    by (auto simp: comb_ok_def comb_events_def)
  have len: "length c < 64" using c(1) by (auto simp: comb_insert_def split: bind_splits)
  have "{S. S \<subseteq> {ex_child} \<and> (\<forall>a \<in> S. \<forall>b \<in> S. \<not> hb a b)} = {{}, {ex_child}}"
    using hb.irrefl [of ex_child] by auto
  then obtain Ms where "\<forall>f s. concurrent_combinations f c (s :: nat) = foldM (call_filter f) Ms (s, [])"
      "set ` set Ms = {{}, {ex_child}}"
    using concurrent_combinations_spec [where 's = nat, OF ex_configuration [of "\<lambda>_. 0"] c(2) _ len] c(3) ex_mem by auto
  then show ?thesis using c(1) by blast
qed

end
