(* ===== verification/Cex.thy ===== *)
theory Cex
  imports Commit Combinations
begin

text \<open>
  The conflicting extensions of a configuration (\<^verbatim>\<open>configuration.h\<close>): for an event of the
  configuration, the events that its thread could have had in its place, had the other threads been
  scheduled differently.

  A candidate is a result of \<^verbatim>\<open>deduplicate\<close>: whether the event was unknown, and the event. The
  functions pass the unfolding along with the candidates collected so far.
\<close>

section \<open>Candidates\<close>

type_synonym 'd candidates = "'d unf \<times> (bool \<times> 'd event) list"

definition add_candidate :: "'d event \<Rightarrow> 'd candidates \<Rightarrow> 'd candidates option" where
  "add_candidate a = (\<lambda>(u, result). do {
     (u, unknown, v) \<leftarrow> deduplicate False a u;
     Some (stats_inc_event_created (kind a) u, result @ [(unknown, v)]) })"

section \<open>Lock acquisitions\<close>

text \<open>\<^verbatim>\<open>while(em != nullptr && !\<close>\<open>P\<close>\<^verbatim>\<open>(em)) em = em->lock_predecessor();\<close>\<close>

function descend_lock :: "('d event \<Rightarrow> bool) \<Rightarrow> 'd event option \<Rightarrow> 'd event option" where
  "descend_lock P None = None"
| "descend_lock P (Some em) = (if P em then Some em else descend_lock P (lock_predecessor em))"
  by pat_completeness auto
termination
  by (relation "measure (\<lambda>(P, x). case x of None \<Rightarrow> 0 | Some e \<Rightarrow> Suc (size e))")
     (auto split: option.splits simp: size_lock_predecessor)

text \<open>In \<open>[et]\<close>, or for a \<^verbatim>\<open>wait2\<close> in \<open>[et] \<union> [es]\<close>.\<close>

definition in_past :: "'d event \<Rightarrow> 'd event option \<Rightarrow> 'd event \<Rightarrow> bool" where
  "in_past et es em \<longleftrightarrow> is_less_than_eq em et \<or> (case es of None \<Rightarrow> False | Some s \<Rightarrow> is_less_than em s)"

definition acquire_alternative ::
  "'d event \<Rightarrow> 'd event \<Rightarrow> 'd event option \<Rightarrow> 'd event option \<Rightarrow> 'd event option" where
  "acquire_alternative e et es lp =
     (if kind e = K_lock_acquire then alloc_lock_acquire (tid e) (lid e) et lp
      else do { s \<leftarrow> es; p \<leftarrow> lp; alloc_wait2 (tid e) (cid e) (lid e) et p s })"

definition add_alternative where
  "add_alternative e et es lp st = do { a \<leftarrow> acquire_alternative e et es lp; add_candidate a st }"

definition first_alternative ::
  "'d event \<Rightarrow> 'd event \<Rightarrow> 'd event option \<Rightarrow> 'd event option \<Rightarrow> 'd candidates \<Rightarrow> 'd candidates option" where
  "first_alternative e et es em st =
     (case em of
        None \<Rightarrow> if kind e = K_lock_acquire then add_alternative e et es None st else None
      | Some m \<Rightarrow>
          if kind m = K_lock_release \<or> kind m = K_wait1 then
            (if kind e = K_lock_acquire \<or> kind m = K_lock_release then add_alternative e et es em st else Some st)
          else if kind m = K_lock_create then
            (if kind e = K_lock_acquire then add_alternative e et es em st else None)
          else Some st)"

function older_alternatives ::
  "'d event \<Rightarrow> 'd event \<Rightarrow> 'd event option \<Rightarrow> 'd event option \<Rightarrow> 'd event option \<Rightarrow> 'd candidates
     \<Rightarrow> 'd candidates option" where
  "older_alternatives e et es em None st = Some st"
| "older_alternatives e et es em (Some ep) st =
     (if (case em of None \<Rightarrow> False | Some m \<Rightarrow> is_less_than_eq ep m)
         \<or> (case es of None \<Rightarrow> False | Some s \<Rightarrow> is_less_than_eq ep s) then Some st
      else do {
        st \<leftarrow> (if kind ep = K_lock_release \<or> kind ep = K_wait1 \<or> kind ep = K_lock_create then
                (if kind e = K_lock_acquire \<or> kind ep \<noteq> K_lock_create
                 then add_alternative e et es (Some ep) st else None)
              else Some st);
        older_alternatives e et es em (lock_predecessor ep) st })"
  by pat_completeness auto
termination
  by (relation "measure (\<lambda>(e, et, es, em, x, st). case x of None \<Rightarrow> 0 | Some p \<Rightarrow> Suc (size p))")
     (auto split: option.splits simp: size_lock_predecessor)

definition cex_acquire :: "'d event \<Rightarrow> 'd unf \<Rightarrow> 'd candidates option" where
  "cex_acquire e u =
     (if kind e \<noteq> K_lock_acquire \<and> kind e \<noteq> K_wait2 then None
      else do {
        et \<leftarrow> thread_predecessor e;
        let es = (if kind e = K_wait2 then notifying_predecessor e else None);
        let er = lock_predecessor e;
        let em = descend_lock (in_past et es) er;
        (if u_cutoff u et then Some (u, [])
         else if kind e = K_wait2 \<and> es = None then None
         else if (case es of None \<Rightarrow> False | Some s \<Rightarrow> u_cutoff u s) then Some (u, [])
         else if em = er then Some (u, [])
         else do {
           st \<leftarrow> first_alternative e et es em (u, []);
           r \<leftarrow> er;
           older_alternatives e et es em (lock_predecessor r) st }) })"

section \<open>Waiting\<close>

text \<open>
  The comb of the predecessors on the condition variable, and its creation event if there is one.
\<close>

definition wait1_comb_step ::
  "'d event \<Rightarrow> 'd event \<Rightarrow> 'd event \<Rightarrow> 'd event option \<times> 'd comb \<Rightarrow> ('d event option \<times> 'd comb) option" where
  "wait1_comb_step e et p = (\<lambda>(cond_create, c).
     if kind p = K_condition_variable_create then Some (Some p, c)
     else if tid p \<noteq> tid e \<and> \<not> is_less_than p et then map_option (Pair cond_create) (comb_insert p c)
     else None)"

text \<open>The loop over \<^verbatim>\<open>e.cone()\<close> that looks for an event missing from the new cone.\<close>

fun some_less :: "'d cone \<Rightarrow> 'd cone \<Rightarrow> bool option" where
  "some_less new [] = Some False"
| "some_less new ((t, c) # rest) = do {
     f \<leftarrow> map_of new t;
     (if is_less_than f c then Some True else some_less new rest) }"

definition cone_differs :: "'d cone \<Rightarrow> 'd cone \<Rightarrow> bool option" where
  "cone_differs new old =
     (if length new > length old then None
      else if length new \<noteq> length old then Some True
      else some_less new old)"

definition wait1_filter ::
  "('d event \<Rightarrow> nat) \<Rightarrow> 'd event \<Rightarrow> 'd event \<Rightarrow> 'd event option \<Rightarrow> 'd event list \<Rightarrow> 'd candidates
     \<Rightarrow> ('d candidates \<times> bool) option" where
  "wait1_filter addr e et cond_create M st = do {
     cex_found \<leftarrow> cone_differs (cone_of_events et cond_create M) (cone e);
     (if \<not> cex_found then Some (st, False)
      else do {
        lp \<leftarrow> lock_predecessor e;
        a \<leftarrow> alloc_wait1 addr (tid e) (cid e) (lid e) et lp (M @ (case cond_create of None \<Rightarrow> [] | Some p \<Rightarrow> [p]));
        st \<leftarrow> add_candidate a st;
        Some (st, False) }) }"

definition cex_wait1 :: "('d event \<Rightarrow> nat) \<Rightarrow> 'd event \<Rightarrow> 'd unf \<Rightarrow> 'd candidates option" where
  "cex_wait1 addr e u =
     (if kind e \<noteq> K_wait1 then None
      else do {
        et \<leftarrow> thread_predecessor e;
        (if u_cutoff u et then Some (u, [])
         else do {
           (cond_create, c) \<leftarrow> foldM (wait1_comb_step e et) (condition_variable_predecessors e) (None, []);
           map_option fst (concurrent_combinations (wait1_filter addr e et cond_create) c (u, [])) }) })"

section \<open>Outstanding waits\<close>

text \<open>
  \<^verbatim>\<open>outstanding_wait1\<close>: the threads of a cone that are blocked on a condition variable and that no
  event below the cone notifies. Events of equal depth may come in any order from \<^verbatim>\<open>std::sort\<close>; the
  model keeps the order of the threads.
\<close>

definition drop_notified :: "cond_id_t \<Rightarrow> 'd event \<Rightarrow> 'd event list \<Rightarrow> 'd event list" where
  "drop_notified cv e ws =
     (if kind e = K_signal then
        (if cid e \<noteq> cv \<or> is_lost e then ws else filter (\<lambda>w. wait_predecessors e \<noteq> [w]) ws)
      else if kind e = K_broadcast then
        (if cid e \<noteq> cv \<or> is_lost e then ws
         else filter (\<lambda>w. \<not> list_ex (\<lambda>n. tid n = tid w \<and> depth n = depth w) (wait_predecessors e)) ws)
      else ws)"

fun drop_notified_chain :: "cond_id_t \<Rightarrow> 'd event list \<Rightarrow> 'd event list \<Rightarrow> 'd event list" where
  "drop_notified_chain cv [] ws = ws"
| "drop_notified_chain cv (e # es) ws =
     (if ws = [] \<or> depth e < depth (hd ws) then ws
      else drop_notified_chain cv es (drop_notified cv e ws))"

definition outstanding_wait1 :: "cond_id_t \<Rightarrow> 'd cone \<Rightarrow> 'd event list" where
  "outstanding_wait1 cv c =
     (let ws = sort_key depth (filter (\<lambda>e. kind e = K_wait1 \<and> cid e = cv) (cone_events c)) in
      if ws = [] then ws
      else fold (\<lambda>e. drop_notified_chain cv (thread_chain e)) (cone_events c) ws)"

definition outstanding_wait1_events :: "cond_id_t \<Rightarrow> 'd event list \<Rightarrow> 'd event list option" where
  "outstanding_wait1_events cv es =
     (case es of
        [] \<Rightarrow> None
      | [e] \<Rightarrow> Some (outstanding_wait1 cv (cone e))
      | _ \<Rightarrow> Some (outstanding_wait1 cv (cone_of_range es)))"

section \<open>Notifications\<close>

definition notification_max :: "'d event \<Rightarrow> 'd event \<Rightarrow> 'd event list option" where
  "notification_max e et = do {
     c \<leftarrow> foldM comb_insert
           (filter (\<lambda>p. \<not> (tid p = tid e \<or> is_less_than p et)) (condition_variable_predecessors e)) [];
     comb_max c }"

text \<open>The events on the condition variable that are neither in \<open>[et]\<close> nor after \<open>e\<close>, thread by thread.\<close>

definition notification_event ::
  "'d event \<Rightarrow> 'd event \<Rightarrow> 'd event option \<times> 'd comb \<times> 'd comb \<Rightarrow> ('d event option \<times> 'd comb \<times> 'd comb) option" where
  "notification_event e p = (\<lambda>(cond_create, c, wc).
     if cid p \<noteq> cid e then Some (cond_create, c, wc)
     else if kind p = K_condition_variable_create then Some (Some p, c, wc)
     else if kind p = K_wait2 then Some (cond_create, c, wc)
     else do {
       c \<leftarrow> comb_insert p c;
       wc \<leftarrow> (if kind p = K_wait1 then comb_insert p wc else Some wc);
       Some (cond_create, c, wc) })"

fun notification_walk where
  "notification_walk e et [] st = Some st"
| "notification_walk e et (p # ps) st =
     (if tid p = tid e \<or> is_less_than e p \<or> is_less_than p et then Some st
      else do { st \<leftarrow> notification_event e p st; notification_walk e et ps st })"

definition notification_combs ::
  "'d cfg \<Rightarrow> 'd event \<Rightarrow> 'd event \<Rightarrow> ('d event option \<times> 'd comb \<times> 'd comb) option" where
  "notification_combs c e et =
     foldM (\<lambda>(t, h). notification_walk e et (thread_chain h)) (thread_heads c) (None, [], [])"

definition is_max :: "'d event list \<Rightarrow> 'd event list \<Rightarrow> bool" where
  "is_max mx M \<longleftrightarrow> length mx = length M \<and> list_all (\<lambda>m. list_all (\<lambda>x. \<not> is_less_than m x) mx) M"

definition only_notifying :: "'d event list \<Rightarrow> bool" where
  "only_notifying M =
     (if length M = 1 \<and> kind (hd M) = K_broadcast then \<not> is_lost (hd M)
      else list_all (\<lambda>m. kind m = K_signal \<and> \<not> is_lost m) M)"

definition lost_cond_predecessors :: "thread_id \<Rightarrow> 'd event option \<Rightarrow> 'd event list \<Rightarrow> 'd event list" where
  "lost_cond_predecessors t cond_create M =
     filter (\<lambda>m. if kind m = K_broadcast then \<not> is_lost m \<and> \<not> is_notifying_thread m t
                 else kind m = K_signal \<and> \<not> is_lost m \<and> notified_thread m \<noteq> t) M
     @ (case cond_create of None \<Rightarrow> [] | Some p \<Rightarrow> [p])"

definition lost_filter ::
  "('d event \<Rightarrow> nat) \<Rightarrow> 'd event \<Rightarrow> 'd event \<Rightarrow> 'd event option \<Rightarrow> 'd event list \<Rightarrow> 'd event list \<Rightarrow> 'd candidates
     \<Rightarrow> ('d candidates \<times> bool) option" where
  "lost_filter addr e et cond_create mx M st =
     (if is_max mx M \<or> \<not> only_notifying M then Some (st, False)
      else do {
        ws \<leftarrow> outstanding_wait1_events (cid e) (M @ [et]);
        (if ws \<noteq> [] then Some (st, False)
         else let N = lost_cond_predecessors (tid e) cond_create M in
           if kind e = K_signal then do {
             a \<leftarrow> alloc_signal_lost addr (tid e) (cid e) et N; st \<leftarrow> add_candidate a st; Some (st, False) }
           else if kind e = K_broadcast then do {
             a \<leftarrow> alloc_broadcast addr (tid e) (cid e) et N; st \<leftarrow> add_candidate a st; Some (st, False) }
           else Some (st, False)) })"

definition signal_alternative :: "'d event \<Rightarrow> 'd event \<Rightarrow> 'd event \<Rightarrow> 'd candidates \<Rightarrow> 'd candidates option" where
  "signal_alternative e et w st =
     (if wait_predecessors e = [w] then Some st
      else do { a \<leftarrow> alloc_signal (tid e) (cid e) et w; add_candidate a st })"

definition broadcast_filter ::
  "('d event \<Rightarrow> nat) \<Rightarrow> 'd event \<Rightarrow> 'd event \<Rightarrow> 'd event list \<Rightarrow> 'd event list \<Rightarrow> 'd candidates
     \<Rightarrow> ('d candidates \<times> bool) option" where
  "broadcast_filter addr e et mx M st =
     (if is_max mx M \<or> \<not> list_all (\<lambda>m. kind m = K_wait1 \<or> (kind m = K_signal \<and> \<not> is_lost m)) M then Some (st, False)
      else do {
        ws \<leftarrow> outstanding_wait1_events (cid e) (M @ [et]);
        (if ws = [] then Some (st, False)
         else do {
           a \<leftarrow> alloc_broadcast addr (tid e) (cid e) et M; st \<leftarrow> add_candidate a st; Some (st, False) }) })"

definition cex_notification :: "('d event \<Rightarrow> nat) \<Rightarrow> 'd cfg \<Rightarrow> 'd event \<Rightarrow> 'd unf \<Rightarrow> 'd candidates option" where
  "cex_notification addr c e u =
     (if kind e \<noteq> K_signal \<and> kind e \<noteq> K_broadcast then None
      else do {
        et \<leftarrow> thread_predecessor e;
        (if u_cutoff u et then Some (u, [])
         else do {
           mx \<leftarrow> notification_max e et;
           (cond_create, cb, wc) \<leftarrow> notification_combs c e et;
           (st, _) \<leftarrow> concurrent_combinations (lost_filter addr e et cond_create mx) cb (u, []);
           st \<leftarrow> (if kind e = K_signal
                 then foldM (signal_alternative e et) (outstanding_wait1 (cid e) (cone et) @ comb_events wc) st
                 else Some st);
           (if kind e = K_broadcast
            then map_option fst (concurrent_combinations (broadcast_filter addr e et mx) cb st)
            else Some st) }) })"

section \<open>The public functions\<close>

definition mark_all_cex_known :: "'d event \<Rightarrow> 'd unf \<Rightarrow> 'd unf" where
  "mark_all_cex_known e u = u\<lparr>u_cex_known := (u_cex_known u)(e := True)\<rparr>"

text \<open>The candidates of one event; \<open>Some (u, [])\<close> for an event without any.\<close>

definition cex_candidates :: "('d event \<Rightarrow> nat) \<Rightarrow> 'd cfg \<Rightarrow> 'd event \<Rightarrow> 'd unf \<Rightarrow> 'd candidates option" where
  "cex_candidates addr c e u =
     (if kind e = K_lock_acquire \<or> kind e = K_wait2 then
        (if u_cex_known u e then Some (u, [])
         else map_option (\<lambda>(u, cs). (mark_all_cex_known e u, cs)) (cex_acquire e u))
      else if kind e = K_wait1 then cex_wait1 addr e u
      else if kind e = K_signal \<or> kind e = K_broadcast then cex_notification addr c e u
      else Some (u, []))"

definition cex_step ::
  "('d event \<Rightarrow> nat) \<Rightarrow> 'd cfg \<Rightarrow> bool \<Rightarrow> 'd event \<Rightarrow> 'd unf \<times> 'd event list \<Rightarrow> ('d unf \<times> 'd event list) option" where
  "cex_step addr c unknown_only e = (\<lambda>(u, result). do {
     (u, cs) \<leftarrow> cex_candidates addr c e u;
     let cs = filter (\<lambda>(unknown, a). \<not> (unknown_only \<and> \<not> unknown) \<and> \<not> u_cutoff u a) cs;
     Some (u, result @ map snd cs) })"

definition conflicting_extensions ::
  "('d event \<Rightarrow> nat) \<Rightarrow> 'd cfg \<Rightarrow> bool \<Rightarrow> 'd unf \<Rightarrow> ('d unf \<times> 'd event list) option" where
  "conflicting_extensions addr c unknown_only u = do {
     es \<leftarrow> ci_collect (length (cfg_list c)) (ci_begin c);
     (u, result) \<leftarrow> foldM (cex_step addr c unknown_only) es (stats_inc_configuration u, []);
     Some (stats_inc_cex_created (length result) u, result) }"

text \<open>
  \<^verbatim>\<open>conflicting_extensions_deadlock\<close>: the alternatives of an operation that blocks because the lock
  is taken. \<open>deadlock_past\<close> is the notification (for a \<^verbatim>\<open>wait2\<close>) and the cone of the events that
  precede the operation; \<open>Some None\<close> is an early return.
\<close>

definition deadlock_past ::
  "'d cfg \<Rightarrow> event_kind \<Rightarrow> 'd event \<Rightarrow> 'd unf \<Rightarrow> ('d event option \<times> 'd cone) option option" where
  "deadlock_past c k et u =
     (if k = K_wait2 then
        (if kind et \<noteq> K_wait1 \<or> u_successors u et = [] then None
         else do {
           cond_preds \<leftarrow> map_of (cond_heads c) (cid et);
           Some (case wait2_predecessor_cond et cond_preds of
               None \<Rightarrow> None
             | Some s \<Rightarrow> if u_cutoff u s then None else Some (Some s, cone_insert s (cone_of_event et))) })
      else if k = K_lock_acquire then Some (Some (None, cone_of_event et))
      else None)"

definition deadlock_alternative ::
  "thread_id \<Rightarrow> lock_id_t \<Rightarrow> event_kind \<Rightarrow> 'd event \<Rightarrow> 'd event option \<Rightarrow> 'd event \<Rightarrow> 'd candidates
     \<Rightarrow> 'd candidates option" where
  "deadlock_alternative t l k et es em st =
     (if u_cutoff (fst st) em then Some st
      else if k = K_lock_acquire then do { a \<leftarrow> alloc_lock_acquire t l et (Some em); add_candidate a st }
      else if k = K_wait2 \<and> kind em \<noteq> K_lock_create then do {
        s \<leftarrow> es; a \<leftarrow> alloc_wait2 t (cid s) l et em s; add_candidate a st }
      else None)"

definition conflicting_extensions_deadlock ::
  "'d cfg \<Rightarrow> thread_id \<Rightarrow> lock_id_t \<Rightarrow> event_kind \<Rightarrow> bool \<Rightarrow> 'd unf \<Rightarrow> ('d unf \<times> 'd event list) option" where
  "conflicting_extensions_deadlock c t l k unknown_only u = do {
     et \<leftarrow> last_of_tid c t;
     (if u_cutoff u et then Some (u, [])
      else do {
        em \<leftarrow> last_of_lid c l;
        past \<leftarrow> deadlock_past c k et u;
        (case past of
           None \<Rightarrow> Some (u, [])
         | Some (es, P) \<Rightarrow> do {
             A \<leftarrow> cone_setminus (thread_heads c) P;
             A \<leftarrow> comb_insert em A;
             X \<leftarrow> comb_filter (\<lambda>x. lid x = l \<and> \<not> u_cutoff u x
                   \<and> (kind x = K_lock_release \<or> kind x = K_wait1 \<or> kind x = K_lock_create)) A;
             (u, cs) \<leftarrow> foldM (deadlock_alternative t l k et es) (comb_events X) (u, []);
             let cs = filter (\<lambda>(unknown, a). \<not> (unknown_only \<and> \<not> unknown)) cs;
             (if list_ex (\<lambda>(unknown, a). u_cutoff u a) cs then None
              else Some (stats_inc_cex_created (length cs) u, map snd cs)) }) }) }"

section \<open>Siblings\<close>

text \<open>
  An event that could take the place of another one: on the same thread, after the same event, and
  caused by some of the same events.
\<close>

definition sibling :: "('d event \<Rightarrow> nat) \<Rightarrow> 'd event \<Rightarrow> 'd event \<Rightarrow> bool" where
  "sibling addr e a \<longleftrightarrow> allocated addr a \<and> tid a = tid e \<and> kind a = kind e
     \<and> thread_predecessor e \<noteq> None \<and> thread_predecessor a = thread_predecessor e
     \<and> (\<forall>p \<in> set (predecessors a). hb p e) \<and> lock_pred_complete a"

lemma causes_configuration:
  assumes "is_configuration addr (local_config e)"
  shows "is_configuration addr {g. hb g e}"
proof (rule configuration_subset [OF assms])
  show "{g. hb g e} \<subseteq> local_config e" by (auto simp: local_config_def)
  show "causally_closed {g. hb g e}" unfolding causally_closed_def using hb_pred hb_trans by blast
qed

lemma sibling_causes:
  assumes "sibling addr e a" "hb g a"
  shows "hb g e"
proof -
  obtain p where "p \<in> set (predecessors a)" "g = p \<or> hb g p" using assms(2) hb_last [of g a] by blast
  then show ?thesis using assms(1) hb_trans unfolding sibling_def by blast
qed

lemma sibling_local_config:
  assumes "sibling addr e a" "is_configuration addr (local_config e)"
  shows "is_configuration addr (local_config a)"
proof -
  obtain et where et: "thread_predecessor e = Some et" "thread_predecessor a = Some et" "tid a = tid e"
    using assms(1) by (auto simp: sibling_def)
  have "is_configuration addr (insert a {g. hb g e})"
  proof (rule configuration_insert_chain [OF causes_configuration [OF assms(2)] _ _ et(2)])
    show "allocated addr a" "set (predecessors a) \<subseteq> {g. hb g e}" using assms(1) by (auto simp: sibling_def)
    fix x assume x: "x \<in> {g. hb g e}" "tid x = tid a"
    have mem: "x \<in> local_config e" "e \<in> local_config e" using x(1) by (auto simp: local_config_def)
    have "depth x < depth e" using x(1) depth_hb [OF _ configuration_allocated [OF assms(2) mem(2)]] by simp
    then have "x \<in> set (thread_chain e)" using configuration_chain [OF assms(2) mem] x(2) et(3) by simp
    moreover have "x \<noteq> e" using x(1) hb.irrefl by auto
    ultimately show "x \<in> set (thread_chain et)" using thread_chain_mem [of x e] et(1) by auto
  qed
  moreover have "local_config a \<subseteq> insert a {g. hb g e}"
    using sibling_causes [OF assms(1)] by (auto simp: local_config_def)
  moreover have "causally_closed (local_config a)"
    using hb_pred hb.trans by (auto simp: causally_closed_def local_config_def) blast
  ultimately show ?thesis by (rule configuration_subset)
qed

lemma sibling_addable:
  assumes "unf_ok addr n0 u" "e \<in> unf_set u" "sibling addr e a" "kind e \<noteq> K_lock_destroy"
    and "inj_on addr (insert a (unf_set u))"
  shows "addable addr u a"
proof -
  have conf: "is_configuration addr (local_config e)" using assms(1,2) by (simp add: unf_ok_def event_ok_def)
  have "event_ok addr a"
    using sibling_local_config [OF assms(3) conf] assms(3,4) by (simp add: event_ok_def sibling_def)
  moreover have "a \<noteq> program_init" using assms(3) by (auto simp: sibling_def)
  moreover have "set (predecessors a) \<subseteq> unf_set u"
    using assms(3) histories_hb [OF _ unf_ok_histories [OF assms(1)] assms(2)] by (auto simp: sibling_def)
  moreover have "causes_free u a"
    using assms(1,2) sibling_causes [OF assms(3)]
    unfolding causes_free_def unf_ok_def conflicts_ok_def local_config_def by blast
  ultimately show ?thesis using assms(5) by (simp add: addable_def)
qed

text \<open>The state while candidates are collected: each of them is stored, and nothing else was added.\<close>

definition cand_ok :: "('d event \<Rightarrow> nat) \<Rightarrow> nat \<Rightarrow> 'd unf \<Rightarrow> 'd candidates \<Rightarrow> bool" where
  "cand_ok addr n0 u0 = (\<lambda>(u, cs). unf_ok addr n0 u \<and> unf_set u = unf_set u0 \<union> snd ` set cs)"

lemma add_candidate_ok:
  assumes "cand_ok addr n0 u0 (u, cs)" "e \<in> unf_set u0" "sibling addr e a" "kind e \<noteq> K_lock_destroy"
    and "inj_on addr (unf_set u0 \<union> S)" "a \<in> S" "snd ` set cs \<subseteq> S"
  shows "\<exists>u' k. add_candidate a (u, cs) = Some (u', cs @ [(k, a)]) \<and> cand_ok addr n0 u0 (u', cs @ [(k, a)])"
proof -
  have u: "unf_ok addr n0 u" "unf_set u = unf_set u0 \<union> snd ` set cs" using assms(1) by (simp_all add: cand_ok_def)
  have "inj_on addr (insert a (unf_set u))" by (rule inj_on_subset [OF assms(5)]) (use u(2) assms(6,7) in auto)
  then have "addable addr u a" using sibling_addable [OF u(1) _ assms(3,4)] u(2) assms(2) by simp
  then obtain t k where t: "deduplicate False a u = Some (t, k, a)" "unf_ok addr n0 t" "unf_set t = insert a (unf_set u)"
    using deduplicate_known [OF u(1), of a False] deduplicate_new [OF u(1), of a False]
    by (cases "a \<in> unf_set u") (auto simp: insert_absorb)
  let ?t = "stats_inc_event_created (kind a) t"
  have "unf_ok addr n0 ?t" "unf_set ?t = unf_set t"
    using t(2) unf_ok_cong [of ?t t addr n0] unf_set_cong [of ?t t] by (simp_all add: stats_inc_event_created_def)
  then show ?thesis using t(1,3) u(2) by (auto simp: add_candidate_def cand_ok_def)
qed

section \<open>The lock history of an event\<close>

lemma descend_lock_find: "descend_lock P (Some r) = find P (lock_chain r)"
proof (induction r rule: lock_chain.induct)
  case (1 r)
  show ?case
    using "1.IH" by (cases "lock_predecessor r") (simp_all add: lock_chain.simps [of r])
qed

definition older_chain :: "'d event option \<Rightarrow> 'd event list" where
  "older_chain x = (case x of None \<Rightarrow> [] | Some p \<Rightarrow> lock_chain p)"

lemma older_chain_simps [simp]: "older_chain None = []" "older_chain (Some p) = lock_chain p"
  by (simp_all add: older_chain_def)

lemma lock_chain_Cons: "lock_chain e = e # older_chain (lock_predecessor e)"
  by (simp add: lock_chain.simps [of e] older_chain_def)

definition older_step ::
  "'d event \<Rightarrow> 'd event \<Rightarrow> 'd event option \<Rightarrow> 'd event \<Rightarrow> 'd candidates \<Rightarrow> 'd candidates option" where
  "older_step e et es ep st =
     (if kind ep = K_lock_release \<or> kind ep = K_wait1 \<or> kind ep = K_lock_create then
        (if kind e = K_lock_acquire \<or> kind ep \<noteq> K_lock_create then add_alternative e et es (Some ep) st else None)
      else Some st)"

lemma older_alternatives_foldM:
  "older_alternatives e et es em x st =
     foldM (older_step e et es) (takeWhile (\<lambda>ep. \<not> ((case em of None \<Rightarrow> False | Some m \<Rightarrow> is_less_than_eq ep m)
       \<or> (case es of None \<Rightarrow> False | Some s \<Rightarrow> is_less_than_eq ep s))) (older_chain x)) st"
proof (induction e et es em x st rule: older_alternatives.induct)
  case (2 e et es em ep st)
  let ?stop = "(case em of None \<Rightarrow> False | Some m \<Rightarrow> is_less_than_eq ep m)
       \<or> (case es of None \<Rightarrow> False | Some s \<Rightarrow> is_less_than_eq ep s)"
  show ?case
  proof (cases ?stop)
    case False
    have "older_alternatives e et es em (Some ep) st
        = Option.bind (older_step e et es ep st) (older_alternatives e et es em (lock_predecessor ep))"
      using False by (simp add: older_step_def)
    also have "\<dots> = Option.bind (older_step e et es ep st) (foldM (older_step e et es)
        (takeWhile (\<lambda>ep. \<not> ((case em of None \<Rightarrow> False | Some m \<Rightarrow> is_less_than_eq ep m)
       \<or> (case es of None \<Rightarrow> False | Some s \<Rightarrow> is_less_than_eq ep s))) (older_chain (lock_predecessor ep))))"
      by (rule Option.bind_cong [OF refl]) (rule "2.IH" [OF False], simp only: older_step_def)
    finally show ?thesis using False by (simp add: lock_chain_Cons [of ep])
  next
    case True
    then show ?thesis by (auto simp: lock_chain_Cons [of ep])
  qed
qed simp

lemma older_chain_hb:
  "lock_chain e = ys @ p # zs \<Longrightarrow> q \<in> set zs \<Longrightarrow> hb q p"
proof (induction e arbitrary: ys rule: lock_chain.induct)
  case (1 e)
  have below: "hb q f" if "q \<in> set (older_chain (lock_predecessor f))" for f
    using that
  proof (induction f rule: lock_chain.induct)
    case (1 f)
    then obtain g where g: "lock_predecessor f = Some g" by (cases "lock_predecessor f") auto
    have "hb g f" using hb_pred [OF lock_pred_in_preds [OF g]] .
    moreover have "q = g \<or> hb q g"
      using "1.IH" [OF g] "1.prems" g by (auto simp: lock_chain_Cons [of g])
    ultimately show ?case using hb_trans by blast
  qed
  show ?case
  proof (cases ys)
    case Nil
    then show ?thesis using 1(2,3) below [of e] by (auto simp: lock_chain_Cons [of e])
  next
    case (Cons y ys')
    then have "older_chain (lock_predecessor e) = ys' @ p # zs" using 1(2) by (auto simp: lock_chain_Cons [of e])
    then show ?thesis using 1(1) [of _ ys'] 1(3) by (cases "lock_predecessor e") auto
  qed
qed

lemma lock_chain_facts:
  assumes "allocated addr e" "q \<in> set (lock_chain e)"
  shows "lid q = lid e \<and> allocated addr q"
  using assms
proof (induction e rule: lock_chain.induct)
  case (1 e)
  show ?case
  proof (cases "lock_predecessor e")
    case None
    then show ?thesis using "1.prems" by (simp add: lock_chain_Cons [of e])
  next
    case (Some p)
    have "allocated addr p" by (rule allocated_pred [OF "1.prems"(1) lock_pred_in_preds [OF Some]])
    moreover have "lid p = lid e" using lock_pred_step [OF "1.prems"(1) Some] by (simp add: lock_step_ok_def)
    ultimately show ?thesis
      using "1.IH" [OF Some] "1.prems" Some by (auto simp: lock_chain_Cons [of e])
  qed
qed

lemma lock_chain_hd: "lock_chain p = q # zs \<Longrightarrow> p = q"
  by (simp add: lock_chain_Cons [of p])

lemma lock_chain_next:
  "lock_chain e = ys @ p # q # zs \<Longrightarrow> lock_predecessor p = Some q"
proof (induction e arbitrary: ys rule: lock_chain.induct)
  case (1 e)
  show ?case
  proof (cases ys)
    case Nil
    then show ?thesis using 1(2) by (cases "lock_predecessor p") (auto simp: lock_chain_Cons [of e] lock_chain_Cons [of q] dest: lock_chain_hd)
  next
    case (Cons y ys')
    then have "older_chain (lock_predecessor e) = ys' @ p # q # zs" using 1(2) by (auto simp: lock_chain_Cons [of e])
    then show ?thesis using 1(1) [of _ ys'] by (cases "lock_predecessor e") auto
  qed
qed

section \<open>Alternatives of a lock acquisition\<close>

lemma event_multi_total:
  assumes "smap_ok (cone p)" "\<forall>q \<in> insert p (set_option s \<union> set os). kind q \<noteq> K_program_init"
  shows "\<exists>a. event_multi t p s os b = Some a"
proof -
  have "depth q < cone_max_depth (cone_of_events p s os) + 1" if "q \<in> insert p (set_option s \<union> set os)" for q
    using cone_max_depth_covers [OF cone_of_events_covers_self [OF assms that]] by simp
  then show ?thesis by (cases s) (auto simp: event_multi_def Let_def list_all_iff)
qed

lemma allocated_cone_ok: "allocated addr e \<Longrightarrow> smap_ok (cone e)"
  using allocated_cone_sound [of addr e] by (simp add: cone_sound_def)

lemma acquire_alloc:
  assumes "allocated addr e" "kind e = K_lock_acquire"
  shows "\<exists>tp. thread_predecessor e = Some tp \<and> allocated addr tp \<and> pred_option (allocated addr) (lock_predecessor e)
    \<and> alloc_lock_acquire (tid e) (lid e) tp (lock_predecessor e) = Some e"
  using assms(1)
proof (cases rule: allocated.cases)
  case (a_lock_acquire tp lp t l)
  then show ?thesis using alloc_lock_acquire_Some [OF a_lock_acquire(3)]
    by (auto simp: lock_predecessor_def thread_predecessor_def lid_def)
qed (use assms(2) in \<open>auto dest!: alloc_Some simp: kind_def program_init_def\<close>)

lemma wait2_alloc:
  assumes "allocated addr e" "kind e = K_wait2"
  shows "\<exists>tp lp n. thread_predecessor e = Some tp \<and> lock_predecessor e = Some lp \<and> notifying_predecessor e = Some n
    \<and> allocated addr tp \<and> allocated addr lp \<and> allocated addr n
    \<and> alloc_wait2 (tid e) (cid e) (lid e) tp lp n = Some e"
  using assms(1)
proof (cases rule: allocated.cases)
  case (a_wait2 tp lp n t c l)
  then show ?thesis using alloc_wait2_Some [OF a_wait2(4)]
    by (cases e) (auto simp: lock_predecessor_def thread_predecessor_def lid_def cid_def)
qed (use assms(2) in \<open>auto dest!: alloc_Some simp: kind_def program_init_def\<close>)

text \<open>What \<^verbatim>\<open>cex_acquire\<close> reads of the event.\<close>

definition acquire_parts :: "'d event \<Rightarrow> 'd event \<Rightarrow> 'd event option \<Rightarrow> bool" where
  "acquire_parts e et es \<longleftrightarrow> (kind e = K_lock_acquire \<or> kind e = K_wait2)
     \<and> thread_predecessor e = Some et \<and> es = (if kind e = K_wait2 then notifying_predecessor e else None)"

text \<open>The lock predecessors that an acquisition in place of \<open>e\<close> can have.\<close>

definition lock_pred_possible :: "'d event \<Rightarrow> 'd event option \<Rightarrow> bool" where
  "lock_pred_possible e lp \<longleftrightarrow>
     (case lp of
        None \<Rightarrow> kind e = K_lock_acquire \<and> pred_option (\<lambda>tp. lid tp \<noteq> lid e) (thread_predecessor e)
      | Some p \<Rightarrow> hb p e \<and> lid p = lid e \<and> (kind p = K_lock_release \<or> kind p = K_wait1
          \<or> (kind p = K_lock_create \<and> kind e = K_lock_acquire)))"

lemma acquire_alternative_total:
  assumes "allocated addr e" "acquire_parts e et es" "lock_pred_possible e lp"
  shows "\<exists>a. acquire_alternative e et es lp = Some a \<and> sibling addr e a \<and> lock_predecessor a = lp"
proof (cases "kind e = K_lock_acquire")
  case True
  have et: "thread_predecessor e = Some et" using assms(2) by (simp add: acquire_parts_def)
  obtain tp where tp: "thread_predecessor e = Some tp" "allocated addr tp" "alloc_lock_acquire (tid e) (lid e) tp (lock_predecessor e) = Some e"
    using acquire_alloc [OF assms(1) True] by blast
  then have ok: "thread_pred_ok (tid e) et" "lid e \<noteq> 0" "allocated addr et"
    using alloc_lock_acquire_Some [OF tp(3)] et by auto
  have lp: "pred_option (allocated addr) lp" "\<forall>p \<in> set_option lp. hb p e"
    using assms(1,3) allocated_hb [of _ e] by (cases lp; auto simp: lock_pred_possible_def)+
  have "\<exists>a. event_multi (tid e) et lp [] (Lock_Acquire (lid e) et lp) = Some a"
    by (rule event_multi_total [OF allocated_cone_ok [OF ok(3)]])
       (use ok(1) assms(3) in \<open>cases lp; auto simp: thread_pred_ok_def lock_pred_possible_def\<close>)
  then obtain a where a: "alloc_lock_acquire (tid e) (lid e) et lp = Some a"
    using ok(1,2) assms(3) True by (cases lp) (auto simp: alloc_lock_acquire_def lock_pred_possible_def)
  have body: "tid a = tid e" "body a = Lock_Acquire (lid e) et lp" using alloc_lock_acquire_Some [OF a] by simp_all
  have "sibling addr e a"
    using a_lock_acquire [OF ok(3) lp(1) a] body True et lp(2) hb_pred [OF thread_pred_in_preds [OF et]] assms(3)
    by (cases lp) (auto simp: sibling_def kind_def thread_predecessor_def predecessors_def opt_lock_predecessors_def
        lock_pred_complete_def lock_predecessor_def lid_def lock_pred_possible_def split: if_split_asm)
  then show ?thesis using a body(2) True by (auto simp: acquire_alternative_def lock_predecessor_def)
next
  case False
  then have w: "kind e = K_wait2" using assms(2) by (simp add: acquire_parts_def)
  obtain lp0 n where n: "lock_predecessor e = Some lp0" "notifying_predecessor e = Some n" "allocated addr et" "allocated addr n"
      "alloc_wait2 (tid e) (cid e) (lid e) et lp0 n = Some e" "thread_predecessor e = Some et"
    using wait2_alloc [OF assms(1) w] assms(2) by (auto simp: acquire_parts_def)
  obtain p where p: "lp = Some p" "hb p e" "lid p = lid e" "kind p = K_lock_release \<or> kind p = K_wait1"
    using assms(3) w by (cases lp) (auto simp: lock_pred_possible_def)
  note e = alloc_wait2_Some [OF n(5)] and ap = allocated_hb [OF p(2) assms(1)]
  have "\<exists>a. event_multi (tid e) et (Some p) [n] (Wait2 (cid e) (lid e) et n p) = Some a"
    by (rule event_multi_total [OF allocated_cone_ok [OF n(3)]])
       (use e p in \<open>auto simp: wait2_notified_def split: if_split_asm\<close>)
  then obtain a where a: "alloc_wait2 (tid e) (cid e) (lid e) et p n = Some a"
    using e p by (auto simp: alloc_wait2_def)
  have body: "tid a = tid e" "body a = Wait2 (cid e) (lid e) et n p" using alloc_wait2_Some [OF a] by simp_all
  have "hb n e" using shape_wait2 [OF n(5)] hb_pred [of n e] by (auto simp: multi_shape_def)
  then have "sibling addr e a"
    using a_wait2 [OF n(3) ap n(4) a] body w n(6) p(2) hb_pred [OF thread_pred_in_preds [OF n(6)]]
    by (auto simp: sibling_def kind_def thread_predecessor_def predecessors_def lock_pred_complete_def split: if_split_asm)
  then show ?thesis using a body(2) w assms(2) n(2) p(1)
    by (auto simp: acquire_alternative_def lock_predecessor_def acquire_parts_def)
qed

text \<open>
  The lock predecessors for which \<^verbatim>\<open>cex_acquire\<close> allocates an event, and the events: \<open>em\<close> is the
  last operation on the lock in the past of the alternative, \<open>ps\<close> are the later ones before \<open>er\<close>.
\<close>

definition frees_lock :: "'d event \<Rightarrow> bool" where
  "frees_lock p \<longleftrightarrow> kind p = K_lock_release \<or> kind p = K_wait1 \<or> kind p = K_lock_create"

definition first_choice :: "'d event \<Rightarrow> 'd event option \<Rightarrow> 'd event option list" where
  "first_choice e em =
     (case em of None \<Rightarrow> [None]
      | Some m \<Rightarrow> if frees_lock m \<and> \<not> (kind e = K_wait2 \<and> kind m = K_wait1) then [Some m] else [])"

definition alternatives_in :: "'d event \<Rightarrow> 'd event \<Rightarrow> 'd event option \<Rightarrow> 'd event set" where
  "alternatives_in e et es =
     {a. \<exists>lp \<in> insert None (Some ` set (lock_chain e)). acquire_alternative e et es lp = Some a}"

definition collected ::
  "('d event \<Rightarrow> nat) \<Rightarrow> nat \<Rightarrow> 'd unf \<Rightarrow> 'd event \<Rightarrow> 'd event \<Rightarrow> 'd event option \<Rightarrow> 'd event option list \<Rightarrow> 'd candidates \<Rightarrow> bool" where
  "collected addr n0 u0 e et es lps st \<longleftrightarrow> cand_ok addr n0 u0 st \<and> snd ` set (snd st) \<subseteq> alternatives_in e et es
     \<and> map (\<lambda>(k, a). Some a) (snd st) = map (acquire_alternative e et es) lps"

lemma add_alternative_ok:
  assumes "unf_ok addr n0 u0" "e \<in> unf_set u0" "acquire_parts e et es" "lock_pred_possible e lp"
    and "set_option lp \<subseteq> set (lock_chain e)" "inj_on addr (unf_set u0 \<union> alternatives_in e et es)"
    and "collected addr n0 u0 e et es lps st"
  shows "\<exists>st'. add_alternative e et es lp st = Some st' \<and> collected addr n0 u0 e et es (lps @ [lp]) st'"
proof -
  obtain a where a: "acquire_alternative e et es lp = Some a" "sibling addr e a"
    using acquire_alternative_total [OF unf_ok_allocated [OF assms(1,2)] assms(3,4)] by blast
  have S: "a \<in> alternatives_in e et es" using a(1) assms(5) by (cases lp) (auto simp: alternatives_in_def)
  obtain u cs where st: "st = (u, cs)" by (cases st)
  have k: "kind e \<noteq> K_lock_destroy" using assms(3) by (auto simp: acquire_parts_def)
  obtain u' k where "add_candidate a (u, cs) = Some (u', cs @ [(k, a)])" "cand_ok addr n0 u0 (u', cs @ [(k, a)])"
    using add_candidate_ok [OF _ assms(2) a(2) k assms(6) S, of n0 u cs] assms(7) by (auto simp: collected_def st)
  then show ?thesis using a(1) S assms(7) by (auto simp: add_alternative_def collected_def st)
qed

lemma older_fold_ok:
  assumes "unf_ok addr n0 u0" "e \<in> unf_set u0" "acquire_parts e et es"
    and "inj_on addr (unf_set u0 \<union> alternatives_in e et es)"
    and "\<forall>p \<in> set ps. frees_lock p \<longrightarrow> lock_pred_possible e (Some p) \<and> p \<in> set (lock_chain e)"
    and "collected addr n0 u0 e et es lps st"
  shows "\<exists>st'. foldM (older_step e et es) ps st = Some st'
    \<and> collected addr n0 u0 e et es (lps @ map Some (filter frees_lock ps)) st'"
  using assms(5,6)
proof (induction ps arbitrary: st lps)
  case (Cons p ps)
  show ?case
  proof (cases "frees_lock p")
    case True
    then have p: "lock_pred_possible e (Some p)" "p \<in> set (lock_chain e)" using Cons.prems(1) by auto
    obtain st1 where st1: "add_alternative e et es (Some p) st = Some st1" "collected addr n0 u0 e et es (lps @ [Some p]) st1"
      using add_alternative_ok [OF assms(1-3) p(1) _ assms(4) Cons.prems(2)] p(2) by auto
    have "older_step e et es p st = Some st1"
      using True p(1) st1(1) by (auto simp: older_step_def frees_lock_def lock_pred_possible_def)
    then show ?thesis using Cons.IH [OF _ st1(2)] Cons.prems(1) True by auto
  next
    case False
    then have "older_step e et es p st = Some st" by (simp add: older_step_def frees_lock_def)
    then show ?thesis using Cons.IH [OF _ Cons.prems(2)] Cons.prems(1) False by auto
  qed
qed simp

lemma first_alternative_ok:
  assumes "unf_ok addr n0 u0" "e \<in> unf_set u0" "acquire_parts e et es"
    and "inj_on addr (unf_set u0 \<union> alternatives_in e et es)"
    and "\<forall>lp \<in> set (first_choice e em). lock_pred_possible e lp \<and> set_option lp \<subseteq> set (lock_chain e)"
    and "kind e = K_wait2 \<Longrightarrow> \<exists>m. em = Some m \<and> kind m \<noteq> K_lock_create"
  shows "\<exists>st'. first_alternative e et es em (u0, []) = Some st' \<and> collected addr n0 u0 e et es (first_choice e em) st'"
proof -
  have init: "collected addr n0 u0 e et es [] (u0, [])" using assms(1) by (simp add: collected_def cand_ok_def)
  have k: "kind e = K_lock_acquire \<or> kind e = K_wait2" using assms(3) by (simp add: acquire_parts_def)
  show ?thesis
  proof (cases "first_choice e em")
    case Nil
    then have "first_alternative e et es em (u0, []) = Some (u0, [])"
      using k by (auto simp: first_choice_def first_alternative_def frees_lock_def split: option.splits if_split_asm)
    then show ?thesis using init Nil by simp
  next
    case (Cons lp lps)
    then have lp: "first_choice e em = [lp]" "lp = em" by (auto simp: first_choice_def split: option.splits if_split_asm)
    obtain st' where "add_alternative e et es em (u0, []) = Some st'" "collected addr n0 u0 e et es [em] st'"
      using add_alternative_ok [OF assms(1-3) _ _ assms(4) init, of em] assms(5) lp by auto
    moreover have "first_alternative e et es em (u0, []) = add_alternative e et es em (u0, [])"
      using k assms(6) lp by (auto simp: first_choice_def first_alternative_def frees_lock_def split: option.splits if_split_asm)
    ultimately show ?thesis using lp by simp
  qed
qed

section \<open>What is collected for a lock acquisition\<close>

text \<open>
  The causes that every alternative has: the events up to the thread predecessor, and those before
  the notification.
\<close>

definition past :: "'d event \<Rightarrow> 'd event \<Rightarrow> bool" where
  "past e q \<longleftrightarrow> (\<exists>et. thread_predecessor e = Some et \<and> (q = et \<or> hb q et))
     \<or> (kind e = K_wait2 \<and> (\<exists>s. notifying_predecessor e = Some s \<and> hb q s))"

text \<open>
  A lock predecessor other than that of \<open>e\<close>, taken from the history of the lock, and not older than
  an operation on the lock that every alternative has in its past.
\<close>

definition alternative_predecessor :: "'d event \<Rightarrow> 'd event option \<Rightarrow> bool" where
  "alternative_predecessor e lp \<longleftrightarrow> lp \<noteq> lock_predecessor e \<and> set_option lp \<subseteq> set (lock_chain e) - {e}
     \<and> (\<forall>q \<in> set (lock_chain e) - {e}. past e q \<longrightarrow> (\<exists>p. lp = Some p \<and> (q = p \<or> hb q p)))"

lemma first_split:
  obtains "find P xs = None" "takeWhile (\<lambda>x. \<not> P x) xs = xs" "\<forall>x \<in> set xs. \<not> P x"
  | ys m zs where "xs = ys @ m # zs" "find P xs = Some m" "takeWhile (\<lambda>x. \<not> P x) xs = ys" "P m" "\<forall>y \<in> set ys. \<not> P y"
proof (cases "\<exists>x \<in> set xs. P x")
  case True
  then obtain ys m zs where x: "xs = ys @ m # zs" "P m" "\<forall>y \<in> set ys. \<not> P y" using split_list_first_prop [of xs P] by blast
  moreover have "find P (ys @ m # zs) = Some m" using x(2,3) by (induction ys) auto
  moreover have "takeWhile (\<lambda>x. \<not> P x) (ys @ m # zs) = ys" using x(2,3) by (simp add: takeWhile_append2)
  ultimately show ?thesis using that(2) by blast
next
  case False
  then show ?thesis using that(1) by (auto simp: find_None_iff takeWhile_eq_all_conv)
qed

lemma chain_below:
  assumes "lock_chain e = e # xs" "q \<in> set xs"
  shows "hb q e"
  using older_chain_hb [of e "[]" e xs q] assms by simp

lemma chain_order:
  assumes "lock_chain e = e # ys @ p # zs" "q \<in> set zs"
  shows "hb q p"
  using older_chain_hb [of e "e # ys" p zs q] assms by simp

lemma in_past_iff:
  assumes "is_configuration addr (local_config e)" "acquire_parts e et es" "hb q e"
  shows "in_past et es q \<longleftrightarrow> past e q"
proof -
  have et: "thread_predecessor e = Some et" "hb et e"
    using assms(2) hb_pred [OF thread_pred_in_preds [of e et]] by (auto simp: acquire_parts_def)
  have less: "is_less_than q x \<longleftrightarrow> hb q x" if "hb x e" for x
    using configuration_less_than [OF assms(1)] assms(3) that by (simp add: local_config_def)
  have "hb s e" if w: "kind e = K_wait2" "notifying_predecessor e = Some s" for s
  proof -
    have "allocated addr e" using configuration_allocated [OF assms(1), of e] by (simp add: local_config_def)
    then obtain tp lp where "alloc_wait2 (tid e) (cid e) (lid e) tp lp s = Some e"
      using wait2_alloc [of addr e] w by auto
    then show ?thesis using shape_wait2 [of "tid e" "cid e" "lid e" tp lp s e] hb_pred [of s e] by (auto simp: multi_shape_def)
  qed
  then show ?thesis
    using et less assms(2) by (auto simp: in_past_def past_def is_less_than_eq_def acquire_parts_def split: option.splits)
qed

lemma notification_no_lock: "kind s = K_signal \<or> kind s = K_broadcast \<Longrightarrow> lid s = 0"
  by (cases "body s") (auto simp: kind_def lid_def)

lemma lock_create_first: "kind p = K_lock_create \<Longrightarrow> lock_predecessor p = None"
  by (cases "body p") (auto simp: kind_def lock_predecessor_def)

text \<open>The second loop stops where the first one did.\<close>

lemma older_prefix:
  assumes "is_configuration addr (local_config e)" "acquire_parts e et es" "lock_chain e = e # r # xs"
    and "find (in_past et es) xs = None \<Longrightarrow> es = None"
  shows "takeWhile (\<lambda>ep. \<not> ((case find (in_past et es) xs of None \<Rightarrow> False | Some m \<Rightarrow> is_less_than_eq ep m)
       \<or> (case es of None \<Rightarrow> False | Some s \<Rightarrow> is_less_than_eq ep s))) xs = takeWhile (\<lambda>p. \<not> in_past et es p) xs"
proof (cases rule: first_split [of "in_past et es" xs])
  case 1
  have "takeWhile (\<lambda>ep. \<not> (False \<or> False)) xs = xs" by (simp add: takeWhile_eq_all_conv)
  then show ?thesis unfolding 1(1,2) using assms(4) [OF 1(1)] by simp
next
  case (2 ys m zs)
  have al: "allocated addr e" using configuration_allocated [OF assms(1), of e] by (simp add: local_config_def)
  have "\<not> is_less_than_eq y m \<and> \<not> (\<exists>s. es = Some s \<and> is_less_than_eq y s)" if y: "y \<in> set ys" for y
  proof
    obtain as bs where ys: "ys = as @ y # bs" using split_list [OF y] by blast
    have "hb m y" using chain_order [of e "r # as" y "bs @ m # zs" m] assms(3) 2(1) ys by simp
    moreover have "hb y e" using chain_below [of e "r # xs" y] assms(3) 2(1) y by auto
    moreover have "hb m e" using chain_below [of e "r # xs" m] assms(3) 2(1) by auto
    ultimately show "\<not> is_less_than_eq y m"
      using configuration_less_than [OF assms(1), of y m] hb.irrefl hb.asym by (auto simp: is_less_than_eq_def local_config_def)
    show "\<not> (\<exists>s. es = Some s \<and> is_less_than_eq y s)"
    proof
      assume "\<exists>s. es = Some s \<and> is_less_than_eq y s"
      then obtain s where s: "es = Some s" "s = y \<or> is_less_than y s" by (auto simp: is_less_than_eq_def)
      then have w: "kind e = K_wait2" "notifying_predecessor e = Some s" using assms(2) by (auto simp: acquire_parts_def split: if_split_asm)
      obtain tp lp where "alloc_wait2 (tid e) (cid e) (lid e) tp lp s = Some e" using wait2_alloc [OF al w(1)] w(2) by auto
      from alloc_wait2_Some [OF this] have "lid e \<noteq> 0" "lid s = 0"
        using notification_no_lock [of s] by (auto simp: wait2_notified_def split: if_split_asm)
      moreover have "lid y = lid e" using lock_chain_facts [OF al, of y] assms(3) 2(1) y by auto
      ultimately show False using s 2(5) y by (auto simp: in_past_def)
    qed
  qed
  moreover have "is_less_than_eq m m" by (simp add: is_less_than_eq_def)
  ultimately show ?thesis unfolding 2(2,3) using 2(1) by (auto simp: takeWhile_append2 split: option.splits)
qed

lemma alternative_predecessor_iff:
  assumes "is_configuration addr (local_config e)" "acquire_parts e et es" "lock_chain e = e # r # xs"
    and "lock_predecessor e = Some r" "\<not> in_past et es r"
  shows "alternative_predecessor e lp \<longleftrightarrow>
    lp = find (in_past et es) xs \<or> (\<exists>p \<in> set (takeWhile (\<lambda>p. \<not> in_past et es p) xs). lp = Some p)"
proof -
  have below: "hb q e" if "q \<in> set (r # xs)" for q using chain_below [OF assms(3) that] .
  have dom: "set (lock_chain e) - {e} = set (r # xs)" using assms(3) below hb.irrefl by auto
  have pst: "past e q \<longleftrightarrow> in_past et es q" if "q \<in> set (r # xs)" for q using in_past_iff [OF assms(1,2) below [OF that]] by simp
  have rx: "hb q r" if "q \<in> set xs" for q using chain_order [of e "[]" r xs q] assms(3) that by simp
  have alt: "alternative_predecessor e lp \<longleftrightarrow> lp \<noteq> Some r \<and> set_option lp \<subseteq> set (r # xs)
      \<and> (\<forall>q \<in> set xs. in_past et es q \<longrightarrow> (\<exists>p. lp = Some p \<and> (q = p \<or> hb q p)))"
    unfolding alternative_predecessor_def dom using pst assms(4,5) by auto
  show ?thesis
  proof (cases rule: first_split [of "in_past et es" xs])
    case 1
    show ?thesis unfolding alt 1(1,2) using 1(3) rx hb.irrefl [of r] by (cases lp) auto
  next
    case (2 ys m zs)
    have mz: "hb q m" if "q \<in> set zs" for q using chain_order [of e "r # ys" m zs q] assms(3) 2(1) that by simp
    have later: "hb q p" if pq: "p \<in> set ys" "q = m \<or> q \<in> set zs" for p q
    proof -
      obtain as bs where "ys = as @ p # bs" using split_list [OF pq(1)] by blast
      then show ?thesis using chain_order [of e "r # as" p "bs @ m # zs" q] assms(3) 2(1) pq(2) by auto
    qed
    show ?thesis
    proof
      assume l: "alternative_predecessor e lp"
      then obtain p where p: "lp = Some p" "m = p \<or> hb m p" using 2(1,4) unfolding alt by auto
      then have "p \<in> set xs" using l unfolding alt by auto
      then have "p \<in> set ys \<or> p = m" using mz [of p] p(2) 2(1) hb.asym by auto
      then show "lp = find (in_past et es) xs \<or> (\<exists>p \<in> set (takeWhile (\<lambda>p. \<not> in_past et es p) xs). lp = Some p)"
        using p(1) 2(2,3) by auto
    next
      assume "lp = find (in_past et es) xs \<or> (\<exists>p \<in> set (takeWhile (\<lambda>p. \<not> in_past et es p) xs). lp = Some p)"
      then obtain p where p: "lp = Some p" "p = m \<or> p \<in> set ys" unfolding 2(2,3) by auto
      then have "p \<in> set xs" using 2(1) by auto
      moreover have "q = p \<or> hb q p" if "q \<in> set xs" "in_past et es q" for q
        using that p(2) 2(1,5) mz [of q] later [of p q] by auto
      ultimately show "alternative_predecessor e lp" unfolding alt using p(1) rx [of p] hb.irrefl [of r] by auto
    qed
  qed
qed

text \<open>
  An operation of the thread on the lock directly before the acquisition is part of the recorded
  history of the lock; for a \<^verbatim>\<open>wait2\<close> this operation is the \<^verbatim>\<open>wait1\<close>.
\<close>

definition history_complete :: "'d event \<Rightarrow> bool" where
  "history_complete e \<longleftrightarrow>
     pred_option (\<lambda>et. kind e = K_wait2 \<or> lid et = lid e \<longrightarrow> et \<in> set (lock_chain e)) (thread_predecessor e)"

lemma in_past_self: "in_past et es et"
  by (simp add: in_past_def is_less_than_eq_def)

lemma history_possible:
  assumes "is_configuration addr (local_config e)" "acquire_parts e et es" "history_complete e"
    and "lock_chain e = e # r # xs" "\<not> in_past et es r"
  shows "kind e = K_wait2 \<Longrightarrow> \<exists>m. find (in_past et es) xs = Some m \<and> kind m \<noteq> K_lock_create"
    and "lp \<in> set (first_choice e (find (in_past et es) xs)) \<Longrightarrow> lock_pred_possible e lp \<and> set_option lp \<subseteq> set (lock_chain e)"
    and "p \<in> set (takeWhile (\<lambda>p. \<not> in_past et es p) xs) \<Longrightarrow> frees_lock p
      \<Longrightarrow> lock_pred_possible e (Some p) \<and> p \<in> set (lock_chain e)"
proof -
  have al: "allocated addr e" using configuration_allocated [OF assms(1), of e] by (simp add: local_config_def)
  have et: "thread_predecessor e = Some et" "kind e = K_lock_acquire \<or> kind e = K_wait2"
    using assms(2) by (auto simp: acquire_parts_def)
  have "hb et e" using hb_pred [OF thread_pred_in_preds [OF et(1)]] .
  then have hist: "et \<in> set xs" if "kind e = K_wait2 \<or> lid et = lid e"
    using that assms(3,4,5) et(1) in_past_self [of et es] hb.irrefl [of e] by (auto simp: history_complete_def)
  have mem: "lid q = lid e \<and> hb q e \<and> q \<in> set (lock_chain e)" if "q \<in> set xs" for q
    using lock_chain_facts [OF al, of q] chain_below [OF assms(4), of q] that assms(4) by auto
  show w: "\<exists>m. find (in_past et es) xs = Some m \<and> kind m \<noteq> K_lock_create" if k: "kind e = K_wait2"
  proof (cases rule: first_split [of "in_past et es" xs])
    case 1
    then show ?thesis using hist k in_past_self [of et es] by auto
  next
    case (2 ys m zs)
    have "kind et = K_wait1" using wait2_alloc [OF al k] et(1) by (auto dest: alloc_wait2_Some)
    moreover have "et = m \<or> et \<in> set zs" using hist k 2(1,5) in_past_self [of et es] by auto
    moreover have "kind m \<noteq> K_lock_create" if "zs \<noteq> []"
      using lock_chain_next [of e "e # r # ys" m "hd zs" "tl zs"] that assms(4) 2(1) lock_create_first [of m] by auto
    ultimately show ?thesis using 2(2) by (cases zs) auto
  qed
  show "lock_pred_possible e lp \<and> set_option lp \<subseteq> set (lock_chain e)"
    if lp: "lp \<in> set (first_choice e (find (in_past et es) xs))"
  proof (cases rule: first_split [of "in_past et es" xs])
    case 1
    then have "kind e = K_lock_acquire" "lid et \<noteq> lid e" using w et(2) hist in_past_self [of et es] by auto
    then show ?thesis using lp et(1) by (simp add: 1(1) first_choice_def lock_pred_possible_def)
  next
    case (2 ys m zs)
    then show ?thesis using lp mem [of m] w et(2)
      by (auto simp: first_choice_def lock_pred_possible_def frees_lock_def split: if_split_asm)
  qed
  show "lock_pred_possible e (Some p) \<and> p \<in> set (lock_chain e)"
    if p: "p \<in> set (takeWhile (\<lambda>p. \<not> in_past et es p) xs)" "frees_lock p"
  proof -
    have px: "p \<in> set xs" using p(1) set_takeWhileD by fastforce
    have "kind p \<noteq> K_lock_create" if k: "kind e = K_wait2"
    proof (cases rule: first_split [of "in_past et es" xs])
      case 1
      then show ?thesis using w [OF k] by simp
    next
      case (2 ys m zs)
      then obtain as bs where ys: "ys = as @ p # bs" using p(1) split_list [of p ys] by auto
      then show ?thesis
        using lock_chain_next [of e "e # r # as" p "hd (bs @ [m])" "tl (bs @ [m]) @ zs"] assms(4) 2(1) lock_create_first [of p]
        by (cases bs) auto
    qed
    then show ?thesis using mem [OF px] p(2) et(2) by (auto simp: lock_pred_possible_def frees_lock_def)
  qed
qed

lemma acquire_alternative_frees: "acquire_alternative e et es (Some p) = Some a \<Longrightarrow> frees_lock p"
  by (auto simp: acquire_alternative_def frees_lock_def dest: alloc_lock_acquire_Some alloc_wait2_Some split: if_split_asm bind_splits)

text \<open>The gap: a \<^verbatim>\<open>wait1\<close> in the past of a \<^verbatim>\<open>wait2\<close> is not used as its lock predecessor.\<close>

definition skipped :: "'d event \<Rightarrow> 'd event option \<Rightarrow> bool" where
  "skipped e lp \<longleftrightarrow> kind e = K_wait2 \<and> (\<exists>p. lp = Some p \<and> kind p = K_wait1 \<and> past e p)"

lemma collected_set:
  assumes "collected addr n0 u0 e et es lps (u, cs)"
  shows "snd ` set cs = {a. \<exists>lp \<in> set lps. acquire_alternative e et es lp = Some a}"
proof -
  have "map (\<lambda>(k, a). Some a) cs = map (acquire_alternative e et es) lps" using assms by (simp add: collected_def)
  then have "(\<lambda>(k, a). Some a) ` set cs = acquire_alternative e et es ` set lps" by (metis set_map)
  moreover have "a \<in> snd ` set cs \<longleftrightarrow> Some a \<in> (\<lambda>(k, a). Some a) ` set cs" for a by force
  ultimately have "a \<in> snd ` set cs \<longleftrightarrow> (\<exists>lp \<in> set lps. acquire_alternative e et es lp = Some a)" for a
    by (simp add: image_iff [of "Some a" "acquire_alternative e et es"] eq_commute [of "Some a"])
  then show ?thesis by blast
qed

lemma choices_alternatives:
  assumes "is_configuration addr (local_config e)" "acquire_parts e et es" "lock_chain e = e # r # xs"
    and "lock_predecessor e = Some r" "\<not> in_past et es r"
  shows "{a. \<exists>lp \<in> set (first_choice e (find (in_past et es) xs) @ map Some (filter frees_lock (takeWhile (\<lambda>p. \<not> in_past et es p) xs))).
      acquire_alternative e et es lp = Some a}
    = {a. \<exists>lp. alternative_predecessor e lp \<and> \<not> skipped e lp \<and> acquire_alternative e et es lp = Some a}"
    (is "?L = ?R")
proof -
  have pst: "past e p \<longleftrightarrow> in_past et es p" if "p \<in> set xs" for p
    using in_past_iff [OF assms(1,2), of p] chain_below [OF assms(3), of p] that by auto
  have "(lp \<in> set (first_choice e (find (in_past et es) xs)) \<or> (\<exists>p \<in> set (takeWhile (\<lambda>p. \<not> in_past et es p) xs). frees_lock p \<and> lp = Some p))
      \<longleftrightarrow> alternative_predecessor e lp \<and> \<not> skipped e lp" if a: "acquire_alternative e et es lp = Some a" for lp a
  proof -
    have fr: "frees_lock p" if "lp = Some p" for p using acquire_alternative_frees a that by blast
    have ps: "\<not> skipped e (Some p)" if "p \<in> set (takeWhile (\<lambda>p. \<not> in_past et es p) xs)" for p
      using set_takeWhileD [OF that] pst by (auto simp: skipped_def)
    show ?thesis
    proof (cases rule: first_split [of "in_past et es" xs])
      case 1
      have ps: "\<not> skipped e (Some p)" if "p \<in> set xs" for p using ps [of p] that unfolding 1(2) .
      show ?thesis unfolding alternative_predecessor_iff [OF assms] 1(1,2) using fr
        by (cases lp) (auto simp: first_choice_def ps, simp add: skipped_def)
    next
      case (2 ys m zs)
      then have "past e m" using pst by simp
      then have "lp \<in> set (first_choice e (Some m)) \<longleftrightarrow> lp = Some m \<and> \<not> skipped e lp"
        using fr by (auto simp: first_choice_def skipped_def)
      then show ?thesis unfolding alternative_predecessor_iff [OF assms] using fr ps 2(2) by auto
    qed
  qed
  moreover have "lp \<in> set (first_choice e (find (in_past et es) xs) @ map Some (filter frees_lock (takeWhile (\<lambda>p. \<not> in_past et es p) xs)))
      \<longleftrightarrow> lp \<in> set (first_choice e (find (in_past et es) xs)) \<or> (\<exists>p \<in> set (takeWhile (\<lambda>p. \<not> in_past et es p) xs). frees_lock p \<and> lp = Some p)" for lp
    by auto
  ultimately have "a \<in> ?L \<longleftrightarrow> a \<in> ?R" for a by blast
  then show ?thesis by blast
qed

text \<open>The candidates when no cutoff event comes before.\<close>

lemma cex_acquire_candidates:
  assumes "unf_ok addr n0 u" "e \<in> unf_set u" "acquire_parts e et es" "history_complete e"
    and "\<not> u_cutoff u et" "pred_option (\<lambda>s. \<not> u_cutoff u s) es"
    and "inj_on addr (unf_set u \<union> alternatives_in e et es)"
  shows "\<exists>u' cs. cex_acquire e u = Some (u', cs) \<and> unf_ok addr n0 u' \<and> unf_set u' = unf_set u \<union> snd ` set cs
    \<and> snd ` set cs = {a. \<exists>lp. alternative_predecessor e lp \<and> \<not> skipped e lp \<and> acquire_alternative e et es lp = Some a}"
proof -
  have al: "allocated addr e" and conf: "is_configuration addr (local_config e)"
    using unf_ok_allocated [OF assms(1,2)] assms(1,2) by (auto simp: unf_ok_def event_ok_def)
  have k: "kind e = K_lock_acquire \<or> kind e = K_wait2" "thread_predecessor e = Some et"
      "es = (if kind e = K_wait2 then notifying_predecessor e else None)"
    using assms(3) by (simp_all add: acquire_parts_def)
  have es: "kind e = K_wait2 \<Longrightarrow> es \<noteq> None" using wait2_alloc [OF al] k(3) by auto
  have cut: "\<not> (case es of None \<Rightarrow> False | Some s \<Rightarrow> u_cutoff u s)" using assms(6) by (cases es) auto
  have run: "cex_acquire e u = (let er = lock_predecessor e; em = descend_lock (in_past et es) er in
      if em = er then Some (u, []) else do {
        st \<leftarrow> first_alternative e et es em (u, []);
        r \<leftarrow> er;
        older_alternatives e et es em (lock_predecessor r) st })"
  proof -
    have "\<not> (kind e \<noteq> K_lock_acquire \<and> kind e \<noteq> K_wait2)" "\<not> (kind e = K_wait2 \<and> es = None)" using k(1) es by auto
    then show ?thesis
      by (simp only: cex_acquire_def k(2) k(3) [symmetric] Let_def Option.bind.bind_lunit assms(5) cut if_False)
  qed
  show ?thesis
  proof (cases "lock_predecessor e")
    case None
    then have "\<not> alternative_predecessor e lp" for lp
      by (cases lp) (auto simp: alternative_predecessor_def lock_chain_Cons [of e])
    then show ?thesis using None assms(1) by (simp add: run)
  next
    case (Some r)
    define xs where "xs = older_chain (lock_predecessor r)"
    have chain: "lock_chain e = e # r # xs" using Some by (simp add: lock_chain_Cons [of e] lock_chain_Cons [of r] xs_def)
    have em: "descend_lock (in_past et es) (Some r) = (if in_past et es r then Some r else find (in_past et es) xs)"
      unfolding descend_lock_find lock_chain_Cons [of r] xs_def by simp
    show ?thesis
    proof (cases "in_past et es r")
      case True
      have "\<not> alternative_predecessor e lp" for lp
      proof
        assume l: "alternative_predecessor e lp"
        have r: "past e r" "r \<noteq> e"
          using True in_past_iff [OF conf assms(3), of r] chain_below [OF chain, of r] hb.irrefl by auto
        have "r \<in> set (lock_chain e) - {e}" using r(2) chain by simp
        then obtain p where p: "lp = Some p" "r = p \<or> hb r p"
          using l r(1) unfolding alternative_predecessor_def by blast
        moreover have "p \<noteq> r" "p \<in> set (e # r # xs) - {e}"
          using l p(1) unfolding alternative_predecessor_def chain Some by auto
        ultimately show False using chain_order [of e "[]" r xs p] chain hb.asym [of p r] by auto
      qed
      then show ?thesis using Some em True assms(1) by (simp add: run)
    next
      case False
      let ?em = "find (in_past et es) xs" and ?ps = "takeWhile (\<lambda>p. \<not> in_past et es p) xs"
      note hp = history_possible [OF conf assms(3,4) chain False]
      have "?em \<noteq> Some r"
        using chain_order [of e "[]" r xs r] chain hb.irrefl [of r] by (auto simp: find_Some_iff)
      then have cex: "cex_acquire e u = do {
          st \<leftarrow> first_alternative e et es ?em (u, []); older_alternatives e et es ?em (lock_predecessor r) st }"
        using run Some em False by (simp add: Let_def)
      obtain st where st: "first_alternative e et es ?em (u, []) = Some st" "collected addr n0 u e et es (first_choice e ?em) st"
        using first_alternative_ok [OF assms(1,2,3,7), of ?em] hp(1,2) by blast
      have "es = None" if "?em = None" using hp(1) that k(1,3) by auto
      then have older: "older_alternatives e et es ?em (lock_predecessor r) st = foldM (older_step e et es) ?ps st"
        unfolding older_alternatives_foldM xs_def [symmetric] using older_prefix [OF conf assms(3) chain] by simp
      obtain u' cs where r: "foldM (older_step e et es) ?ps st = Some (u', cs)"
          "collected addr n0 u e et es (first_choice e ?em @ map Some (filter frees_lock ?ps)) (u', cs)"
        using older_fold_ok [OF assms(1,2,3,7) _ st(2), of ?ps] hp(3) by force
      have "cex_acquire e u = Some (u', cs)" using cex st(1) older r(1) by simp
      moreover have "unf_ok addr n0 u'" "unf_set u' = unf_set u \<union> snd ` set cs"
        using r(2) by (simp_all add: collected_def cand_ok_def)
      moreover note collected_set [OF r(2), unfolded choices_alternatives [OF conf assms(3) chain Some False]]
      ultimately show ?thesis by blast
    qed
  qed
qed

text \<open>
  C4. \<^verbatim>\<open>cex_acquire\<close> on a lock acquisition or the return from a wait (\<^verbatim>\<open>wait2\<close>) that the unfolding holds, whose recorded history
  of the lock includes the operation of its own thread on this lock directly before it: it does not abort and keeps the invariant
  of the unfolding. If the thread predecessor or the notification is a cutoff event it yields nothing. Otherwise its candidates are
  exactly the events that the thread could have had instead, one for each other operation in the history of the lock that frees it
  and that is not overtaken by an operation in the past of the thread (and one for the untouched lock, if there is none in its past),
  with one exception, which is a gap of the code: a \<^verbatim>\<open>wait2\<close> that directly follows a \<^verbatim>\<open>wait1\<close> of its past on the lock is never produced.
\<close>

theorem cex_acquire_spec:
  assumes "unf_ok addr n0 u" "e \<in> unf_set u" "acquire_parts e et es" "history_complete e"
    and "inj_on addr (unf_set u \<union> alternatives_in e et es)"
  shows "\<exists>u' cs. cex_acquire e u = Some (u', cs) \<and> unf_ok addr n0 u' \<and> unf_set u' = unf_set u \<union> snd ` set cs
    \<and> snd ` set cs = (if u_cutoff u et \<or> \<not> pred_option (\<lambda>s. \<not> u_cutoff u s) es then {}
        else {a. \<exists>lp. alternative_predecessor e lp \<and> \<not> skipped e lp \<and> acquire_alternative e et es lp = Some a})"
proof (cases "u_cutoff u et \<or> \<not> pred_option (\<lambda>s. \<not> u_cutoff u s) es")
  case True
  have al: "allocated addr e" using unf_ok_allocated [OF assms(1,2)] .
  have k: "kind e = K_lock_acquire \<or> kind e = K_wait2" "thread_predecessor e = Some et"
      "es = (if kind e = K_wait2 then notifying_predecessor e else None)"
    using assms(3) by (simp_all add: acquire_parts_def)
  have es: "kind e = K_wait2 \<Longrightarrow> es \<noteq> None" using wait2_alloc [OF al] k(3) by auto
  have nk: "(kind e \<noteq> K_lock_acquire \<and> kind e \<noteq> K_wait2) = False" "(kind e = K_wait2 \<and> es = None) = False" using k(1) es by auto
  have "u_cutoff u et \<or> (case es of None \<Rightarrow> False | Some s \<Rightarrow> u_cutoff u s)" using True by (cases es) auto
  then have "cex_acquire e u = Some (u, [])"
    by (simp only: cex_acquire_def k(2) k(3) [symmetric] nk Let_def Option.bind.bind_lunit if_False) (elim disjE; simp)
  then show ?thesis using True assms(1) by simp
next
  case False
  then show ?thesis using cex_acquire_candidates [OF assms(1-4) _ _ assms(5)] by simp
qed

section \<open>A small unfolding\<close>

text \<open>An unfolding whose events form one configuration, without conflicts and cutoffs, and how it grows.\<close>

definition calm :: "('d event \<Rightarrow> nat) \<Rightarrow> nat \<Rightarrow> 'd unf \<Rightarrow> 'd event set \<Rightarrow> bool" where
  "calm addr n0 u E \<longleftrightarrow> unf_ok addr n0 u \<and> unf_set u = E \<and> is_configuration addr E
     \<and> (\<forall>x. u_conflicts u x = []) \<and> (\<forall>x. \<not> u_cutoff u x)"

lemma calm_new: "calm addr n0 (unfolding_new n0) {program_init}"
  by (simp add: calm_def unfolding_new_ok configuration_program_init)

lemma calm_grow:
  assumes "calm addr n0 u E" "allocated addr e" "set (predecessors e) \<subseteq> E" "e \<notin> E"
    and "\<forall>a \<in> E. tid a = tid e \<longrightarrow> a \<in> set (thread_chain e)"
    and "lock_pred_complete e" "kind e \<noteq> K_lock_destroy" "kind e \<noteq> K_program_init" "inj_on addr (insert e E)"
    and "\<forall>d \<in> E. hb d e \<or> is_independent_of e d = Some True"
  shows "\<exists>t. calm addr n0 t (insert e E)"
proof -
  have u: "unf_ok addr n0 u" "unf_set u = E" "is_configuration addr E" "\<And>x. u_conflicts u x = []" "\<And>x. \<not> u_cutoff u x"
    using assms(1) by (auto simp: calm_def)
  have conf: "is_configuration addr (insert e E)" using configuration_insert [OF u(3) assms(2,3)] assms(5) by blast
  have "local_config e \<subseteq> insert e E" using configuration_hb [OF _ conf, of _ e] by (auto simp: local_config_def)
  moreover have "causally_closed (local_config e)"
    using hb_pred hb.trans by (auto simp: causally_closed_def local_config_def) blast
  ultimately have lc: "is_configuration addr (local_config e)" by (rule configuration_subset [OF conf])
  have add: "addable addr u e"
    using lc assms(3,6-9) u(2,4) by (auto simp: addable_def event_ok_def causes_free_def)
  have new: "e \<notin> unf_set u" using assms(4) u(2) by simp
  obtain t where t: "deduplicate False e u = Some (t, True, e)" "unf_ok addr n0 t" "unf_set t = insert e (unf_set u)"
    using deduplicate_new [OF u(1) add new, of False] by blast
  obtain ds where ds: "compute_immediate_conflicts (linked e u) e = Some ds" "set ds = {d. immediate_conflict (linked e u) e d}"
    using linked_conflicts [OF u(1) add new] by blast
  have "\<not> immediate_conflict (linked e u) e d" for d
    using assms(10) linked_ok(2) [OF u(1) add new] u(2) by (auto simp: immediate_conflict_def)
  then have nil: "ds = []" using ds(2) by auto
  have "find (compare_events e) (bucket u (event_key e)) = None"
    using t(1) by (auto simp: deduplicate_def Let_def split: option.splits if_split_asm)
  then have "t = (linked e u)\<lparr>u_conflicts := (u_conflicts (linked e u))(e := []), u_metadata := (u_metadata (linked e u))(e := False)\<rparr>"
    using t(1) ds(1) by (simp add: deduplicate_def Let_def linked_def [symmetric] nil)
  moreover have "\<not> constructed_cutoff u e" using u(5) by (cases "body e") (auto simp: constructed_cutoff_def list_ex_iff)
  ultimately have "u_conflicts t x = [] \<and> \<not> u_cutoff t x" for x using u(4,5) by simp
  then show ?thesis using t(2,3) conf u(2) by (auto simp: calm_def)
qed

text \<open>
  The main thread creates a second one and then acquires and releases a lock, which the second
  thread acquires after it.
\<close>

definition ex_acq :: "nat event" where
  "ex_acq = Event (Thread_Id [1]) [(Thread_Id [1], ex_create)] 3 (Lock_Acquire 1 ex_create None)"

definition ex_rel :: "nat event" where
  "ex_rel = Event (Thread_Id [1]) [(Thread_Id [1], ex_acq)] 4 (Lock_Release 1 ex_acq ex_acq False)"

definition ex_take :: "nat event" where
  "ex_take = Event (Thread_Id [1, 1]) [(Thread_Id [1], ex_rel), (Thread_Id [1, 1], ex_child)] 5 (Lock_Acquire 1 ex_child (Some ex_rel))"

definition ex_early :: "nat event" where
  "ex_early = Event (Thread_Id [1, 1]) [(Thread_Id [1], ex_create), (Thread_Id [1, 1], ex_child)] 4 (Lock_Acquire 1 ex_child None)"

definition ex_addr :: "nat event \<Rightarrow> nat" where
  "ex_addr e = depth e + (if tid e = Thread_Id [1, 1] then 10 else 0)"

lemma ex_fields [simp]:
  "tid ex_init = Thread_Id [1]" "tid ex_create = Thread_Id [1]" "tid ex_child = Thread_Id [1, 1]"
  "tid ex_acq = Thread_Id [1]" "tid ex_rel = Thread_Id [1]" "tid ex_take = Thread_Id [1, 1]" "tid ex_early = Thread_Id [1, 1]"
  "depth ex_init = 1" "depth ex_create = 2" "depth ex_child = 3" "depth ex_acq = 3" "depth ex_rel = 4"
  "depth ex_take = 5" "depth ex_early = 4"
  "kind ex_init = K_thread_init" "kind ex_create = K_thread_create" "kind ex_child = K_thread_init"
  "kind ex_acq = K_lock_acquire" "kind ex_rel = K_lock_release" "kind ex_take = K_lock_acquire"
  "body ex_init = Thread_Init program_init" "body ex_create = Thread_Create ex_init (Thread_Id [1, 1])"
  "body ex_child = Thread_Init ex_create" "body ex_acq = Lock_Acquire 1 ex_create None"
  "body ex_rel = Lock_Release 1 ex_acq ex_acq False" "body ex_take = Lock_Acquire 1 ex_child (Some ex_rel)"
  "cone ex_init = []" "cone ex_create = [(Thread_Id [1], ex_init)]" "cone ex_child = [(Thread_Id [1], ex_create)]"
  "cone ex_acq = [(Thread_Id [1], ex_create)]" "cone ex_rel = [(Thread_Id [1], ex_acq)]"
  by (simp_all add: ex_defs ex_acq_def ex_rel_def ex_take_def ex_early_def kind_def)

lemma ex_neq [simp]:
  "ex_acq \<noteq> ex_create" "ex_acq \<noteq> ex_init" "ex_acq \<noteq> ex_child" "ex_acq \<noteq> program_init"
  "ex_rel \<noteq> ex_create" "ex_rel \<noteq> ex_init" "ex_rel \<noteq> ex_child" "ex_rel \<noteq> program_init" "ex_rel \<noteq> ex_acq"
  "ex_child \<noteq> ex_rel" "ex_take \<noteq> ex_create" "ex_take \<noteq> ex_init" "ex_take \<noteq> ex_child" "ex_take \<noteq> program_init" "ex_take \<noteq> ex_rel"
  by (auto dest!: arg_cong [where f = kind])

lemma ex_preds [simp]:
  "predecessors ex_init = [program_init]" "predecessors ex_create = [ex_init]" "predecessors ex_child = [ex_create]"
  "predecessors ex_acq = [ex_create]" "predecessors ex_take = [ex_child, ex_rel]" "predecessors ex_rel = [ex_acq]"
  "thread_predecessor ex_create = Some ex_init" "thread_predecessor ex_init = None" "thread_predecessor ex_child = None"
  "thread_predecessor ex_acq = Some ex_create" "thread_predecessor ex_rel = Some ex_acq" "thread_predecessor ex_take = Some ex_child"
  "lock_predecessor ex_acq = None" "lock_predecessor ex_rel = Some ex_acq" "lock_predecessor ex_take = Some ex_rel"
  "lid ex_acq = 1" "lid ex_rel = 1" "lid ex_take = 1" "lid ex_create = 0" "lid ex_child = 0"
  by (simp_all add: predecessors_def thread_predecessor_def lock_predecessor_def lid_def opt_lock_predecessors_def lock_release_predecessors_def)

lemma ex_lock_allocs:
  "alloc_lock_acquire (Thread_Id [1]) 1 ex_create None = Some ex_acq"
  "alloc_lock_release (Thread_Id [1]) 1 ex_acq ex_acq False = Some ex_rel"
  "alloc_lock_acquire (Thread_Id [1, 1]) 1 ex_child (Some ex_rel) = Some ex_take"
  "alloc_lock_acquire (Thread_Id [1, 1]) 1 ex_child None = Some ex_early"
  by (simp_all add: alloc_lock_acquire_def alloc_lock_release_def event_multi_def cone_of_events_def cone_insert_def
      cone_update_def cone_max_depth_def cone_events_def thread_pred_ok_def tid_empty_def Let_def ex_tid_less)
     (simp_all add: ex_acq_def ex_rel_def ex_take_def ex_early_def)

lemma ex_lock_allocated: "allocated addr ex_acq" "allocated addr ex_rel" "allocated addr ex_take"
proof -
  show a: "allocated addr ex_acq" by (rule a_lock_acquire [OF ex_allocated(2) _ ex_lock_allocs(1)]) simp
  show r: "allocated addr ex_rel" by (rule a_lock_release [OF a a ex_lock_allocs(2)])
  show "allocated addr ex_take" by (rule a_lock_acquire [OF ex_allocated(3) _ ex_lock_allocs(3)]) (simp add: r)
qed

lemma ex_chains:
  "thread_chain ex_init = [ex_init]" "thread_chain ex_create = [ex_create, ex_init]" "thread_chain ex_child = [ex_child]"
  "thread_chain ex_acq = [ex_acq, ex_create, ex_init]" "thread_chain ex_rel = [ex_rel, ex_acq, ex_create, ex_init]"
  "thread_chain ex_take = [ex_take, ex_child]" "lock_chain ex_take = [ex_take, ex_rel, ex_acq]"
  by (simp_all add: thread_chain.simps [of ex_init] thread_chain.simps [of ex_create] thread_chain.simps [of ex_child]
      thread_chain.simps [of ex_acq] thread_chain.simps [of ex_rel] thread_chain.simps [of ex_take]
      lock_chain.simps [of ex_take] lock_chain.simps [of ex_rel] lock_chain.simps [of ex_acq])

lemma ex_hb [simp]:
  "hb g ex_init \<longleftrightarrow> g = program_init" "hb g ex_create \<longleftrightarrow> g = ex_init \<or> hb g ex_init"
  "hb g ex_child \<longleftrightarrow> g = ex_create \<or> hb g ex_create" "hb g ex_acq \<longleftrightarrow> g = ex_create \<or> hb g ex_create"
  "hb g ex_rel \<longleftrightarrow> g = ex_acq \<or> hb g ex_acq"
  "hb g ex_take \<longleftrightarrow> g = ex_child \<or> hb g ex_child \<or> g = ex_rel \<or> hb g ex_rel"
  using hb_last [of g ex_init] hb_last [of g ex_create] hb_last [of g ex_child] hb_last [of g ex_acq]
    hb_last [of g ex_rel] hb_last [of g ex_take] hb_last [of g program_init] by auto

lemma ex_take_neq [simp]: "ex_take \<noteq> ex_acq"
  by (auto dest!: arg_cong [where f = tid])

abbreviation ex_events :: "nat event set" where
  "ex_events \<equiv> {ex_take, ex_rel, ex_acq, ex_child, ex_create, ex_init, program_init}"

lemma ex_independent:
  "is_independent_of ex_acq ex_child = Some True" "is_independent_of ex_rel ex_child = Some True"
  by (simp_all add: is_independent_of_def thread_is_independent_def is_thread_kind_def thread_event_is_independent_def
      lock_is_independent_def)

lemma ex_calm: "\<exists>u. calm ex_addr 0 u ex_events"
proof -
  note facts = ex_addr_def inj_on_def lock_pred_complete_def ex_chains tid_none_def ex_distinct
  obtain u1 where u1: "calm ex_addr 0 u1 {ex_init, program_init}"
    using calm_grow [OF calm_new [of ex_addr 0] ex_allocated(1)] by (auto simp: facts)
  obtain u2 where u2: "calm ex_addr 0 u2 {ex_create, ex_init, program_init}"
    using calm_grow [OF u1 ex_allocated(2)] by (auto simp: facts)
  obtain u3 where u3: "calm ex_addr 0 u3 {ex_child, ex_create, ex_init, program_init}"
    using calm_grow [OF u2 ex_allocated(3)] by (auto simp: facts)
  obtain u4 where u4: "calm ex_addr 0 u4 {ex_acq, ex_child, ex_create, ex_init, program_init}"
    using calm_grow [OF u3 ex_lock_allocated(1)] ex_independent by (auto simp: facts)
  obtain u5 where u5: "calm ex_addr 0 u5 {ex_rel, ex_acq, ex_child, ex_create, ex_init, program_init}"
    using calm_grow [OF u4 ex_lock_allocated(2)] ex_independent by (auto simp: facts)
  show ?thesis
    using calm_grow [OF u5 ex_lock_allocated(3)] by (auto simp: facts)
qed

lemma ex_alternatives: "acquire_alternative ex_take ex_child None None = Some ex_early"
  "acquire_alternative ex_take ex_child None (Some ex_rel) = Some ex_take"
  "acquire_alternative ex_take ex_child None (Some ex_acq) = None"
  "acquire_alternative ex_take ex_child None (Some ex_take) = None"
  using ex_lock_allocs(3,4) by (simp_all add: acquire_alternative_def) (simp_all add: alloc_lock_acquire_def)

theorem cex_acquire_spec_witness:
  "\<exists>u u' cs. unf_ok ex_addr 0 u \<and> unf_set u = ex_events \<and> cex_acquire ex_take u = Some (u', cs) \<and> snd ` set cs = {ex_early}"
proof -
  obtain u where u: "unf_ok ex_addr 0 u" "unf_set u = ex_events" "\<And>x. \<not> u_cutoff u x"
    using ex_calm by (auto simp: calm_def)
  have parts: "acquire_parts ex_take ex_child None" "history_complete ex_take"
    by (simp_all add: acquire_parts_def history_complete_def)
  have alts: "alternatives_in ex_take ex_child None = {ex_early, ex_take}"
    by (auto simp: alternatives_in_def ex_chains ex_alternatives)
  have inj: "inj_on ex_addr (unf_set u \<union> alternatives_in ex_take ex_child None)"
    unfolding u(2) alts by (auto simp: inj_on_def ex_addr_def tid_none_def)
  have pred: "alternative_predecessor ex_take lp \<longleftrightarrow> lp = None \<or> lp = Some ex_acq" for lp
    by (cases lp) (auto simp: alternative_predecessor_def ex_chains past_def ex_neq [symmetric])
  have "{a. \<exists>lp. alternative_predecessor ex_take lp \<and> \<not> skipped ex_take lp \<and> acquire_alternative ex_take ex_child None lp = Some a} = {ex_early}"
    using ex_alternatives by (auto simp: pred skipped_def)
  then obtain u' cs where "cex_acquire ex_take u = Some (u', cs)" "snd ` set cs = {ex_early}"
    using cex_acquire_spec [OF u(1) _ parts inj] u(2,3) by auto
  then show ?thesis using u(1,2) by blast
qed

section \<open>Waits that are notified already\<close>

lemma drop_notified_keep: "drop_notified cv x [w] = [w] \<Longrightarrow> w \<in> set ws \<Longrightarrow> w \<in> set (drop_notified cv x ws)"
  by (auto simp: drop_notified_def split: if_split_asm)

lemma drop_notified_chain_keep:
  "\<forall>x \<in> set xs. drop_notified cv x [w] = [w] \<Longrightarrow> w \<in> set ws \<Longrightarrow> w \<in> set (drop_notified_chain cv xs ws)"
  by (induction cv xs ws rule: drop_notified_chain.induct) (auto intro: drop_notified_keep)

lemma outstanding_wait1_keep:
  assumes "w \<in> set (cone_events c)" "kind w = K_wait1" "cid w = cv"
    and "\<forall>f \<in> set (cone_events c). \<forall>x \<in> set (thread_chain f). drop_notified cv x [w] = [w]"
  shows "w \<in> set (outstanding_wait1 cv c)"
proof -
  have "w \<in> set (fold (\<lambda>e. drop_notified_chain cv (thread_chain e)) es ws)"
    if "w \<in> set ws" "set es \<subseteq> set (cone_events c)" for es ws
    using that
  proof (induction es arbitrary: ws)
    case (Cons e es)
    then show ?case using drop_notified_chain_keep [of "thread_chain e" cv w ws] assms(4) by auto
  qed simp
  moreover define ws where "ws = sort_key depth (filter (\<lambda>e. kind e = K_wait1 \<and> cid e = cv) (cone_events c))"
  moreover have w: "w \<in> set ws" using assms(1-3) by (simp add: ws_def)
  moreover have "ws \<noteq> []" using w by auto
  ultimately show ?thesis by (simp add: outstanding_wait1_def Let_def)
qed

lemma notifying_signal_alloc:
  assumes "allocated addr e" "kind e = K_signal" "wait_predecessors e = [w]"
  shows "\<exists>tp. allocated addr tp \<and> allocated addr w \<and> alloc_signal (tid e) (cid e) tp w = Some e"
  using assms(1)
proof (cases rule: allocated.cases)
  case (a_signal tp w' t c)
  then show ?thesis using alloc_signal_Some [OF a_signal(3)] assms(3)
    by (cases e) (auto simp: cid_def signal_wait_predecessor_def split: if_split_asm option.splits)
next
  case (a_signal_lost tp cps t c)
  then show ?thesis using assms(3) by (cases e) (auto simp: signal_wait_predecessor_def dest!: alloc_signal_lost_Some)
qed (use assms(2) in \<open>auto dest!: alloc_Some simp: kind_def program_init_def\<close>)

text \<open>
  C35. \<^verbatim>\<open>cex_notification\<close> looks for outstanding waits in the cone of the thread predecessor \<open>et\<close>, which
  does not contain \<open>et\<close> itself. If \<open>et\<close> is a signal, the wait that it notifies is therefore still
  reported as outstanding, and the constructor accepts a second signal by the same thread, directly
  after \<open>et\<close>, that notifies the same wait again.
\<close>

theorem outstanding_wait1_counts_notified:
  assumes "allocated addr et" "kind et = K_signal" "wait_predecessors et = [w]" "map_of (cone et) (tid w) = Some w"
    and "\<forall>x. hb x et \<longrightarrow> drop_notified (cid et) x [w] = [w]"
  shows "w \<in> set (outstanding_wait1 (cid et) (cone et))
    \<and> (\<exists>ws. outstanding_wait1_events (cid et) [et] = Some ws \<and> w \<in> set ws)
    \<and> (\<exists>a. alloc_signal (tid et) (cid et) et w = Some a \<and> wait_predecessors a = [w] \<and> thread_predecessor a = Some et)"
proof -
  obtain tp where tp: "allocated addr w" "alloc_signal (tid et) (cid et) tp w = Some et"
    using notifying_signal_alloc [OF assms(1-3)] by blast
  then have w: "kind w = K_wait1" "cid w = cid et" "tid w \<noteq> tid et" "\<not> tid_empty (tid w)" "cid et \<noteq> 0" "\<not> tid_empty (tid et)"
    unfolding alloc_signal_def by (auto simp: thread_pred_ok_def split: if_split_asm)
  have "w \<in> set (outstanding_wait1 (cid et) (cone et))"
  proof (rule outstanding_wait1_keep [OF _ w(1,2)])
    show "w \<in> set (cone_events (cone et))" using map_of_SomeD [OF assms(4)] by (force simp: cone_events_def)
    show "\<forall>f \<in> set (cone_events (cone et)). \<forall>x \<in> set (thread_chain f). drop_notified (cid et) x [w] = [w]"
    proof (intro ballI)
      fix f x assume fx: "f \<in> set (cone_events (cone et))" "x \<in> set (thread_chain f)"
      have "hb f et" using fx(1) cone_soundD [OF allocated_cone_sound [OF assms(1)]] by (auto simp: cone_events_def)
      then have "hb x et" using thread_chain_hb [OF fx(2)] hb_trans by blast
      then show "drop_notified (cid et) x [w] = [w]" using assms(5) by blast
    qed
  qed
  moreover have "\<exists>a. event_multi (tid et) et (Some w) [] (Signal (cid et) et [w]) = Some a"
    by (rule event_multi_total [OF allocated_cone_ok [OF assms(1)]]) (use w(1) assms(2) in auto)
  then obtain a where a: "alloc_signal (tid et) (cid et) et w = Some a"
    using w assms(2) by (auto simp: alloc_signal_def thread_pred_ok_def)
  moreover have "wait_predecessors a = [w]" "thread_predecessor a = Some et"
    using alloc_signal_Some [OF a] w(1) by (cases a; simp add: signal_wait_predecessor_def thread_predecessor_def)+
  ultimately show ?thesis by (simp add: outstanding_wait1_events_def)
qed

text \<open>The second thread waits, and the main thread signals.\<close>

definition ex_wait :: "nat event" where
  "ex_wait = Event (Thread_Id [1, 1]) [(Thread_Id [1], ex_create), (Thread_Id [1, 1], ex_early)] 5 (Wait1 1 1 ex_early ex_early [])"

definition ex_sig :: "nat event" where
  "ex_sig = Event (Thread_Id [1]) [(Thread_Id [1], ex_create), (Thread_Id [1, 1], ex_wait)] 6 (Signal 1 ex_create [ex_wait])"

lemma ex_wait_fields [simp]:
  "kind ex_early = K_lock_acquire" "lid ex_early = 1" "cone ex_early = [(Thread_Id [1], ex_create), (Thread_Id [1, 1], ex_child)]"
  "predecessors ex_early = [ex_child]" "tid ex_wait = Thread_Id [1, 1]" "depth ex_wait = 5" "kind ex_wait = K_wait1" "cid ex_wait = 1"
  "cone ex_wait = [(Thread_Id [1], ex_create), (Thread_Id [1, 1], ex_early)]" "predecessors ex_wait = [ex_early, ex_early]"
  "kind ex_sig = K_signal" "cid ex_sig = 1" "wait_predecessors ex_sig = [ex_wait]" "predecessors ex_sig = [ex_create, ex_wait]"
  "cone ex_sig = [(Thread_Id [1], ex_create), (Thread_Id [1, 1], ex_wait)]" "tid ex_sig = Thread_Id [1]"
  by (simp_all add: ex_early_def ex_wait_def ex_sig_def kind_def lid_def cid_def predecessors_def opt_lock_predecessors_def
      lock_release_predecessors_def signal_wait_predecessor_def)

lemma ex_sig_allocated: "allocated addr ex_sig"
proof -
  have e: "allocated addr ex_early" by (rule a_lock_acquire [OF ex_allocated(3) _ ex_lock_allocs(4)]) simp
  have "alloc_wait1 addr (Thread_Id [1, 1]) 1 1 ex_early ex_early [] = Some ex_wait"
    by (simp add: alloc_wait1_def event_multi_def cone_of_events_def cone_insert_def cone_update_def cone_max_depth_def
        cone_events_def thread_pred_ok_def tid_empty_def Let_def ex_tid_less) (simp add: ex_wait_def)
  then have w: "allocated addr ex_wait" by (rule a_wait1 [OF e e, of "[]", rotated]) simp
  have "alloc_signal (Thread_Id [1]) 1 ex_create ex_wait = Some ex_sig"
    by (simp add: alloc_signal_def event_multi_def cone_of_events_def cone_insert_def cone_update_def cone_max_depth_def
        cone_events_def thread_pred_ok_def tid_empty_def Let_def ex_tid_less) (simp add: ex_sig_def)
  then show ?thesis by (rule a_signal [OF ex_allocated(2) w])
qed

theorem outstanding_wait1_counts_notified_witness:
  "wait_predecessors ex_sig = [ex_wait] \<and> ex_wait \<in> set (outstanding_wait1 1 (cone ex_sig))
    \<and> (\<exists>a. alloc_signal (Thread_Id [1]) 1 ex_sig ex_wait = Some a \<and> wait_predecessors a = [ex_wait])"
proof -
  have hb: "hb g ex_early \<longleftrightarrow> g = ex_child \<or> hb g ex_child" "hb g ex_wait \<longleftrightarrow> g = ex_early \<or> hb g ex_early"
      "hb g ex_sig \<longleftrightarrow> g = ex_create \<or> hb g ex_create \<or> g = ex_wait \<or> hb g ex_wait" for g
    using hb_last [of g ex_early] hb_last [of g ex_wait] hb_last [of g ex_sig] by auto
  have "\<forall>x. hb x ex_sig \<longrightarrow> drop_notified 1 x [ex_wait] = [ex_wait]"
    by (auto simp: hb drop_notified_def)
  then show ?thesis using outstanding_wait1_counts_notified [OF ex_sig_allocated [of "\<lambda>_. 0"], of ex_wait] by auto
qed

end
