(* ===== verification/Ringbuffer.thy ===== *)
theory Ringbuffer
  imports Por_Prelude "HOL-Library.Word" "HOL-Library.Monad_Syntax"
begin

text \<open>
  \<^verbatim>\<open>runtime/POSIX/utils/ringbuffer.c\<close>: the byte queue behind the pipes and sockets of the POSIX
  runtime, stored in a circular buffer. An access outside the buffer, a null pointer and a failing
  assertion are \<open>None\<close>.

  The allocator is not part of these sources: \<open>mem n\<close> says whether an allocation of \<open>n\<close> bytes
  succeeds. Sizes and indices stay below the size of the buffer, so they are natural numbers.
\<close>

section \<open>Definitions\<close>

type_synonym byte = "8 word"

record kpr_ringbuffer =
  rb_size :: nat
  free_capacity :: nat
  rb_buffer :: "byte list option"
  read_index :: nat
  write_index :: nat

definition ringbuffer_create :: "(nat \<Rightarrow> bool) \<Rightarrow> kpr_ringbuffer \<Rightarrow> nat \<Rightarrow> bool \<times> kpr_ringbuffer" where
  "ringbuffer_create mem rb n =
     (if n = 0 then (False, rb)
      else let b = (if mem n then Some (replicate n 0) else None) in
        (b \<noteq> None, rb\<lparr>read_index := 0, write_index := 0, rb_size := n, free_capacity := n, rb_buffer := b\<rparr>))"

definition ringbuffer_destroy :: "kpr_ringbuffer \<Rightarrow> bool \<times> kpr_ringbuffer" where
  "ringbuffer_destroy rb = (True, rb\<lparr>rb_buffer := None, rb_size := 0\<rparr>)"

definition ringbuffer_empty :: "kpr_ringbuffer \<Rightarrow> bool" where
  "ringbuffer_empty rb \<longleftrightarrow> free_capacity rb = rb_size rb"

definition ringbuffer_full :: "kpr_ringbuffer \<Rightarrow> bool" where
  "ringbuffer_full rb \<longleftrightarrow> free_capacity rb = 0"

definition ringbuffer_used_size :: "kpr_ringbuffer \<Rightarrow> nat" where
  "ringbuffer_used_size rb = rb_size rb - free_capacity rb"

definition ringbuffer_unused_size :: "kpr_ringbuffer \<Rightarrow> nat" where
  "ringbuffer_unused_size rb = free_capacity rb"

text \<open>\<open>buffer[i]\<close> for reading and for writing.\<close>

definition buf_read :: "byte list option \<Rightarrow> nat \<Rightarrow> byte option" where
  "buf_read b i = Option.bind b (\<lambda>bs. if i < length bs then Some (bs ! i) else None)"

definition buf_write :: "byte list option \<Rightarrow> nat \<Rightarrow> byte \<Rightarrow> byte list option" where
  "buf_write b i c = Option.bind b (\<lambda>bs. if i < length bs then Some (bs[i := c]) else None)"

text \<open>The two loops. They return the bytes read and the number of bytes written.\<close>

fun ringbuffer_obtain :: "nat \<Rightarrow> kpr_ringbuffer \<Rightarrow> (byte list \<times> kpr_ringbuffer) option" where
  "ringbuffer_obtain 0 rb = Some ([], rb)"
| "ringbuffer_obtain (Suc n) rb =
     (if free_capacity rb < rb_size rb then do {
        c \<leftarrow> buf_read (rb_buffer rb) (read_index rb);
        (cs, rb) \<leftarrow> ringbuffer_obtain n (rb\<lparr>free_capacity := free_capacity rb + 1,
                      read_index := (read_index rb + 1) mod rb_size rb\<rparr>);
        Some (c # cs, rb)
      } else Some ([], rb))"

fun ringbuffer_push :: "byte list \<Rightarrow> kpr_ringbuffer \<Rightarrow> (nat \<times> kpr_ringbuffer) option" where
  "ringbuffer_push [] rb = Some (0, rb)"
| "ringbuffer_push (c # cs) rb =
     (if free_capacity rb > 0 then do {
        b \<leftarrow> buf_write (rb_buffer rb) (write_index rb) c;
        (i, rb) \<leftarrow> ringbuffer_push cs (rb\<lparr>rb_buffer := Some b, free_capacity := free_capacity rb - 1,
                     write_index := (write_index rb + 1) mod rb_size rb\<rparr>);
        Some (i + 1, rb)
      } else Some (0, rb))"

definition ringbuffer_resize :: "(nat \<Rightarrow> bool) \<Rightarrow> kpr_ringbuffer \<Rightarrow> nat \<Rightarrow> (bool \<times> kpr_ringbuffer) option" where
  "ringbuffer_resize mem rb new_size =
     (let el_count = ringbuffer_used_size rb in
      if new_size < el_count then Some (False, rb)
      else if \<not> mem new_size then Some (False, rb)
      else if \<not> mem el_count \<and> el_count > 0 then None
      else do {
        (temp, rb) \<leftarrow> ringbuffer_obtain el_count rb;
        (if length temp = el_count then Some () else None);
        let rb = rb\<lparr>rb_buffer := Some (replicate new_size 0), read_index := 0, write_index := 0,
                    rb_size := new_size, free_capacity := new_size\<rparr>;
        (n, rb) \<leftarrow> ringbuffer_push temp rb;
        (if n = el_count then Some () else None);
        Some (True, rb) })"

section \<open>The queue it implements\<close>

definition rb_ok :: "kpr_ringbuffer \<Rightarrow> bool" where
  "rb_ok rb \<longleftrightarrow> (\<exists>b. rb_buffer rb = Some b \<and> length b = rb_size rb)
     \<and> free_capacity rb \<le> rb_size rb \<and> (read_index rb < rb_size rb \<or> rb_size rb = 0)
     \<and> write_index rb = (read_index rb + ringbuffer_used_size rb) mod rb_size rb"

definition contents :: "kpr_ringbuffer \<Rightarrow> byte list" where
  "contents rb = map (\<lambda>i. the (rb_buffer rb) ! ((read_index rb + i) mod rb_size rb)) [0..<ringbuffer_used_size rb]"

lemma length_contents [simp]: "length (contents rb) = ringbuffer_used_size rb"
  by (simp add: contents_def)

lemma obtain_step:
  assumes "rb_ok rb" "free_capacity rb < rb_size rb"
  defines "rb' \<equiv> rb\<lparr>free_capacity := free_capacity rb + 1, read_index := (read_index rb + 1) mod rb_size rb\<rparr>"
  shows "buf_read (rb_buffer rb) (read_index rb) = Some (hd (contents rb))"
    and "rb_ok rb'" and "contents rb = hd (contents rb) # contents rb'"
proof -
  obtain b where b: "rb_buffer rb = Some b" "length b = rb_size rb" and r: "read_index rb < rb_size rb"
    using assms(1,2) by (auto simp: rb_ok_def)
  obtain u where u: "ringbuffer_used_size rb = Suc u" "ringbuffer_used_size rb' = u"
    using assms(2) by (cases "rb_size rb - free_capacity rb") (auto simp: ringbuffer_used_size_def rb'_def)
  have c: "contents rb = b ! read_index rb # contents rb'"
    using r u b
    by (simp add: contents_def upt_conv_Cons mod_add_left_eq rb'_def comp_def flip: map_Suc_upt del: upt_Suc)
  then show "buf_read (rb_buffer rb) (read_index rb) = Some (hd (contents rb))" using b r by (simp add: buf_read_def)
  show "contents rb = hd (contents rb) # contents rb'" using c by simp
  have "write_index rb = (read_index rb + Suc u) mod rb_size rb" using assms(1) u by (simp add: rb_ok_def)
  then show "rb_ok rb'" using assms(2) b r u by (simp add: rb_ok_def rb'_def mod_add_left_eq)
qed

lemma push_step:
  assumes "rb_ok rb" "0 < free_capacity rb" "buf_write (rb_buffer rb) (write_index rb) c = Some b'"
  defines "rb' \<equiv> rb\<lparr>rb_buffer := Some b', free_capacity := free_capacity rb - 1,
                   write_index := (write_index rb + 1) mod rb_size rb\<rparr>"
  shows "rb_ok rb'" and "contents rb' = contents rb @ [c]"
proof -
  let ?n = "rb_size rb" and ?r = "read_index rb" and ?u = "ringbuffer_used_size rb"
  obtain b where b: "rb_buffer rb = Some b" "length b = ?n" and f: "free_capacity rb \<le> ?n"
    and w: "write_index rb = (?r + ?u) mod ?n"
    using assms(1) by (auto simp: rb_ok_def)
  have n: "0 < ?n" "?r < ?n" using assms(1,2) f by (auto simp: rb_ok_def)
  have b': "b' = b[write_index rb := c]" using assms(3) b by (auto simp: buf_write_def split: if_splits)
  have u: "ringbuffer_used_size rb' = Suc ?u" "?u < ?n"
    using assms(2) f by (simp_all add: ringbuffer_used_size_def rb'_def)
  show "rb_ok rb'" using b b' f n w u by (simp add: rb_ok_def rb'_def mod_Suc_eq)
  have "write_index rb \<noteq> (?r + i) mod ?n" if "i < ?u" for i
  proof -
    have "(?r + i) mod ?n \<noteq> (?r + ?u) mod ?n"
      using that u(2) mod_eq_dvd_iff_nat [of "?r + i" "?r + ?u" ?n] dvd_imp_le [of ?n "?u - i"] by auto
    then show ?thesis using w by metis
  qed
  then have "map (\<lambda>i. b' ! ((?r + i) mod ?n)) [0..<?u] = map (\<lambda>i. b ! ((?r + i) mod ?n)) [0..<?u]"
    using b' by (intro map_cong) auto
  moreover have "b' ! ((?r + ?u) mod ?n) = c" using w b' b(2) n(1) by simp
  ultimately show "contents rb' = contents rb @ [c]" using b(1) u(1) by (simp add: contents_def rb'_def)
qed

lemma ringbuffer_obtain_ok:
  "rb_ok rb \<Longrightarrow> \<exists>rb'. ringbuffer_obtain n rb = Some (take n (contents rb), rb') \<and> rb_ok rb'
     \<and> contents rb' = drop n (contents rb) \<and> rb_size rb' = rb_size rb"
proof (induction n arbitrary: rb)
  case (Suc n)
  show ?case
  proof (cases "free_capacity rb < rb_size rb")
    case True
    note s = obtain_step [OF Suc.prems True]
    show ?thesis using Suc.IH [OF s(2)] s(1) by (subst (1 2) s(3)) (auto simp: True)
  next
    case False
    then have "ringbuffer_used_size rb = 0" by (simp add: ringbuffer_used_size_def)
    then have "contents rb = []" by (simp add: contents_def)
    then show ?thesis using False Suc.prems by simp
  qed
qed simp

lemma ringbuffer_push_ok:
  "rb_ok rb \<Longrightarrow> \<exists>rb'. ringbuffer_push cs rb = Some (min (length cs) (free_capacity rb), rb') \<and> rb_ok rb'
     \<and> contents rb' = contents rb @ take (free_capacity rb) cs \<and> rb_size rb' = rb_size rb"
proof (induction cs arbitrary: rb)
  case (Cons c cs)
  show ?case
  proof (cases "free_capacity rb")
    case (Suc f)
    have "write_index rb < rb_size rb" using Cons.prems Suc by (auto simp: rb_ok_def)
    then obtain b' where b': "buf_write (rb_buffer rb) (write_index rb) c = Some b'"
      using Cons.prems by (auto simp: rb_ok_def buf_write_def)
    have "0 < free_capacity rb" using Suc by simp
    note s = push_step [OF Cons.prems this b']
    show ?thesis using Cons.IH [OF s(1)] s(2) b' Suc by auto
  qed (use Cons.prems in simp)
qed simp

text \<open>
  The contract a client of the buffer relies on: bytes come out in the order they went in, nothing
  is lost below the capacity, and a transfer is cut short only at the limit.
\<close>

locale byte_queue =
  fixes ok :: "'q \<Rightarrow> bool" and bytes :: "'q \<Rightarrow> byte list" and room :: "'q \<Rightarrow> nat"
    and push :: "byte list \<Rightarrow> 'q \<Rightarrow> (nat \<times> 'q) option" and obtain_bytes :: "nat \<Rightarrow> 'q \<Rightarrow> (byte list \<times> 'q) option"
  assumes push_law: "ok q \<Longrightarrow> \<exists>q'. push cs q = Some (min (length cs) (room q), q') \<and> ok q'
      \<and> bytes q' = bytes q @ take (room q) cs"
    and obtain_law: "ok q \<Longrightarrow> \<exists>q'. obtain_bytes n q = Some (take n (bytes q), q') \<and> ok q' \<and> bytes q' = drop n (bytes q)"
begin

lemma push_then_obtain:
  assumes "ok q" "length cs \<le> room q"
  shows "\<exists>q1 q2. push cs q = Some (length cs, q1)
    \<and> obtain_bytes (length (bytes q) + length cs) q1 = Some (bytes q @ cs, q2) \<and> ok q2 \<and> bytes q2 = []"
proof -
  obtain q1 where q1: "push cs q = Some (length cs, q1)" "ok q1" "bytes q1 = bytes q @ cs"
    using push_law [OF assms(1), of cs] assms(2) by (auto simp: min_def)
  show ?thesis using q1 obtain_law [OF q1(2), of "length (bytes q) + length cs"] by auto
qed

end

interpretation rbq: byte_queue rb_ok contents free_capacity ringbuffer_push ringbuffer_obtain
  by unfold_locales (use ringbuffer_push_ok ringbuffer_obtain_ok in blast)+

section \<open>Properties\<close>

text \<open>
  C20. The ring buffer is a bounded FIFO queue of bytes. \<^verbatim>\<open>kpr_ringbuffer_push\<close> never writes outside
  the buffer, appends as many of the given bytes as there is room for and reports their number;
  \<^verbatim>\<open>kpr_ringbuffer_obtain\<close> then returns the oldest bytes in order and removes them. The indices wrap
  around, so this holds for any position of the queue in the buffer.
\<close>

theorem ringbuffer_refines_queue:
  assumes "rb_ok rb"
  shows "\<exists>rb1 ys rb2. ringbuffer_push cs rb = Some (min (length cs) (free_capacity rb), rb1)
    \<and> ringbuffer_obtain n rb1 = Some (ys, rb2) \<and> rb_ok rb2
    \<and> ys @ contents rb2 = contents rb @ take (free_capacity rb) cs
    \<and> length ys = min n (length (contents rb) + min (length cs) (free_capacity rb))"
proof -
  obtain rb1 where 1: "ringbuffer_push cs rb = Some (min (length cs) (free_capacity rb), rb1)" "rb_ok rb1"
      "contents rb1 = contents rb @ take (free_capacity rb) cs"
    using rbq.push_law [OF assms] by blast
  obtain rb2 where 2: "ringbuffer_obtain n rb1 = Some (take n (contents rb1), rb2)" "rb_ok rb2"
      "contents rb2 = drop n (contents rb1)"
    using rbq.obtain_law [OF 1(2)] by blast
  have "length (take n (contents rb1)) = min n (length (contents rb) + min (length cs) (free_capacity rb))"
    by (simp only: 1(3) length_append length_take min.commute)
  moreover have "take n (contents rb1) @ contents rb2 = contents rb @ take (free_capacity rb) cs"
    unfolding 2(3) 1(3) [symmetric] by (rule append_take_drop_id)
  ultimately show ?thesis using 1(1) 2(1,2) by blast
qed

lemma ringbuffer_create_ok:
  assumes "mem n" "n > 0"
  shows "\<exists>rb'. ringbuffer_create mem rb n = (True, rb') \<and> rb_ok rb' \<and> contents rb' = [] \<and> free_capacity rb' = n"
  using assms by (simp add: ringbuffer_create_def rb_ok_def contents_def ringbuffer_used_size_def)

definition ex_rb :: kpr_ringbuffer where
  "ex_rb = \<lparr>rb_size = 3, free_capacity = 2, rb_buffer = Some [5, 6, 7], read_index = 2, write_index = 0\<rparr>"

theorem ringbuffer_refines_queue_witness:
  "\<exists>rb1 ys rb2. ringbuffer_push [1, 2, 3] ex_rb = Some (2, rb1) \<and> ringbuffer_obtain 2 rb1 = Some (ys, rb2)
    \<and> ys @ contents rb2 = [7, 1, 2] \<and> length ys = 2"
proof -
  have e: "rb_ok ex_rb" "contents ex_rb = [7]" "free_capacity ex_rb = 2"
    by (simp_all add: ex_rb_def rb_ok_def contents_def ringbuffer_used_size_def)
  show ?thesis using ringbuffer_refines_queue [OF e(1), of "[1, 2, 3]" 2]
    by (simp add: e(2,3) numeral_2_eq_2 del: ringbuffer_push.simps ringbuffer_obtain.simps) blast
qed

text \<open>
  \<^verbatim>\<open>kpr_ringbuffer_resize\<close> keeps the queued bytes and their order when the new size can hold
  them and memory is available, and changes nothing otherwise; both of its assertions hold.
\<close>

theorem ringbuffer_resize_spec:
  assumes "rb_ok rb" "mem (ringbuffer_used_size rb)"
  shows "\<exists>r rb'. ringbuffer_resize mem rb new_size = Some (r, rb') \<and> rb_ok rb' \<and> contents rb' = contents rb
    \<and> (r \<longleftrightarrow> length (contents rb) \<le> new_size \<and> mem new_size) \<and> rb_size rb' = (if r then new_size else rb_size rb)"
proof (cases "length (contents rb) \<le> new_size \<and> mem new_size")
  case True
  let ?n = "ringbuffer_used_size rb"
  obtain rb1 where o: "ringbuffer_obtain ?n rb = Some (contents rb, rb1)"
    using ringbuffer_obtain_ok [OF assms(1), of ?n] by auto
  define rb2 where "rb2 = rb1\<lparr>rb_buffer := Some (replicate new_size 0), read_index := 0, write_index := 0,
      rb_size := new_size, free_capacity := new_size\<rparr>"
  have "rb_ok rb2" "contents rb2 = []" "free_capacity rb2 = new_size" "rb_size rb2 = new_size"
    by (auto simp: rb2_def rb_ok_def contents_def ringbuffer_used_size_def)
  then obtain rb3 where p: "ringbuffer_push (contents rb) rb2 = Some (?n, rb3)" "rb_ok rb3"
      "contents rb3 = contents rb" "rb_size rb3 = new_size"
    using ringbuffer_push_ok [of rb2 "contents rb"] True by (auto simp: min_def)
  show ?thesis
    using True o p assms(2) by (intro exI [of _ True]) (simp add: ringbuffer_resize_def rb2_def [symmetric])
next
  case False
  then show ?thesis using assms(1) by (auto simp: ringbuffer_resize_def Let_def)
qed

theorem ringbuffer_resize_spec_witness:
  "\<exists>rb'. ringbuffer_resize (\<lambda>n. n < 100) ex_rb 5 = Some (True, rb') \<and> contents rb' = [7] \<and> rb_size rb' = 5"
proof -
  have e: "rb_ok ex_rb" "contents ex_rb = [7]" "ringbuffer_used_size ex_rb = 1"
    by (simp_all add: ex_rb_def rb_ok_def contents_def ringbuffer_used_size_def)
  show ?thesis using ringbuffer_resize_spec [OF e(1), of "\<lambda>n. n < 100" 5] by (auto simp: e(2,3))
qed

end
