(* ===== verification/Kpr_List.thy ===== *)
theory Kpr_List
  imports Por_Prelude "HOL-Library.Monad_Syntax"
begin

text \<open>
  \<^verbatim>\<open>runtime/POSIX/utils/list.c\<close>: the doubly linked list of the POSIX runtime, on an explicit heap
  of nodes, because its defects are about pointers: an access to memory that is not a live node is
  \<open>None\<close>. A pointer is a number, 0 is the null pointer. \<^verbatim>\<open>calloc\<close> is not part of these sources: it
  is the argument \<open>calloc\<close>, which picks the address of a new node.
\<close>

section \<open>Definitions\<close>

type_synonym ptr = nat

record kpr_node =
  n_prev :: ptr
  n_next :: ptr
  n_data :: ptr

type_synonym kpr_heap = "ptr \<Rightarrow> kpr_node option"

record kpr_list =
  l_tail :: ptr
  l_head :: ptr
  l_size :: nat

record kpr_list_iterator =
  i_cur :: ptr
  i_next :: ptr

type_synonym kpr_state = "kpr_list \<times> kpr_heap"

definition set_next :: "ptr \<Rightarrow> ptr \<Rightarrow> kpr_heap \<Rightarrow> kpr_heap option" where
  "set_next p q h = map_option (\<lambda>n. h(p \<mapsto> n\<lparr>n_next := q\<rparr>)) (h p)"

definition set_prev :: "ptr \<Rightarrow> ptr \<Rightarrow> kpr_heap \<Rightarrow> kpr_heap option" where
  "set_prev p q h = map_option (\<lambda>n. h(p \<mapsto> n\<lparr>n_prev := q\<rparr>)) (h p)"

definition list_create :: "kpr_list \<Rightarrow> kpr_list" where
  "list_create l = l\<lparr>l_size := 0, l_tail := 0, l_head := 0\<rparr>"

text \<open>The loop of \<^verbatim>\<open>kpr_list_clear\<close>; a well-formed list has \<^verbatim>\<open>size\<close> nodes, which is its fuel.\<close>

fun clear_loop :: "nat \<Rightarrow> ptr \<Rightarrow> kpr_heap \<Rightarrow> kpr_heap option" where
  "clear_loop fuel n h =
     (if n = 0 then Some h
      else case fuel of 0 \<Rightarrow> None
        | Suc fuel \<Rightarrow> do { nd \<leftarrow> h n; clear_loop fuel (n_next nd) (h(n := None)) })"

declare clear_loop.simps [simp del]

definition list_clear :: "kpr_state \<Rightarrow> kpr_state option" where
  "list_clear = (\<lambda>(l, h). do {
     h \<leftarrow> clear_loop (l_size l) (l_head l) h;
     Some (l\<lparr>l_head := 0, l_tail := 0, l_size := 0\<rparr>, h) })"

definition list_push :: "(kpr_heap \<Rightarrow> ptr) \<Rightarrow> ptr \<Rightarrow> kpr_state \<Rightarrow> kpr_state option" where
  "list_push calloc data = (\<lambda>(l, h).
     let new_tail = calloc h in
     if new_tail = 0 then None
     else do {
       let h = h(new_tail \<mapsto> \<lparr>n_prev = l_tail l, n_next = 0, n_data = data\<rparr>);
       (l, h) \<leftarrow> (if l_tail l \<noteq> 0 then map_option (Pair l) (set_next (l_tail l) new_tail h)
                  else Some (l\<lparr>l_head := new_tail\<rparr>, h));
       Some (l\<lparr>l_tail := new_tail, l_size := l_size l + 1\<rparr>, h) })"

definition list_pop :: "kpr_state \<Rightarrow> (ptr \<times> kpr_state) option" where
  "list_pop = (\<lambda>(l, h).
     if l_size l = 0 then Some (0, l, h)
     else do {
       let top = l_tail l;
       nd \<leftarrow> h top;
       let l = l\<lparr>l_tail := n_prev nd\<rparr>;
       (l, h) \<leftarrow> (if n_prev nd \<noteq> 0 then map_option (Pair l) (set_next top 0 h)
                  else Some (l\<lparr>l_head := 0\<rparr>, h));
       Some (n_data nd, l\<lparr>l_size := l_size l - 1\<rparr>, h(top := None)) })"

definition list_unshift :: "(kpr_heap \<Rightarrow> ptr) \<Rightarrow> ptr \<Rightarrow> kpr_state \<Rightarrow> kpr_state option" where
  "list_unshift calloc data = (\<lambda>(l, h).
     let new_head = calloc h in
     if new_head = 0 then None
     else do {
       let h = h(new_head \<mapsto> \<lparr>n_prev = 0, n_next = l_head l, n_data = data\<rparr>);
       h \<leftarrow> (if l_head l \<noteq> 0 then set_prev (l_head l) new_head h else Some h);
       Some (l\<lparr>l_head := new_head, l_size := l_size l + 1\<rparr>, h) })"

definition list_shift :: "kpr_state \<Rightarrow> (ptr \<times> kpr_state) option" where
  "list_shift = (\<lambda>(l, h).
     if l_size l = 0 then Some (0, l, h)
     else do {
       let hd = l_head l;
       nd \<leftarrow> h hd;
       let l = l\<lparr>l_head := n_next nd\<rparr>;
       (l, h) \<leftarrow> (if n_next nd \<noteq> 0 then map_option (Pair l) (set_prev (n_next nd) 0 h)
                  else Some (l\<lparr>l_tail := 0\<rparr>, h));
       Some (n_data nd, l\<lparr>l_size := l_size l - 1\<rparr>, h(hd := None)) })"

definition list_iterate :: "kpr_list \<Rightarrow> kpr_list_iterator" where
  "list_iterate l = \<lparr>i_cur = l_head l, i_next = 0\<rparr>"

definition iterator_valid :: "kpr_list_iterator \<Rightarrow> bool" where
  "iterator_valid it \<longleftrightarrow> i_cur it \<noteq> 0 \<or> i_next it \<noteq> 0"

definition iterator_next :: "kpr_list_iterator \<Rightarrow> kpr_heap \<Rightarrow> kpr_list_iterator option" where
  "iterator_next it h =
     (if i_cur it = 0 \<and> i_next it = 0 then Some it
      else if i_next it = 0 then map_option (\<lambda>n. it\<lparr>i_cur := n_next n\<rparr>) (h (i_cur it))
      else Some \<lparr>i_cur = i_next it, i_next = 0\<rparr>)"

definition iterator_value :: "kpr_list_iterator \<Rightarrow> kpr_heap \<Rightarrow> ptr option" where
  "iterator_value it h = (if i_cur it = 0 then Some 0 else map_option n_data (h (i_cur it)))"

definition list_erase :: "kpr_list_iterator \<Rightarrow> kpr_state \<Rightarrow> (kpr_list_iterator \<times> kpr_state) option" where
  "list_erase it = (\<lambda>(l, h).
     if i_cur it = 0 then Some (it, l, h)
     else do {
       let del = i_cur it;
       nd \<leftarrow> h del;
       (it, h) \<leftarrow> (if n_prev nd \<noteq> 0
          then map_option (Pair (it\<lparr>i_cur := n_prev nd\<rparr>)) (set_next (n_prev nd) (n_next nd) h)
          else Some (it\<lparr>i_cur := 0, i_next := n_next nd\<rparr>, h));
       h \<leftarrow> (if n_next nd \<noteq> 0 then set_prev (n_next nd) (n_prev nd) h else Some h);
       let l = (if l_head l = del then l\<lparr>l_head := n_next nd\<rparr> else l);
       let l = (if l_tail l = del then l\<lparr>l_tail := n_prev nd\<rparr> else l);
       Some (it, l\<lparr>l_size := l_size l - 1\<rparr>, h(del := None)) })"

text \<open>The loop of \<^verbatim>\<open>kpr_list_remove\<close> visits each of the \<^verbatim>\<open>size\<close> nodes once.\<close>

fun remove_loop :: "nat \<Rightarrow> ptr \<Rightarrow> kpr_list_iterator \<Rightarrow> kpr_state \<Rightarrow> kpr_state option" where
  "remove_loop fuel data it s =
     (if \<not> iterator_valid it then Some s
      else case fuel of 0 \<Rightarrow> None
        | Suc fuel \<Rightarrow> do {
            d \<leftarrow> iterator_value it (snd s);
            (it, s) \<leftarrow> (if data = d then list_erase it s else Some (it, s));
            it \<leftarrow> iterator_next it (snd s);
            remove_loop fuel data it s })"

declare remove_loop.simps [simp del]

definition list_remove :: "ptr \<Rightarrow> kpr_state \<Rightarrow> kpr_state option" where
  "list_remove data = (\<lambda>(l, h). remove_loop (l_size l) data (list_iterate l) (l, h))"

section \<open>Well-formed lists\<close>

text \<open>Nodes \<open>ps\<close> holding \<open>xs\<close>, linked in both directions, between the pointers \<open>pr\<close> and \<open>nx\<close>.\<close>

fun dseg :: "kpr_heap \<Rightarrow> ptr \<Rightarrow> ptr list \<Rightarrow> ptr list \<Rightarrow> ptr \<Rightarrow> bool" where
  "dseg h pr [] [] nx = True"
| "dseg h pr (p # ps) (x # xs) nx \<longleftrightarrow>
     p \<noteq> 0 \<and> h p = Some \<lparr>n_prev = pr, n_next = (if ps = [] then nx else hd ps), n_data = x\<rparr> \<and> dseg h p ps xs nx"
| "dseg h pr _ _ nx = False"

abbreviation hd0 :: "ptr list \<Rightarrow> ptr" where
  "hd0 ps \<equiv> if ps = [] then 0 else hd ps"

abbreviation last0 :: "ptr list \<Rightarrow> ptr" where
  "last0 ps \<equiv> if ps = [] then 0 else last ps"

definition list_at :: "kpr_state \<Rightarrow> ptr list \<Rightarrow> ptr list \<Rightarrow> bool" where
  "list_at = (\<lambda>(l, h) ps xs. dseg h 0 ps xs 0 \<and> distinct ps \<and> l_head l = hd0 ps \<and> l_tail l = last0 ps
     \<and> l_size l = length xs)"

lemma dseg_length: "dseg h pr ps xs nx \<Longrightarrow> length ps = length xs"
  by (induction h pr ps xs nx rule: dseg.induct) auto

lemma dseg_nonzero: "dseg h pr ps xs nx \<Longrightarrow> p \<in> set ps \<Longrightarrow> p \<noteq> 0 \<and> h p \<noteq> None"
  by (induction h pr ps xs nx rule: dseg.induct) auto

lemma dseg_upd [simp]: "p \<notin> set ps \<Longrightarrow> dseg (h(p := v)) pr ps xs nx = dseg h pr ps xs nx"
  by (induction h pr ps xs nx rule: dseg.induct) auto

lemma dseg_append:
  "length ps = length xs \<Longrightarrow> dseg h pr (ps @ qs) (xs @ ys) nx \<longleftrightarrow>
     dseg h pr ps xs (if qs = [] then nx else hd qs) \<and> dseg h (if ps = [] then pr else last ps) qs ys nx"
proof (induction ps arbitrary: xs pr)
  case (Cons p ps)
  then show ?case by (cases xs) auto
qed simp

lemma dseg_set_prev:
  assumes "dseg h pr rs ys nx" "rs \<noteq> []" "distinct rs"
  shows "\<exists>h'. set_prev (hd rs) pr' h = Some h' \<and> dseg h' pr' rs ys nx \<and> (\<forall>p. p \<noteq> hd rs \<longrightarrow> h' p = h p)"
  using assms by (cases "(h, pr, rs, ys, nx)" rule: dseg.cases) (auto simp: set_prev_def)

lemma dseg_set_next:
  assumes "dseg h pr ps xs nx" "ps \<noteq> []" "distinct ps"
  shows "\<exists>h'. set_next (last ps) nx' h = Some h' \<and> dseg h' pr ps xs nx' \<and> (\<forall>p. p \<noteq> last ps \<longrightarrow> h' p = h p)"
proof -
  obtain qs q where ps: "ps = qs @ [q]" using assms(2) by (metis rev_exhaust)
  obtain zs z where xs: "xs = zs @ [z]" using dseg_length [OF assms(1)] ps by (cases xs rule: rev_cases) auto
  have len: "length qs = length zs" using dseg_length [OF assms(1)] ps xs by simp
  show ?thesis using assms(1,3) len by (auto simp: ps xs dseg_append set_next_def)
qed

lemma dseg_cong: "(\<And>p. p \<in> set ps \<Longrightarrow> h' p = h p) \<Longrightarrow> dseg h' pr ps xs nx = dseg h pr ps xs nx"
  by (induction h pr ps xs nx rule: dseg.induct) auto

section \<open>The operations on well-formed lists\<close>

lemma list_push_ok:
  assumes "list_at (l, h) ps xs" "h (calloc h) = None" "calloc h \<noteq> 0"
  shows "\<exists>s'. list_push calloc x (l, h) = Some s' \<and> list_at s' (ps @ [calloc h]) (xs @ [x])"
proof -
  let ?a = "calloc h" and ?h = "h(calloc h \<mapsto> \<lparr>n_prev = l_tail l, n_next = 0, n_data = x\<rparr>)"
  have d: "dseg h 0 ps xs 0" "distinct ps" and l: "l_head l = hd0 ps" "l_tail l = last0 ps" "l_size l = length xs"
    using assms(1) by (auto simp: list_at_def)
  have a: "?a \<notin> set ps" using dseg_nonzero [OF d(1)] assms(2) by blast
  note len = dseg_length [OF d(1)]
  show ?thesis
  proof (cases "ps = []")
    case True
    then show ?thesis using assms(3) l len by (simp add: list_push_def list_at_def Let_def)
  next
    case False
    then have la: "last ps \<noteq> 0" "last ps \<in> set ps" using dseg_nonzero [OF d(1)] by auto
    obtain h' where h': "set_next (last ps) ?a ?h = Some h'" "dseg h' 0 ps xs ?a" "\<forall>p. p \<noteq> last ps \<longrightarrow> h' p = ?h p"
      using dseg_set_next [of ?h 0 ps xs 0 ?a] d a False by auto
    have "h' ?a = ?h ?a" using h'(3) la(2) a by metis
    then have "dseg h' 0 (ps @ [?a]) (xs @ [x]) 0"
      using h'(2) assms(3) len l(2) False by (simp add: dseg_append)
    then show ?thesis using h'(1) assms(3) l False d(2) a la(1) by (simp add: list_push_def list_at_def Let_def)
  qed
qed

lemma list_shift_ok:
  assumes "list_at (l, h) (p # ps) (x # xs)"
  shows "\<exists>s'. list_shift (l, h) = Some (x, s') \<and> list_at s' ps xs"
proof -
  have d: "dseg h p ps xs 0" "distinct ps" "p \<notin> set ps" "h p = Some \<lparr>n_prev = 0, n_next = hd0 ps, n_data = x\<rparr>"
    and l: "l_head l = p" "l_tail l = last (p # ps)" "l_size l = Suc (length xs)"
    using assms by (auto simp: list_at_def)
  show ?thesis
  proof (cases "ps = []")
    case True
    then show ?thesis using d l dseg_length [OF d(1)] by (simp add: list_shift_def list_at_def)
  next
    case False
    then have "hd ps \<noteq> 0" using dseg_nonzero [OF d(1)] by simp
    moreover obtain h' where "set_prev (hd ps) 0 h = Some h'" "dseg h' 0 ps xs 0"
      using dseg_set_prev [OF d(1) False d(2), of 0] by blast
    ultimately show ?thesis using False d l by (simp add: list_shift_def list_at_def)
  qed
qed

lemma list_erase_ok:
  assumes "list_at (l, h) (ps @ p # qs) (xs @ x # ys)" "length ps = length xs"
  shows "\<exists>s'. list_erase \<lparr>i_cur = p, i_next = 0\<rparr> (l, h) =
      Some (if ps = [] then \<lparr>i_cur = 0, i_next = hd0 qs\<rparr> else \<lparr>i_cur = last ps, i_next = 0\<rparr>, s')
    \<and> list_at s' (ps @ qs) (xs @ ys)"
proof -
  have d: "dseg h 0 ps xs p" "dseg h p qs ys 0" "distinct (ps @ p # qs)" "p \<noteq> 0"
      "h p = Some \<lparr>n_prev = last0 ps, n_next = hd0 qs, n_data = x\<rparr>"
    and l: "l_head l = hd (ps @ [p])" "l_tail l = last (p # qs)" "l_size l = Suc (length xs + length ys)"
    using assms by (auto simp: list_at_def dseg_append hd_append)
  note nz = dseg_nonzero [OF d(1)] dseg_nonzero [OF d(2)]
  obtain h1 where h1: "(if ps \<noteq> [] then set_next (last ps) (hd0 qs) h else Some h) = Some h1"
      "dseg h1 0 ps xs (hd0 qs)" "dseg h1 p qs ys 0" "h1 p = h p"
  proof (cases "ps = []")
    case False
    then obtain h1 where h1: "set_next (last ps) (hd0 qs) h = Some h1" "dseg h1 0 ps xs (hd0 qs)"
        "\<forall>p. p \<noteq> last ps \<longrightarrow> h1 p = h p"
      using dseg_set_next [OF d(1) False, of "hd0 qs"] d(3) by auto
    have "last ps \<notin> insert p (set qs)" using d(3) last_in_set [OF False] by auto
    then have "h1 q = h q" if "q \<in> insert p (set qs)" for q using h1(3) that by metis
    then have "dseg h1 p qs ys 0" "h1 p = h p" using d(2) dseg_cong [of qs h1 h p ys 0] by simp_all
    then show ?thesis using that [of h1] h1 False by simp
  next
    case True
    then show ?thesis using that [of h] d dseg_length [OF d(1)] by simp
  qed
  obtain h2 where h2: "(if qs \<noteq> [] then set_prev (hd qs) (last0 ps) h1 else Some h1) = Some h2"
      "dseg h2 0 ps xs (hd0 qs)" "dseg h2 (last0 ps) qs ys 0"
  proof (cases "qs = []")
    case False
    obtain h2 where h2: "set_prev (hd qs) (last0 ps) h1 = Some h2" "dseg h2 (last0 ps) qs ys 0"
        "\<forall>p. p \<noteq> hd qs \<longrightarrow> h2 p = h1 p"
      using dseg_set_prev [OF h1(3) False, of "last0 ps"] d(3) by auto
    have "hd qs \<notin> set ps" using d(3) hd_in_set [OF False] by auto
    then have "dseg h2 0 ps xs (hd0 qs)" using h1(2) h2(3) dseg_cong [of ps h2 h1 0 xs "hd0 qs"] by metis
    then show ?thesis using that [of h2] h2 False by simp
  next
    case True
    then show ?thesis using that [of h1] h1(2) dseg_length [OF d(2)] by simp
  qed
  have "dseg (h2(p := None)) 0 (ps @ qs) (xs @ ys) 0"
    using h2(2,3) d(3) assms(2) by (auto simp: dseg_append)
  moreover have "last ps \<noteq> 0" if "ps \<noteq> []" using nz that by simp
  moreover have "hd qs \<noteq> 0" if "qs \<noteq> []" using nz that by simp
  moreover have "hd ps \<noteq> p" if "ps \<noteq> []" using d(3) hd_in_set [OF that] by auto
  moreover have "last qs \<noteq> p" if "qs \<noteq> []" using d(3) last_in_set [OF that] by auto
  ultimately show ?thesis
    using d l h1(1) h2(1)
    by (cases "ps = []"; cases "qs = []")
       (auto simp: list_erase_def list_at_def dseg_length [OF d(2), symmetric])
qed

lemma remove_loop_ok:
  assumes "list_at s (ps @ qs) (xs @ ys)" "length ps = length xs" "d \<notin> set xs"
  shows "\<exists>s' rs. remove_loop (length ys) d \<lparr>i_cur = hd0 qs, i_next = 0\<rparr> s = Some s'
    \<and> list_at s' rs (xs @ filter (\<lambda>y. y \<noteq> d) ys)"
  using assms
proof (induction ys arbitrary: s ps qs xs)
  case Nil
  then have "qs = []" using dseg_length by (cases s) (fastforce simp: list_at_def)
  then show ?case using Nil.prems by (subst remove_loop.simps) (auto simp: iterator_valid_def)
next
  case (Cons y ys)
  obtain l h where s: "s = (l, h)" by (cases s)
  have len: "length (ps @ qs) = length (xs @ y # ys)" using Cons.prems(1) dseg_length [of h 0 "ps @ qs" "xs @ y # ys" 0] by (simp add: list_at_def s)
  then obtain q qs' where q: "qs = q # qs'" using Cons.prems(2) by (cases qs) auto
  have dq: "dseg h (last0 ps) (q # qs') (y # ys) 0"
    using Cons.prems(1,2) by (auto simp: list_at_def s q dseg_append)
  then have hq: "q \<noteq> 0" "h q = Some \<lparr>n_prev = last0 ps, n_next = hd0 qs', n_data = y\<rparr>" by auto
  show ?case
  proof (cases "y = d")
    case False
    then have "iterator_next \<lparr>i_cur = q, i_next = 0\<rparr> h = Some \<lparr>i_cur = hd0 qs', i_next = 0\<rparr>"
      using hq by (simp add: iterator_next_def)
    then show ?thesis
      using Cons.IH [of s "ps @ [q]" qs' "xs @ [y]"] Cons.prems hq False
      by (subst remove_loop.simps) (auto simp: iterator_valid_def iterator_value_def s q)
  next
    case True
    obtain s' where e: "list_erase \<lparr>i_cur = q, i_next = 0\<rparr> (l, h) =
        Some (if ps = [] then \<lparr>i_cur = 0, i_next = hd0 qs'\<rparr> else \<lparr>i_cur = last ps, i_next = 0\<rparr>, s')"
        "list_at s' (ps @ qs') (xs @ ys)"
      using list_erase_ok [of l h ps q qs' xs y ys] Cons.prems(1,2) s q by auto
    have "iterator_next (if ps = [] then \<lparr>i_cur = 0, i_next = hd0 qs'\<rparr> else \<lparr>i_cur = last ps, i_next = 0\<rparr>) (snd s')
        = Some \<lparr>i_cur = hd0 qs', i_next = 0\<rparr>"
    proof (cases "ps = []")
      case False
      have "dseg (snd s') 0 ps xs (hd0 qs')" using e(2) Cons.prems(2) by (cases s') (auto simp: list_at_def dseg_append)
      then obtain n where "snd s' (last ps) = Some n" "n_next n = hd0 qs'" "last ps \<noteq> 0"
        using False Cons.prems(2)
        by (cases ps rule: rev_cases; cases xs rule: rev_cases) (auto simp: dseg_append)
      then show ?thesis using False by (simp add: iterator_next_def)
    qed (auto simp: iterator_next_def)
    then show ?thesis
      using Cons.IH [OF e(2) Cons.prems(2,3)] e(1) hq True
      by (subst remove_loop.simps) (simp add: iterator_valid_def iterator_value_def s q)
  qed
qed

lemma clear_loop_ok:
  "dseg h pr ps xs 0 \<Longrightarrow> distinct ps \<Longrightarrow> \<exists>h'. clear_loop (length xs) (hd0 ps) h = Some h'"
proof (induction ps arbitrary: xs h pr)
  case Nil
  then show ?case by (subst clear_loop.simps) simp
next
  case (Cons p ps)
  then obtain x ys where xs: "xs = x # ys" by (cases xs) auto
  have d: "p \<noteq> 0" "h p = Some \<lparr>n_prev = pr, n_next = hd0 ps, n_data = x\<rparr>" "dseg h p ps ys 0" "p \<notin> set ps"
    using Cons.prems by (simp_all add: xs)
  then have "dseg (h(p := None)) p ps ys 0" by simp
  then obtain h' where "clear_loop (length ys) (hd0 ps) (h(p := None)) = Some h'"
    using Cons.IH Cons.prems(2) by (meson distinct.simps(2))
  then show ?case using d(1,2) by (subst clear_loop.simps) (simp add: xs)
qed

lemma list_clear_ok: "list_at s ps xs \<Longrightarrow> \<exists>s'. list_clear s = Some s' \<and> list_at s' [] []"
  using clear_loop_ok [of "snd s" 0 ps xs] by (cases s) (auto simp: list_clear_def list_at_def)

section \<open>Memory\<close>

text \<open>No operation but \<^verbatim>\<open>kpr_list_push\<close> and \<^verbatim>\<open>kpr_list_unshift\<close> uses new memory.\<close>

lemma list_push_dom: "list_push calloc x (l, h) = Some (l', h') \<Longrightarrow> dom h' = insert (calloc h) (dom h)"
  by (auto simp: list_push_def Let_def Option.bind_eq_Some_conv set_next_def set_prev_def split: if_split_asm)

lemma list_shift_dom: "list_shift (l, h) = Some (x, l', h') \<Longrightarrow> dom h' \<subseteq> dom h"
  by (auto simp: list_shift_def Let_def Option.bind_eq_Some_conv set_next_def set_prev_def split: if_split_asm)

lemma list_erase_dom: "list_erase it (l, h) = Some (it', l', h') \<Longrightarrow> dom h' \<subseteq> dom h"
  by (auto simp: list_erase_def Let_def Option.bind_eq_Some_conv set_next_def set_prev_def split: if_split_asm)

lemma remove_loop_dom: "remove_loop fuel d it s = Some s' \<Longrightarrow> dom (snd s') \<subseteq> dom (snd s)"
proof (induction fuel arbitrary: it s)
  case 0
  then show ?case by (auto simp: remove_loop.simps [of 0] split: if_split_asm)
next
  case (Suc fuel)
  show ?case
  proof (cases "iterator_valid it")
    case True
    then obtain v it1 s1 it2 where "(if d = v then list_erase it s else Some (it, s)) = Some (it1, s1)"
        "remove_loop fuel d it2 s1 = Some s'"
      using Suc.prems by (subst (asm) remove_loop.simps) (auto split: bind_splits)
    moreover from this(1) have "dom (snd s1) \<subseteq> dom (snd s)"
      using list_erase_dom [of it "fst s" "snd s" it1 "fst s1" "snd s1"] by (auto split: if_split_asm)
    ultimately show ?thesis using Suc.IH by blast
  next
    case False
    then show ?thesis using Suc.prems by (subst (asm) remove_loop.simps) simp
  qed
qed

lemma clear_loop_dom: "clear_loop fuel n h = Some h' \<Longrightarrow> dom h' \<subseteq> dom h"
proof (induction fuel arbitrary: n h)
  case 0
  then show ?case by (auto simp: clear_loop.simps [of 0] split: if_split_asm)
next
  case (Suc fuel)
  show ?case
  proof (cases "n = 0")
    case False
    then obtain m where "clear_loop fuel m (h(n := None)) = Some h'"
      using Suc.prems clear_loop.simps [of "Suc fuel" n h] by (auto split: bind_splits)
    then show ?thesis using Suc.IH by fastforce
  qed (use Suc.prems clear_loop.simps [of "Suc fuel" n h] in simp)
qed

text \<open>The law of \<^verbatim>\<open>calloc\<close> on a memory of \<open>M\<close> nodes: as long as not all are in use, it returns one that is not.\<close>

definition allocates :: "nat \<Rightarrow> (kpr_heap \<Rightarrow> ptr) \<Rightarrow> bool" where
  "allocates M calloc \<longleftrightarrow> (\<forall>h. finite (dom h) \<and> card (dom h) < M \<longrightarrow> calloc h \<noteq> 0 \<and> h (calloc h) = None)"

section \<open>Sequences of operations\<close>

datatype list_op = Push ptr | Shift | Remove ptr | Clear

text \<open>One call, with the value it returns.\<close>

fun list_call :: "(kpr_heap \<Rightarrow> ptr) \<Rightarrow> list_op \<Rightarrow> kpr_state \<Rightarrow> (ptr list \<times> kpr_state) option" where
  "list_call calloc (Push x) s = map_option (Pair []) (list_push calloc x s)"
| "list_call calloc Shift s = map_option (\<lambda>(x, s). ([x], s)) (list_shift s)"
| "list_call calloc (Remove x) s = map_option (Pair []) (list_remove x s)"
| "list_call calloc Clear s = map_option (Pair []) (list_clear s)"

fun list_calls :: "(kpr_heap \<Rightarrow> ptr) \<Rightarrow> list_op list \<Rightarrow> kpr_state \<Rightarrow> (ptr list \<times> kpr_state) option" where
  "list_calls calloc [] s = Some ([], s)"
| "list_calls calloc (c # cs) s = do {
     (ys, s) \<leftarrow> list_call calloc c s;
     (zs, s) \<leftarrow> list_calls calloc cs s;
     Some (ys @ zs, s) }"

text \<open>The specification: a queue of values. Shifting the empty queue returns a null pointer.\<close>

fun queue_call :: "list_op \<Rightarrow> ptr list \<Rightarrow> ptr list \<times> ptr list" where
  "queue_call (Push x) xs = ([], xs @ [x])"
| "queue_call Shift [] = ([0], [])"
| "queue_call Shift (x # xs) = ([x], xs)"
| "queue_call (Remove d) xs = ([], filter (\<lambda>x. x \<noteq> d) xs)"
| "queue_call Clear xs = ([], [])"

fun queue_calls :: "list_op list \<Rightarrow> ptr list \<Rightarrow> ptr list \<times> ptr list" where
  "queue_calls [] xs = ([], xs)"
| "queue_calls (c # cs) xs = (let (ys, xs) = queue_call c xs; (zs, xs) = queue_calls cs xs in (ys @ zs, xs))"

definition pushes :: "list_op list \<Rightarrow> nat" where
  "pushes cs = length (filter (\<lambda>c. \<exists>x. c = Push x) cs)"

lemma list_remove_ok: "list_at s ps xs \<Longrightarrow> \<exists>s' rs. list_remove d s = Some s' \<and> list_at s' rs (filter (\<lambda>x. x \<noteq> d) xs)"
  using remove_loop_ok [of s "[]" ps "[]" xs d]
  by (cases s) (auto simp: list_remove_def list_iterate_def list_at_def)

lemma list_call_ok:
  assumes "list_at s ps xs" "finite (dom (snd s))" "allocates M calloc" "card (dom (snd s)) + pushes [c] \<le> M"
  shows "\<exists>s' qs. list_call calloc c s = Some (fst (queue_call c xs), s') \<and> list_at s' qs (snd (queue_call c xs))
    \<and> finite (dom (snd s')) \<and> card (dom (snd s')) \<le> card (dom (snd s)) + pushes [c]"
proof -
  have sub: "finite (dom (snd s')) \<and> card (dom (snd s')) \<le> card (dom (snd s)) + pushes [c]" if "dom (snd s') \<subseteq> dom (snd s)" for s' :: kpr_state
    using that assms(2) finite_subset card_mono by (metis le_add1 le_trans)
  obtain l h where s: "s = (l, h)" by (cases s)
  show ?thesis
  proof (cases c)
    case (Push x)
    have a: "calloc h \<noteq> 0" "h (calloc h) = None" using assms(2-4) by (auto simp: allocates_def s Push pushes_def)
    obtain s' where s': "list_push calloc x (l, h) = Some s'" "list_at s' (ps @ [calloc h]) (xs @ [x])"
      using list_push_ok [of l h ps xs calloc x] assms(1) a by (auto simp: s)
    have "dom (snd s') = insert (calloc h) (dom h)" using list_push_dom s'(1) by (metis prod.collapse)
    then show ?thesis using s' assms(2) a(2) by (auto simp: s Push pushes_def domIff)
  next
    case Shift
    show ?thesis
    proof (cases xs)
      case Nil
      then have "list_shift s = Some (0, s)" using assms(1) by (simp add: s list_at_def list_shift_def)
      then show ?thesis using sub [of s] assms(1) Nil Shift by auto
    next
      case (Cons x ys)
      then obtain p qs where ps: "ps = p # qs" using assms(1) dseg_length by (cases ps) (fastforce simp: s list_at_def)+
      obtain s' where s': "list_shift s = Some (x, s')" "list_at s' qs ys"
        using list_shift_ok assms(1) unfolding s ps Cons by blast
      have "dom (snd s') \<subseteq> dom (snd s)" using list_shift_dom s'(1) s by (metis prod.collapse)
      then show ?thesis using sub [of s'] s' Cons Shift by auto
    qed
  next
    case (Remove d)
    obtain s' rs where s': "list_remove d s = Some s'" "list_at s' rs (filter (\<lambda>x. x \<noteq> d) xs)" using list_remove_ok [OF assms(1)] by blast
    then have "dom (snd s') \<subseteq> dom (snd s)" using remove_loop_dom by (fastforce simp: list_remove_def s)
    then show ?thesis using sub [of s'] s' Remove by auto
  next
    case Clear
    obtain s' where s': "list_clear s = Some s'" "list_at s' [] []" using list_clear_ok [OF assms(1)] by blast
    then have "dom (snd s') \<subseteq> dom (snd s)" using clear_loop_dom by (fastforce simp: list_clear_def s split: bind_splits)
    then show ?thesis using sub [of s'] s' Clear by auto
  qed
qed

lemma list_calls_ok:
  assumes "list_at s ps xs" "finite (dom (snd s))" "allocates M calloc" "card (dom (snd s)) + pushes cs \<le> M"
  shows "\<exists>s' qs. list_calls calloc cs s = Some (fst (queue_calls cs xs), s') \<and> list_at s' qs (snd (queue_calls cs xs))"
  using assms
proof (induction cs arbitrary: s ps xs)
  case Nil
  then show ?case by auto
next
  case (Cons c cs)
  have p: "pushes (c # cs) = pushes [c] + pushes cs" by (simp add: pushes_def)
  then have "card (dom (snd s)) + pushes [c] \<le> M" using Cons.prems(4) by simp
  then obtain s1 qs where s1: "list_call calloc c s = Some (fst (queue_call c xs), s1)" "list_at s1 qs (snd (queue_call c xs))"
      "finite (dom (snd s1))" "card (dom (snd s1)) \<le> card (dom (snd s)) + pushes [c]"
    using list_call_ok [OF Cons.prems(1-3)] by blast
  then have "card (dom (snd s1)) + pushes cs \<le> M" using Cons.prems(4) p by simp
  then obtain s2 rs where "list_calls calloc cs s1 = Some (fst (queue_calls cs (snd (queue_call c xs))), s2)"
      "list_at s2 rs (snd (queue_calls cs (snd (queue_call c xs))))"
    using Cons.IH [OF s1(2,3) Cons.prems(3)] by blast
  then show ?case using s1(1) by (auto simp: case_prod_unfold Let_def)
qed

section \<open>Properties\<close>

text \<open>
  C27. The list is a FIFO queue on the heap. Every sequence of \<^verbatim>\<open>kpr_list_push\<close>, \<^verbatim>\<open>kpr_list_shift\<close>,
  \<^verbatim>\<open>kpr_list_remove\<close> and \<^verbatim>\<open>kpr_list_clear\<close>, from any well-formed list, empty or not, and through empty lists,
  returns what the queue returns (a null pointer for shifting the empty queue) and leaves a list with the elements of the queue
  whose links are consistent in both directions. No access goes to a null pointer or a freed node, as long as there is memory for all pushes.
  \<^verbatim>\<open>kpr_list_create\<close> makes the empty list.
\<close>

theorem list_refines_queue:
  assumes "allocates M calloc" "finite (dom h)" "card (dom h) + pushes cs \<le> M"
  shows "list_at (list_create l, h) [] []
    \<and> (\<forall>ps xs. list_at (l, h) ps xs \<longrightarrow>
        (\<exists>s' qs. list_calls calloc cs (l, h) = Some (fst (queue_calls cs xs), s') \<and> list_at s' qs (snd (queue_calls cs xs))))"
proof -
  have "list_at (list_create l, h) [] []" by (simp add: list_at_def list_create_def)
  then show ?thesis using list_calls_ok [of "(l, h)" _ _ M calloc cs] assms by simp
qed

text \<open>Nodes at the addresses 1, 2 and so on; memory of 63 nodes.\<close>

definition ex_calloc :: "kpr_heap \<Rightarrow> ptr" where
  "ex_calloc h = (case find (\<lambda>p. h p = None) [1..<64] of None \<Rightarrow> 0 | Some p \<Rightarrow> p)"

lemma ex_calloc_allocates: "allocates 63 ex_calloc"
proof -
  have "ex_calloc h \<noteq> 0 \<and> h (ex_calloc h) = None" if "finite (dom h)" "card (dom h) < 63" for h
  proof (cases "find (\<lambda>p. h p = None) [1..<64]")
    case None
    then have "{1..<64} \<subseteq> dom h" by (auto simp: find_None_iff)
    then have "card {1..<64 :: nat} \<le> card (dom h)" using that(1) by (rule card_mono [rotated])
    then show ?thesis using that(2) by simp
  next
    case (Some p)
    then have "h p = None" "p \<in> set [1..<64]" unfolding find_Some_iff by (metis nth_mem)+
    then show ?thesis using Some by (auto simp: ex_calloc_def)
  qed
  then show ?thesis by (simp add: allocates_def)
qed

definition ex_one :: kpr_state where
  "ex_one = (\<lparr>l_tail = 1, l_head = 1, l_size = 1\<rparr>, [1 \<mapsto> \<lparr>n_prev = 0, n_next = 0, n_data = 7\<rparr>])"

theorem list_refines_queue_witness:
  "\<exists>s qs. list_calls ex_calloc [Shift, Shift, Push 8, Push 9, Shift, Remove 9, Push 5] ex_one = Some ([7, 0, 8], s) \<and> list_at s qs [5]"
proof -
  have "list_at ex_one [1] [7]" by (simp add: ex_one_def list_at_def)
  then show ?thesis
    using list_refines_queue [OF ex_calloc_allocates, of "snd ex_one" "[Shift, Shift, Push 8, Push 9, Shift, Remove 9, Push 5]" "fst ex_one",
        THEN conjunct2, rule_format, of "[1]" "[7]"]
    by (simp add: ex_one_def pushes_def)
qed



lemma allocates_fresh: "allocates M calloc \<Longrightarrow> finite (dom h) \<Longrightarrow> card (dom h) < M \<Longrightarrow> calloc h \<noteq> 0 \<and> h (calloc h) = None"
  by (simp add: allocates_def)

lemma unshift_push_loses:
  assumes "allocates M calloc" "list_at (l, h) [] []" "finite (dom h)" "card (dom h) + 2 \<le> M"
  shows "\<exists>l' h'. Option.bind (list_unshift calloc x (l, h)) (list_push calloc y) = Some (l', h') \<and> l_size l' = 2
    \<and> l_head l' = l_tail l' \<and> h' (l_head l') = Some \<lparr>n_prev = 0, n_next = 0, n_data = y\<rparr>"
proof -
  let ?h = "h(calloc h \<mapsto> \<lparr>n_prev = 0, n_next = 0, n_data = x\<rparr>)"
  have l: "l_head l = 0" "l_tail l = 0" "l_size l = 0" using assms(2) by (simp_all add: list_at_def)
  have a: "calloc h \<noteq> 0" "h (calloc h) = None" using allocates_fresh [OF assms(1,3)] assms(4) by auto
  then have "card (dom ?h) < M" using assms(3,4) by (simp add: domIff)
  then have "calloc ?h \<noteq> 0" using allocates_fresh [OF assms(1), of ?h] assms(3) by simp
  then show ?thesis using a l by (simp add: list_unshift_def list_push_def Let_def numeral_2_eq_2)
qed

lemma pop_dangling:
  assumes "list_at (l, h) (ps @ [p, q]) (xs @ [a, b])"
  shows "\<exists>l' h' it. list_pop (l, h) = Some (b, l', h') \<and> l_tail l' = p \<and> iterator_next \<lparr>i_cur = p, i_next = 0\<rparr> h' = Some it
    \<and> iterator_valid it \<and> iterator_value it h' = None \<and> (ps = [] \<longrightarrow> list_shift (l', h') = None)"
proof -
  have d: "dseg h 0 (ps @ [p, q]) (xs @ [a, b]) 0" "distinct (ps @ [p, q])"
    and l: "l_head l = hd (ps @ [p, q])" "l_tail l = q" "l_size l = length xs + 2"
    using assms by (auto simp: list_at_def)
  have "length ps = length xs" using dseg_length [OF d(1)] by simp
  then have n: "p \<noteq> 0" "q \<noteq> 0" "h p = Some \<lparr>n_prev = last0 ps, n_next = q, n_data = a\<rparr>" "h q = Some \<lparr>n_prev = p, n_next = 0, n_data = b\<rparr>"
    using d(1) by (auto simp: dseg_append)
  have pq: "p \<noteq> q" using d(2) by auto
  let ?l = "l\<lparr>l_tail := p, l_size := l_size l - 1\<rparr>" and ?h = "h(q := None)"
  have "list_pop (l, h) = Some (b, ?l, ?h)" using n l by (simp add: list_pop_def set_next_def)
  moreover have "list_shift (?l, ?h) = None" if "ps = []" using that n l pq by (simp add: list_shift_def set_prev_def)
  ultimately show ?thesis using n pq by (auto simp: iterator_next_def iterator_valid_def iterator_value_def)
qed

text \<open>
  C40. Two defects, in every empty list and in every list of two or more elements. \<^verbatim>\<open>kpr_list_unshift\<close> into an
  empty list does not set the tail, so that a following \<^verbatim>\<open>kpr_list_push\<close> makes its node the head and the only node, and the
  first element is lost although \<^verbatim>\<open>size\<close> counts it. \<^verbatim>\<open>kpr_list_pop\<close> clears the link of the node it frees instead of
  the one before it: an iterator on the new last node goes on to a position that it takes for valid and that is
  freed memory; if one element is left, shifting it writes to the freed node.
\<close>

theorem list_unshift_pop_defects:
  assumes "allocates M calloc" "finite (dom h)" "card (dom h) + 2 \<le> M"
  shows "(list_at (l, h) [] [] \<longrightarrow>
      (\<exists>l' h'. Option.bind (list_unshift calloc x (l, h)) (list_push calloc y) = Some (l', h') \<and> l_size l' = 2
        \<and> l_head l' = l_tail l' \<and> h' (l_head l') = Some \<lparr>n_prev = 0, n_next = 0, n_data = y\<rparr>))
    \<and> (\<forall>ps p q xs a b. list_at (l, h) (ps @ [p, q]) (xs @ [a, b]) \<longrightarrow>
      (\<exists>l' h' it. list_pop (l, h) = Some (b, l', h') \<and> l_tail l' = p \<and> iterator_next \<lparr>i_cur = p, i_next = 0\<rparr> h' = Some it
        \<and> iterator_valid it \<and> iterator_value it h' = None \<and> (ps = [] \<longrightarrow> list_shift (l', h') = None)))"
  using unshift_push_loses [OF assms(1) _ assms(2,3)] pop_dangling by simp

theorem list_unshift_pop_defects_witness:
  "(\<exists>l' h'. Option.bind (list_unshift ex_calloc 5 (\<lparr>l_tail = 0, l_head = 0, l_size = 0\<rparr>, Map.empty)) (list_push ex_calloc 6) = Some (l', h')
      \<and> l_size l' = 2 \<and> h' (l_head l') = Some \<lparr>n_prev = 0, n_next = 0, n_data = 6\<rparr>)
    \<and> (\<exists>l' h'. list_pop (\<lparr>l_tail = 2, l_head = 1, l_size = 2\<rparr>, [1 \<mapsto> \<lparr>n_prev = 0, n_next = 2, n_data = 7\<rparr>, 2 \<mapsto> \<lparr>n_prev = 1, n_next = 0, n_data = 8\<rparr>])
        = Some (8, l', h') \<and> list_shift (l', h') = None)"
proof
  let ?l = "\<lparr>l_tail = 0, l_head = 0, l_size = 0\<rparr>"
  have "list_at (?l, Map.empty) [] []" by (simp add: list_at_def)
  then show "\<exists>l' h'. Option.bind (list_unshift ex_calloc 5 (?l, Map.empty)) (list_push ex_calloc 6) = Some (l', h')
      \<and> l_size l' = 2 \<and> h' (l_head l') = Some \<lparr>n_prev = 0, n_next = 0, n_data = 6\<rparr>"
    using list_unshift_pop_defects [OF ex_calloc_allocates, of Map.empty ?l 5 6] by auto
  let ?l = "\<lparr>l_tail = 2, l_head = 1, l_size = 2\<rparr>"
  let ?h = "[1 \<mapsto> \<lparr>n_prev = 0, n_next = 2, n_data = 7\<rparr>, 2 \<mapsto> \<lparr>n_prev = 1, n_next = 0, n_data = 8\<rparr>] :: kpr_heap"
  have "list_at (?l, ?h) ([] @ [1, 2]) ([] @ [7, 8])" by (simp add: list_at_def)
  then have "\<exists>l' h' it. list_pop (?l, ?h) = Some (8, l', h') \<and> l_tail l' = 1 \<and> iterator_next \<lparr>i_cur = 1, i_next = 0\<rparr> h' = Some it
      \<and> iterator_valid it \<and> iterator_value it h' = None \<and> (([] :: ptr list) = [] \<longrightarrow> list_shift (l', h') = None)"
    by (rule list_unshift_pop_defects [OF ex_calloc_allocates _ _, of ?h ?l, THEN conjunct2, rule_format, rotated 2]) simp_all
  then show "\<exists>l' h'. list_pop (?l, ?h) = Some (8, l', h') \<and> list_shift (l', h') = None" by blast
qed

end
