(* ===== verification/Pthread_Mutex.thy ===== *)
theory Pthread_Mutex
  imports Por_Prelude
begin

text \<open>
  \<^verbatim>\<open>runtime/POSIX/pthread/mutex.c\<close> with the mutex attributes and the initialisation check of
  \<^verbatim>\<open>misc/internal.c\<close>: pthread mutexes on top of the lock and condition-variable primitives of the
  executor.

  Every function accesses the fields of a mutex while it holds \<^verbatim>\<open>mutex->lock\<close>, so its code between
  acquiring that lock and releasing it, or waiting on \<^verbatim>\<open>mutex->cond\<close>, is one step: a function from the
  fields to an outcome. The step relation then interleaves the steps of all threads. The two
  primitives have their usual meaning there: a lock has at most one owner, a wait releases it, and a
  signal wakes one waiting thread, which takes the lock again before it goes on.
\<close>

section \<open>Objects\<close>

datatype init_pattern = KPR_OTHER_INIT | KPR_RANDOM_INIT | KPR_ZERO_INIT | KPR_INVALID
datatype mutex_type = PTHREAD_MUTEX_NORMAL | PTHREAD_MUTEX_RECURSIVE | PTHREAD_MUTEX_ERRORCHECK
datatype mutex_robust = PTHREAD_MUTEX_STALLED | PTHREAD_MUTEX_ROBUST
datatype robust_state = KPR_MUTEX_NORMAL | KPR_MUTEX_INCONSISTENT | KPR_MUTEX_UNUSABLE
datatype trylock_mode = KPR_TRYLOCK_UNKNOWN | KPR_TRYLOCK_ENABLED | KPR_TRYLOCK_DISABLED

type_synonym pthread = nat

record mutexattr =
  a_type :: mutex_type
  a_robust :: mutex_robust
  a_trylock :: trylock_mode

record mutex =
  m_init :: init_pattern
  m_type :: mutex_type
  m_robust :: mutex_robust
  m_acquired :: nat
  m_holder :: "pthread option"
  m_robust_state :: robust_state
  m_trylock :: trylock_mode

datatype err = Ok | EPERM | EBUSY | EINVAL | EDEADLOCK | EOWNERDEAD

text \<open>
  How a step ends: the function returns, with the lock released or (for a basic mutex) kept; the
  thread waits on the condition variable; \<^verbatim>\<open>klee_report_error\<close> ends the path; the thread blocks
  itself for ever; an assertion fails; the behaviour is undefined, because the signed counter overflows.
\<close>

datatype outcome = Return err mutex | Return_Locked err mutex | Wait mutex | Report | Stuck mutex | Assert_Failed | Undefined

text \<open>The counter \<^verbatim>\<open>acquired\<close> is an \<^verbatim>\<open>int\<close> that never becomes negative: it is a number up to the maximum.\<close>

definition INT_MAX :: nat where
  "INT_MAX = 2 ^ 31 - 1"

section \<open>Initialisation\<close>

text \<open>
  \<^verbatim>\<open>pthread_mutexattr_init\<close> assigns \<^verbatim>\<open>type\<close> three times, the last time with
  \<^verbatim>\<open>PTHREAD_PROCESS_PRIVATE\<close>, which has the value of \<^verbatim>\<open>PTHREAD_MUTEX_NORMAL\<close>; \<^verbatim>\<open>robust\<close> keeps what the
  memory held before.
\<close>

definition mutexattr_init :: "mutexattr \<Rightarrow> mutexattr" where
  "mutexattr_init a = a\<lparr>a_type := PTHREAD_MUTEX_NORMAL, a_trylock := KPR_TRYLOCK_UNKNOWN\<rparr>"

text \<open>\<^verbatim>\<open>kpr_check_if_valid\<close>: a zero-initialised object is accepted and marked as initialised.\<close>

definition check_if_valid :: "mutex \<Rightarrow> mutex option" where
  "check_if_valid m =
     (case m_init m of
        KPR_INVALID \<Rightarrow> None
      | KPR_RANDOM_INIT \<Rightarrow> None
      | KPR_ZERO_INIT \<Rightarrow> Some (m\<lparr>m_init := KPR_OTHER_INIT\<rparr>)
      | KPR_OTHER_INIT \<Rightarrow> Some m)"

definition mutex_init :: "mutex \<Rightarrow> mutexattr option \<Rightarrow> outcome" where
  "mutex_init m attr =
     (if m_init m = KPR_OTHER_INIT then Report
      else
        let m = m\<lparr>m_init := KPR_OTHER_INIT, m_acquired := 0, m_holder := None,
                  m_type := PTHREAD_MUTEX_NORMAL, m_robust := PTHREAD_MUTEX_STALLED,
                  m_robust_state := KPR_MUTEX_NORMAL, m_trylock := KPR_TRYLOCK_UNKNOWN\<rparr>;
            m = (case attr of None \<Rightarrow> m
                 | Some a \<Rightarrow> m\<lparr>m_type := a_type a, m_robust := a_robust a, m_trylock := a_trylock a\<rparr>)
        in Return Ok m)"

text \<open>
  \<^verbatim>\<open>pthread_mutex_destroy\<close> also fills the other fields with the byte \<^verbatim>\<open>0xAB\<close>. They keep their values here: no
  function reads them before \<^verbatim>\<open>pthread_mutex_init\<close> has set all of them.
\<close>

definition mutex_destroy :: "mutex \<Rightarrow> outcome" where
  "mutex_destroy m =
     (case check_if_valid m of None \<Rightarrow> Report
      | Some m \<Rightarrow> if m_acquired m \<ge> 1 then Return EBUSY m else Return Ok (m\<lparr>m_init := KPR_RANDOM_INIT\<rparr>))"

section \<open>Locking\<close>

definition kpr_mutex_default :: "mutex \<Rightarrow> bool" where
  "kpr_mutex_default m \<longleftrightarrow>
     (let trylock_support = (if m_trylock m = KPR_TRYLOCK_UNKNOWN then KPR_TRYLOCK_DISABLED else m_trylock m) in
      m_type m = PTHREAD_MUTEX_NORMAL \<and> m_robust m = PTHREAD_MUTEX_STALLED \<and> trylock_support = KPR_TRYLOCK_DISABLED)"

definition take_mutex :: "pthread \<Rightarrow> mutex \<Rightarrow> mutex" where
  "take_mutex self m = m\<lparr>m_acquired := 1, m_holder := Some self\<rparr>"

text \<open>
  The body of the loop in \<^verbatim>\<open>pthread_mutex_lock_internal\<close> up to the wait, and the test after it. After
  a wait that leaves the mutex taken, the loop starts again. \<open>dead\<close> are the threads that have exited.
\<close>

definition lock_contended :: "pthread set \<Rightarrow> pthread \<Rightarrow> bool \<Rightarrow> mutex \<Rightarrow> outcome" where
  "lock_contended dead self may_block m =
     (if m_robust m = PTHREAD_MUTEX_ROBUST \<and> m_robust_state m = KPR_MUTEX_UNUSABLE then Return EINVAL m
      else if m_robust m = PTHREAD_MUTEX_ROBUST \<and> m_holder m = None then Assert_Failed
      else if m_robust m = PTHREAD_MUTEX_ROBUST \<and> the (m_holder m) \<in> dead
        then Return EOWNERDEAD (take_mutex self (m\<lparr>m_robust_state := KPR_MUTEX_INCONSISTENT\<rparr>))
      else if \<not> may_block then Return EBUSY m
      else Wait m)"

definition lock_resume :: "pthread set \<Rightarrow> pthread \<Rightarrow> mutex \<Rightarrow> outcome" where
  "lock_resume dead self m =
     (if m_acquired m = 0 then Return Ok (take_mutex self m) else lock_contended dead self True m)"

definition lock_internal :: "pthread set \<Rightarrow> pthread \<Rightarrow> bool \<Rightarrow> mutex \<Rightarrow> outcome" where
  "lock_internal dead self may_block m =
     (if m_robust m = PTHREAD_MUTEX_ROBUST \<and> m_robust_state m = KPR_MUTEX_UNUSABLE then Return EINVAL m
      else if m_acquired m = 0 then Return Ok (take_mutex self m)
      else if m_holder m = None then Assert_Failed
      else if m_holder m = Some self then
        (case m_type m of
           PTHREAD_MUTEX_ERRORCHECK \<Rightarrow> Return EDEADLOCK m
         | PTHREAD_MUTEX_RECURSIVE \<Rightarrow>
             if m_acquired m = INT_MAX then Undefined else Return Ok (m\<lparr>m_acquired := m_acquired m + 1\<rparr>)
         | PTHREAD_MUTEX_NORMAL \<Rightarrow> Stuck m)
      else lock_contended dead self may_block m)"

definition mutex_lock :: "pthread set \<Rightarrow> pthread \<Rightarrow> mutex \<Rightarrow> outcome" where
  "mutex_lock dead self m =
     (case check_if_valid m of None \<Rightarrow> Report
      | Some m \<Rightarrow>
          if kpr_mutex_default m then Return_Locked Ok (take_mutex self m)
          else lock_internal dead self True m)"

definition mutex_trylock :: "pthread set \<Rightarrow> pthread \<Rightarrow> mutex \<Rightarrow> outcome" where
  "mutex_trylock dead self m =
     (case check_if_valid m of None \<Rightarrow> Report
      | Some m \<Rightarrow> if kpr_mutex_default m then Report else lock_internal dead self False m)"

definition mutex_consistent :: "pthread \<Rightarrow> mutex \<Rightarrow> outcome" where
  "mutex_consistent self m =
     (case check_if_valid m of None \<Rightarrow> Report
      | Some m \<Rightarrow>
          if m_robust m \<noteq> PTHREAD_MUTEX_ROBUST then Return EINVAL m
          else if m_holder m \<noteq> Some self \<or> m_robust_state m \<noteq> KPR_MUTEX_INCONSISTENT then Return EINVAL m
          else Return Ok (m\<lparr>m_robust_state := KPR_MUTEX_NORMAL\<rparr>))"

text \<open>
  \<^verbatim>\<open>kpr_mutex_unlock\<close>; the flag says whether \<^verbatim>\<open>klee_cond_signal\<close> was called. \<^verbatim>\<open>force\<close> is set by
  \<^verbatim>\<open>pthread_cond_wait\<close>.
\<close>

definition kpr_mutex_unlock :: "pthread \<Rightarrow> bool \<Rightarrow> mutex \<Rightarrow> outcome \<times> bool" where
  "kpr_mutex_unlock self force m =
     (if kpr_mutex_default m then (Return Ok (m\<lparr>m_acquired := 0, m_holder := None\<rparr>), False)
      else if m_acquired m = 0 then
        ((if m_type m = PTHREAD_MUTEX_ERRORCHECK then Return EPERM m else Report), False)
      else if m_holder m \<noteq> Some self then
        ((if m_type m = PTHREAD_MUTEX_ERRORCHECK then Return EPERM m else Report), False)
      else
        let (m, unlock) = (if m_type m = PTHREAD_MUTEX_RECURSIVE
              then (m\<lparr>m_acquired := m_acquired m - 1\<rparr>, m_acquired m - 1 = 0 \<or> force) else (m, True));
            m = (if m_robust m = PTHREAD_MUTEX_ROBUST \<and> unlock \<and> m_robust_state m = KPR_MUTEX_INCONSISTENT
                 then m\<lparr>m_robust_state := KPR_MUTEX_UNUSABLE\<rparr> else m)
        in (Return Ok (if unlock then m\<lparr>m_acquired := 0, m_holder := None\<rparr> else m), unlock))"

definition mutex_unlock :: "pthread \<Rightarrow> mutex \<Rightarrow> outcome \<times> bool" where
  "mutex_unlock self m =
     (case check_if_valid m of None \<Rightarrow> (Report, False) | Some m \<Rightarrow> kpr_mutex_unlock self False m)"

section \<open>Threads sharing a mutex\<close>

text \<open>
  \<open>s_lock\<close> is the owner of \<^verbatim>\<open>mutex->lock\<close>, \<open>s_waiting\<close> and \<open>s_woken\<close> are the threads in
  \<^verbatim>\<open>klee_cond_wait\<close> before and after they were signalled. \<open>s_count\<close> counts, for each thread, the calls that
  gave it the mutex minus the successful unlocks; the code does not read it.
\<close>

record mstate =
  s_mutex :: mutex
  s_lock :: "pthread option"
  s_waiting :: "pthread set"
  s_woken :: "pthread set"
  s_dead :: "pthread set"
  s_count :: "pthread \<Rightarrow> nat"

definition running :: "mstate \<Rightarrow> pthread \<Rightarrow> bool" where
  "running s t \<longleftrightarrow> t \<notin> s_dead s \<union> s_waiting s \<union> s_woken s"

definition counted :: "pthread \<Rightarrow> err \<Rightarrow> mstate \<Rightarrow> mstate" where
  "counted t r s = (if r \<in> {Ok, EOWNERDEAD} then s\<lparr>s_count := (s_count s)(t := s_count s t + 1)\<rparr> else s)"

definition uncounted :: "pthread \<Rightarrow> err \<Rightarrow> mstate \<Rightarrow> mstate" where
  "uncounted t r s = (if r = Ok then s\<lparr>s_count := (s_count s)(t := s_count s t - 1)\<rparr> else s)"

inductive mutex_step :: "mstate \<Rightarrow> mstate \<Rightarrow> bool" where
  st_lock: "running s t \<Longrightarrow> s_lock s = None \<Longrightarrow> mutex_lock (s_dead s) t (s_mutex s) = Return r m
    \<Longrightarrow> mutex_step s (counted t r (s\<lparr>s_mutex := m\<rparr>))"
| st_lock_basic: "running s t \<Longrightarrow> s_lock s = None \<Longrightarrow> mutex_lock (s_dead s) t (s_mutex s) = Return_Locked r m
    \<Longrightarrow> mutex_step s (counted t r (s\<lparr>s_mutex := m, s_lock := Some t\<rparr>))"
| st_lock_wait: "running s t \<Longrightarrow> s_lock s = None \<Longrightarrow> mutex_lock (s_dead s) t (s_mutex s) = Wait m
    \<Longrightarrow> mutex_step s (s\<lparr>s_mutex := m, s_waiting := insert t (s_waiting s)\<rparr>)"
| st_lock_stuck: "running s t \<Longrightarrow> s_lock s = None \<Longrightarrow> mutex_lock (s_dead s) t (s_mutex s) = Stuck m
    \<Longrightarrow> mutex_step s (s\<lparr>s_mutex := m, s_lock := Some t\<rparr>)"
| st_trylock: "running s t \<Longrightarrow> s_lock s = None \<Longrightarrow> mutex_trylock (s_dead s) t (s_mutex s) = Return r m
    \<Longrightarrow> mutex_step s (counted t r (s\<lparr>s_mutex := m\<rparr>))"
| st_resume: "t \<in> s_woken s \<Longrightarrow> s_lock s = None \<Longrightarrow> lock_resume (s_dead s) t (s_mutex s) = Return r m
    \<Longrightarrow> mutex_step s (counted t r (s\<lparr>s_mutex := m, s_woken := s_woken s - {t}\<rparr>))"
| st_resume_wait: "t \<in> s_woken s \<Longrightarrow> s_lock s = None \<Longrightarrow> lock_resume (s_dead s) t (s_mutex s) = Wait m
    \<Longrightarrow> mutex_step s (s\<lparr>s_mutex := m, s_woken := s_woken s - {t}, s_waiting := insert t (s_waiting s)\<rparr>)"
| st_unlock: "running s t \<Longrightarrow> \<not> kpr_mutex_default (s_mutex s) \<Longrightarrow> s_lock s = None
    \<Longrightarrow> mutex_unlock t (s_mutex s) = (Return r m, signal) \<Longrightarrow> \<not> signal \<or> s_waiting s = {}
    \<Longrightarrow> mutex_step s (uncounted t r (s\<lparr>s_mutex := m\<rparr>))"
| st_unlock_wake: "running s t \<Longrightarrow> \<not> kpr_mutex_default (s_mutex s) \<Longrightarrow> s_lock s = None
    \<Longrightarrow> mutex_unlock t (s_mutex s) = (Return r m, True) \<Longrightarrow> w \<in> s_waiting s
    \<Longrightarrow> mutex_step s (uncounted t r
          (s\<lparr>s_mutex := m, s_waiting := s_waiting s - {w}, s_woken := insert w (s_woken s)\<rparr>))"
| st_unlock_basic: "running s t \<Longrightarrow> kpr_mutex_default (s_mutex s) \<Longrightarrow> s_lock s = Some t
    \<Longrightarrow> mutex_unlock t (s_mutex s) = (Return r m, signal)
    \<Longrightarrow> mutex_step s (uncounted t r (s\<lparr>s_mutex := m, s_lock := None\<rparr>))"
| st_consistent: "running s t \<Longrightarrow> s_lock s = None \<Longrightarrow> mutex_consistent t (s_mutex s) = Return r m
    \<Longrightarrow> mutex_step s (s\<lparr>s_mutex := m\<rparr>)"
| st_exit: "running s t \<Longrightarrow> mutex_step s (s\<lparr>s_dead := insert t (s_dead s)\<rparr>)"

definition mutex_start :: "mutex \<Rightarrow> mstate" where
  "mutex_start m = \<lparr>s_mutex = m, s_lock = None, s_waiting = {}, s_woken = {}, s_dead = {}, s_count = (\<lambda>_. 0)\<rparr>"

section \<open>Invariant\<close>

text \<open>The part of the invariant that concerns the fields of the mutex only.\<close>

definition mutex_ok :: "mutex \<Rightarrow> bool" where
  "mutex_ok m \<longleftrightarrow> (m_acquired m = 0 \<longleftrightarrow> m_holder m = None) \<and> (m_type m \<noteq> PTHREAD_MUTEX_RECURSIVE \<longrightarrow> m_acquired m \<le> 1)"

definition held_by :: "mutex \<Rightarrow> pthread \<Rightarrow> nat" where
  "held_by m t = (if m_holder m = Some t then m_acquired m else 0)"

text \<open>
  A live thread holds the mutex as often as it was given it; a thread that waits does not hold it; a
  free mutex with waiting threads has one that was woken and will try to take it.
\<close>

definition mutex_inv :: "mstate \<Rightarrow> bool" where
  "mutex_inv s \<longleftrightarrow> mutex_ok (s_mutex s)
     \<and> (\<forall>t. t \<notin> s_dead s \<longrightarrow> s_count s t = held_by (s_mutex s) t)
     \<and> (kpr_mutex_default (s_mutex s) \<longrightarrow> s_lock s = m_holder (s_mutex s) \<and> s_waiting s = {} \<and> s_woken s = {})
     \<and> (m_acquired (s_mutex s) = 0 \<and> s_waiting s \<noteq> {} \<longrightarrow> s_woken s \<noteq> {})
     \<and> (\<forall>t \<in> s_waiting s \<union> s_woken s. t \<notin> s_dead s \<and> held_by (s_mutex s) t = 0)
     \<and> s_waiting s \<inter> s_woken s = {}"

text \<open>What the operations do to the fields the invariant speaks of.\<close>

definition same_kind :: "mutex \<Rightarrow> mutex \<Rightarrow> bool" where
  "same_kind m n \<longleftrightarrow> m_type m = m_type n \<and> m_robust m = m_robust n \<and> m_trylock m = m_trylock n"

lemma same_kind_default: "same_kind m n \<Longrightarrow> kpr_mutex_default m = kpr_mutex_default n"
  by (simp add: same_kind_def kpr_mutex_default_def)

lemma check_if_valid_fields:
  "check_if_valid m = Some n \<Longrightarrow> same_kind m n \<and> m_acquired n = m_acquired m \<and> m_holder n = m_holder m
     \<and> m_robust_state n = m_robust_state m"
  by (auto simp: check_if_valid_def same_kind_def split: init_pattern.splits)

lemma held_take: "m_acquired m = 0 \<longleftrightarrow> m_holder m = None \<Longrightarrow> m_acquired m = 0
  \<Longrightarrow> held_by (take_mutex t m) u = (if u = t then held_by m u + 1 else held_by m u)"
  by (auto simp: held_by_def take_mutex_def)

lemma take_ok [simp]: "mutex_ok (take_mutex t m)" "same_kind m (take_mutex t m)" "m_acquired (take_mutex t m) = 1"
  by (simp_all add: mutex_ok_def take_mutex_def same_kind_def)

lemma same_kind_refl [simp]: "same_kind m m"
  by (simp add: same_kind_def)

definition locked_by :: "pthread set \<Rightarrow> pthread \<Rightarrow> err \<Rightarrow> mutex \<Rightarrow> mutex \<Rightarrow> bool" where
  "locked_by dead t r m n \<longleftrightarrow> same_kind m n \<and> mutex_ok n
     \<and> (if r \<in> {Ok, EOWNERDEAD} then m_acquired n \<noteq> 0
          \<and> (\<forall>u. u \<notin> dead \<longrightarrow> held_by n u = (if u = t then held_by m u + 1 else held_by m u))
        else held_by n = held_by m \<and> m_acquired n = m_acquired m)"

lemma locked_by_error: "mutex_ok m \<Longrightarrow> r \<notin> {Ok, EOWNERDEAD} \<Longrightarrow> locked_by dead t r m m"
  by (simp add: locked_by_def)

lemma lock_contended_locked:
  assumes "mutex_ok m" "m_acquired m \<noteq> 0" "m_holder m \<noteq> Some t" "lock_contended dead t b m = Return r n"
  shows "locked_by dead t r m n"
proof (cases "r = EOWNERDEAD")
  case True
  then obtain u where u: "m_holder m = Some u" "u \<in> dead"
      "n = take_mutex t (m\<lparr>m_robust_state := KPR_MUTEX_INCONSISTENT\<rparr>)"
    using assms(4) by (auto simp: lock_contended_def split: if_splits)
  have "same_kind m n" "mutex_ok n" "m_acquired n \<noteq> 0"
    using u(3) by (simp_all add: same_kind_def mutex_ok_def take_mutex_def)
  moreover have "held_by n v = (if v = t then held_by m v + 1 else held_by m v)" if "v \<notin> dead" for v
    using that u assms(3) by (auto simp: held_by_def take_mutex_def)
  ultimately show ?thesis using True by (simp add: locked_by_def)
next
  case False
  then have "n = m" "r \<noteq> Ok" using assms(4) by (auto simp: lock_contended_def split: if_splits)
  then show ?thesis using False locked_by_error [OF assms(1)] by simp
qed

lemma lock_internal_locked:
  assumes "mutex_ok m" "lock_internal dead t b m = Return r n"
  shows "locked_by dead t r m n"
proof -
  have ok: "m_acquired m = 0 \<longleftrightarrow> m_holder m = None" using assms(1) by (simp add: mutex_ok_def)
  consider (unusable) "m_robust m = PTHREAD_MUTEX_ROBUST" "m_robust_state m = KPR_MUTEX_UNUSABLE"
    | (free) "\<not> (m_robust m = PTHREAD_MUTEX_ROBUST \<and> m_robust_state m = KPR_MUTEX_UNUSABLE)" "m_acquired m = 0"
    | (own) "\<not> (m_robust m = PTHREAD_MUTEX_ROBUST \<and> m_robust_state m = KPR_MUTEX_UNUSABLE)"
        "m_acquired m \<noteq> 0" "m_holder m = Some t"
    | (other) "\<not> (m_robust m = PTHREAD_MUTEX_ROBUST \<and> m_robust_state m = KPR_MUTEX_UNUSABLE)"
        "m_acquired m \<noteq> 0" "m_holder m \<noteq> Some t"
    by blast
  then show ?thesis
  proof cases
    case unusable
    then have "n = m" "r = EINVAL" using assms(2) by (auto simp: lock_internal_def)
    then show ?thesis using locked_by_error [OF assms(1)] by simp
  next
    case free
    then have "n = take_mutex t m" "r = Ok" using assms(2) by (auto simp: lock_internal_def)
    then show ?thesis using held_take [OF ok free(2)] by (simp add: locked_by_def)
  next
    case own
    then have "r = EDEADLOCK \<and> n = m \<or> r = Ok \<and> m_type m = PTHREAD_MUTEX_RECURSIVE \<and> n = m\<lparr>m_acquired := m_acquired m + 1\<rparr>"
      using assms(2) by (cases "m_type m") (auto simp: lock_internal_def split: if_split_asm)
    then show ?thesis
    proof
      assume r: "r = Ok \<and> m_type m = PTHREAD_MUTEX_RECURSIVE \<and> n = m\<lparr>m_acquired := m_acquired m + 1\<rparr>"
      have "held_by n u = (if u = t then held_by m u + 1 else held_by m u)" for u
        using r own(3) by (simp add: held_by_def)
      moreover have "same_kind m n" "mutex_ok n" "m_acquired n \<noteq> 0"
        using r own(3) by (simp_all add: same_kind_def mutex_ok_def)
      ultimately show ?thesis using r by (simp add: locked_by_def)
    qed (use locked_by_error [OF assms(1)] in simp)
  next
    case other
    then have "lock_contended dead t b m = Return r n" using assms(2) ok by (simp add: lock_internal_def split: if_splits)
    then show ?thesis by (rule lock_contended_locked [OF assms(1) other(2,3)])
  qed
qed

lemma lock_internal_other:
  "lock_internal dead t b m = Wait n \<Longrightarrow> n = m \<and> m_acquired m \<noteq> 0 \<and> held_by m t = 0"
  "lock_internal dead t b m = Stuck n \<Longrightarrow> n = m"
  "lock_internal dead t b m \<noteq> Return_Locked r n"
  by (auto simp: lock_internal_def lock_contended_def held_by_def split: if_splits mutex_type.splits)

lemma lock_resume_locked:
  assumes "mutex_ok m" "m_holder m \<noteq> Some t" "lock_resume dead t m = Return r n"
  shows "locked_by dead t r m n \<and> m_acquired n \<noteq> 0"
proof (cases "m_acquired m = 0")
  case True
  then have "n = take_mutex t m" "r = Ok" using assms(3) by (auto simp: lock_resume_def)
  then show ?thesis using held_take [of m t] True assms(1) by (simp add: locked_by_def mutex_ok_def [of m])
next
  case False
  then have "lock_contended dead t True m = Return r n" using assms(3) by (simp add: lock_resume_def)
  from lock_contended_locked [OF assms(1) False assms(2) this] show ?thesis
    using False by (cases "r \<in> {Ok, EOWNERDEAD}") (simp_all add: locked_by_def)
qed

lemma lock_resume_wait: "lock_resume dead t m = Wait n \<Longrightarrow> n = m \<and> m_acquired m \<noteq> 0"
  by (auto simp: lock_resume_def lock_contended_def split: if_splits)

lemma kpr_mutex_unlock_cases:
  assumes "mutex_ok m" "\<not> kpr_mutex_default m" "kpr_mutex_unlock t False m = (Return r n, sig)"
  shows "same_kind m n \<and> mutex_ok n \<and> (m_acquired n = 0 \<longrightarrow> m_acquired m = 0 \<or> sig)
    \<and> (if r = Ok then (\<forall>u. held_by n u = (if u = t then held_by m u - 1 else held_by m u)) else n = m)"
proof (cases "m_acquired m = 0 \<or> m_holder m \<noteq> Some t")
  case True
  then show ?thesis using assms by (auto simp: kpr_mutex_unlock_def split: if_splits)
next
  case False
  then show ?thesis
    using assms
    by (cases "m_type m = PTHREAD_MUTEX_RECURSIVE")
       (auto simp: kpr_mutex_unlock_def same_kind_def mutex_ok_def held_by_def Let_def)
qed

lemma mutex_lock_cases:
  assumes "mutex_ok m"
  shows "mutex_lock dead t m = Return r n \<Longrightarrow> locked_by dead t r m n \<and> \<not> kpr_mutex_default m"
    and "mutex_lock dead t m = Wait n \<Longrightarrow> same_kind m n \<and> mutex_ok n \<and> held_by n = held_by m \<and> m_acquired n \<noteq> 0 \<and> held_by n t = 0 \<and> \<not> kpr_mutex_default m"
    and "mutex_lock dead t m = Stuck n \<Longrightarrow> same_kind m n \<and> mutex_ok n \<and> held_by n = held_by m \<and> m_acquired n = m_acquired m \<and> \<not> kpr_mutex_default m"
    and "mutex_lock dead t m = Return_Locked r n \<Longrightarrow> r = Ok \<and> kpr_mutex_default m \<and> same_kind m n \<and> m_acquired n = 1 \<and> m_holder n = Some t"
    and "mutex_trylock dead t m = Return r n \<Longrightarrow> locked_by dead t r m n \<and> \<not> kpr_mutex_default m"
proof -
  let ?v = "check_if_valid m"
  have v: "same_kind m k \<and> m_acquired k = m_acquired m \<and> m_holder k = m_holder m \<and> mutex_ok k
      \<and> held_by k = held_by m \<and> kpr_mutex_default k = kpr_mutex_default m" if "?v = Some k" for k
    using check_if_valid_fields [OF that] assms same_kind_default [of m k]
    by (auto simp: mutex_ok_def held_by_def fun_eq_iff same_kind_def)
  have lk: "locked_by dead t r m n" if k: "?v = Some k" and l: "lock_internal dead t b k = Return r n" for k b
  proof -
    have "locked_by dead t r k n" using lock_internal_locked [OF _ l] v [OF k] by simp
    then show ?thesis using v [OF k] by (simp add: locked_by_def same_kind_def)
  qed
  show "mutex_lock dead t m = Return r n \<Longrightarrow> locked_by dead t r m n \<and> \<not> kpr_mutex_default m"
    using lk v by (auto simp: mutex_lock_def split: option.splits if_splits)
  show "mutex_trylock dead t m = Return r n \<Longrightarrow> locked_by dead t r m n \<and> \<not> kpr_mutex_default m"
    using lk v by (auto simp: mutex_trylock_def split: option.splits if_splits)
  show "mutex_lock dead t m = Wait n \<Longrightarrow> same_kind m n \<and> mutex_ok n \<and> held_by n = held_by m \<and> m_acquired n \<noteq> 0 \<and> held_by n t = 0 \<and> \<not> kpr_mutex_default m"
    using v lock_internal_other(1) [of dead t True] by (auto simp: mutex_lock_def split: option.splits if_splits)
  show "mutex_lock dead t m = Stuck n \<Longrightarrow> same_kind m n \<and> mutex_ok n \<and> held_by n = held_by m \<and> m_acquired n = m_acquired m \<and> \<not> kpr_mutex_default m"
    using v lock_internal_other(2) [of dead t True] by (auto simp: mutex_lock_def split: option.splits if_splits)
  show "mutex_lock dead t m = Return_Locked r n \<Longrightarrow> r = Ok \<and> kpr_mutex_default m \<and> same_kind m n \<and> m_acquired n = 1 \<and> m_holder n = Some t"
    using v lock_internal_other(3) [of dead t True]
    by (auto simp: mutex_lock_def same_kind_def take_mutex_def split: option.splits if_splits)
qed

lemma counted_simps [simp]:
  "s_mutex (counted t r s) = s_mutex s" "s_lock (counted t r s) = s_lock s" "s_waiting (counted t r s) = s_waiting s"
  "s_woken (counted t r s) = s_woken s" "s_dead (counted t r s) = s_dead s"
  "s_mutex (uncounted t r s) = s_mutex s" "s_lock (uncounted t r s) = s_lock s" "s_waiting (uncounted t r s) = s_waiting s"
  "s_woken (uncounted t r s) = s_woken s" "s_dead (uncounted t r s) = s_dead s"
  by (simp_all add: counted_def uncounted_def)

lemma mutex_invD:
  assumes "mutex_inv s"
  shows "mutex_ok (s_mutex s)" "\<And>t. t \<notin> s_dead s \<Longrightarrow> s_count s t = held_by (s_mutex s) t"
    "kpr_mutex_default (s_mutex s) \<Longrightarrow> s_lock s = m_holder (s_mutex s) \<and> s_waiting s = {} \<and> s_woken s = {}"
    "m_acquired (s_mutex s) = 0 \<Longrightarrow> s_waiting s \<noteq> {} \<Longrightarrow> s_woken s \<noteq> {}"
    "\<And>t. t \<in> s_waiting s \<union> s_woken s \<Longrightarrow> t \<notin> s_dead s \<and> held_by (s_mutex s) t = 0"
    "s_waiting s \<inter> s_woken s = {}"
  using assms unfolding mutex_inv_def by blast+

lemma inv_locked:
  assumes inv: "mutex_inv s" and nd: "\<not> kpr_mutex_default (s_mutex s)" and t: "t \<notin> s_dead s"
    and lk: "locked_by (s_dead s) t r (s_mutex s) m"
    and W: "W \<subseteq> s_woken s - {t}" "t \<notin> s_waiting s" "m_acquired m = 0 \<Longrightarrow> W = s_woken s"
  shows "mutex_inv (counted t r (s\<lparr>s_mutex := m, s_woken := W\<rparr>))"
proof -
  note i = mutex_invD [OF inv]
  have m: "same_kind (s_mutex s) m" "mutex_ok m" using lk by (simp_all add: locked_by_def)
  have held: "held_by m u = held_by (s_mutex s) u + (if u = t \<and> r \<in> {Ok, EOWNERDEAD} then 1 else 0)" if "u \<notin> s_dead s" for u
    using lk that by (cases "r \<in> {Ok, EOWNERDEAD}") (simp_all add: locked_by_def)
  have "s_count (counted t r (s\<lparr>s_mutex := m, s_woken := W\<rparr>)) u = held_by m u" if "u \<notin> s_dead s" for u
    using held [OF that] i(2) [OF that] by (auto simp: counted_def)
  moreover have "m_acquired m = 0 \<Longrightarrow> s_waiting s \<noteq> {} \<Longrightarrow> W \<noteq> {}"
    using lk W(3) i(4) by (cases "r \<in> {Ok, EOWNERDEAD}") (simp_all add: locked_by_def)
  moreover have "u \<notin> s_dead s \<and> held_by m u = 0" if "u \<in> s_waiting s \<union> W" for u
  proof -
    have u: "u \<in> s_waiting s \<union> s_woken s" "u \<noteq> t" using that W by auto
    then show ?thesis using i(5) [OF u(1)] held [of u] by simp
  qed
  moreover have "s_waiting s \<inter> W = {}" using i(6) W(1) by blast
  ultimately show ?thesis
    using m(2) nd same_kind_default [OF m(1)] unfolding mutex_inv_def by simp
qed

lemma inv_unlocked:
  assumes inv: "mutex_inv s" and nd: "\<not> kpr_mutex_default (s_mutex s)" and t: "running s t"
    and u: "mutex_unlock t (s_mutex s) = (Return r m, sig)"
    and W: "V \<union> W = s_waiting s \<union> s_woken s" "s_woken s \<subseteq> W" "sig \<Longrightarrow> V \<noteq> {} \<Longrightarrow> W \<noteq> {}" "\<not> sig \<Longrightarrow> V = s_waiting s"
      "V \<inter> W = {}"
  shows "mutex_inv (uncounted t r (s\<lparr>s_mutex := m, s_waiting := V, s_woken := W\<rparr>))"
proof -
  note i = mutex_invD [OF inv]
  obtain k where k: "check_if_valid (s_mutex s) = Some k" "kpr_mutex_unlock t False k = (Return r m, sig)"
    using u by (auto simp: mutex_unlock_def split: option.splits)
  have kf: "same_kind (s_mutex s) k" "mutex_ok k" "held_by k = held_by (s_mutex s)" "m_acquired k = m_acquired (s_mutex s)"
    using check_if_valid_fields [OF k(1)] i(1) by (auto simp: mutex_ok_def held_by_def fun_eq_iff same_kind_def)
  have "\<not> kpr_mutex_default k" using same_kind_default [OF kf(1)] nd by simp
  note c = kpr_mutex_unlock_cases [OF kf(2) this k(2)]
  have held: "held_by m u = (if u = t \<and> r = Ok then held_by (s_mutex s) u - 1 else held_by (s_mutex s) u)" for u
    using c kf(3) by (cases "r = Ok") simp_all
  have "s_count (uncounted t r (s\<lparr>s_mutex := m, s_waiting := V, s_woken := W\<rparr>)) u = held_by m u" if "u \<notin> s_dead s" for u
    using held [of u] i(2) [OF that] by (auto simp: uncounted_def)
  moreover have "W \<noteq> {}" if "m_acquired m = 0" "V \<noteq> {}"
  proof (cases sig)
    case False
    then have "m_acquired (s_mutex s) = 0" using c that(1) kf(4) by simp
    then show ?thesis using i(4) W(2,4) False that(2) by blast
  qed (use W(3) that in simp)
  moreover have "u \<notin> s_dead s \<and> held_by m u = 0" if "u \<in> V \<union> W" for u
  proof -
    have "u \<in> s_waiting s \<union> s_woken s" using that W(1) by simp
    then show ?thesis using i(5) [of u] held [of u] by (auto split: if_splits)
  qed
  moreover have "\<not> kpr_mutex_default m"
    using c same_kind_default [of k m] \<open>\<not> kpr_mutex_default k\<close> by simp
  ultimately show ?thesis using c W(5) unfolding mutex_inv_def by simp
qed

lemma inv_default:
  assumes "mutex_inv s" "kpr_mutex_default (s_mutex s)"
  shows "s_lock s = m_holder (s_mutex s)" "s_waiting s = {}" "s_woken s = {}" "m_acquired (s_mutex s) \<le> 1"
    "m_holder (s_mutex s) = None \<longleftrightarrow> m_acquired (s_mutex s) = 0"
  using mutex_invD(1,3) [OF assms(1)] assms(2) by (auto simp: mutex_ok_def kpr_mutex_default_def)

lemma mutex_step_inv: "mutex_step s s' \<Longrightarrow> mutex_inv s \<Longrightarrow> mutex_inv s'"
proof (induction rule: mutex_step.induct)
  case (st_lock s t r m)
  have "s\<lparr>s_mutex := m, s_woken := s_woken s\<rparr> = s\<lparr>s_mutex := m\<rparr>" by simp
  then show ?case
    using inv_locked [OF st_lock.prems, of t r m "s_woken s"] st_lock.hyps
      mutex_lock_cases(1) [OF mutex_invD(1) [OF st_lock.prems] st_lock.hyps(3)]
    by (simp add: running_def)
next
  case (st_lock_basic s t r m)
  note c = mutex_lock_cases(4) [OF mutex_invD(1) [OF st_lock_basic.prems] st_lock_basic.hyps(3)]
  note d = inv_default [OF st_lock_basic.prems] and i = mutex_invD [OF st_lock_basic.prems]
  have "kpr_mutex_default m" using c same_kind_default by blast
  moreover have "held_by (s_mutex s) u = 0" for u using d c st_lock_basic.hyps(2) by (simp add: held_by_def)
  ultimately show ?case
    using c d i(2) by (auto simp: mutex_inv_def counted_def mutex_ok_def held_by_def)
next
  case (st_lock_wait s t m)
  note i = mutex_invD [OF st_lock_wait.prems]
  note c = mutex_lock_cases(2) [OF i(1) st_lock_wait.hyps(3)]
  have "\<not> kpr_mutex_default m" using c same_kind_default by blast
  then show ?case using c i st_lock_wait.hyps(1) by (auto simp: mutex_inv_def running_def)
next
  case (st_lock_stuck s t m)
  note i = mutex_invD [OF st_lock_stuck.prems]
  note c = mutex_lock_cases(3) [OF i(1) st_lock_stuck.hyps(3)]
  have "\<not> kpr_mutex_default m" using c same_kind_default by blast
  then show ?case using c i by (auto simp: mutex_inv_def)
next
  case (st_trylock s t r m)
  have "s\<lparr>s_mutex := m, s_woken := s_woken s\<rparr> = s\<lparr>s_mutex := m\<rparr>" by simp
  then show ?case
    using inv_locked [OF st_trylock.prems, of t r m "s_woken s"] st_trylock.hyps
      mutex_lock_cases(5) [OF mutex_invD(1) [OF st_trylock.prems] st_trylock.hyps(3)]
    by (simp add: running_def)
next
  case (st_resume t s r m)
  note i = mutex_invD [OF st_resume.prems]
  have t: "t \<notin> s_dead s" "held_by (s_mutex s) t = 0" using i(5) st_resume.hyps(1) by auto
  then have "m_holder (s_mutex s) \<noteq> Some t" using i(1) by (auto simp: held_by_def mutex_ok_def)
  note c = lock_resume_locked [OF i(1) this st_resume.hyps(3)]
  have nd: "\<not> kpr_mutex_default (s_mutex s)" using i(3) st_resume.hyps(1) by auto
  have "t \<notin> s_waiting s" using i(6) st_resume.hyps(1) by blast
  then show ?case using inv_locked [OF st_resume.prems nd t(1), of r m "s_woken s - {t}"] c by auto
next
  case (st_resume_wait t s m)
  note i = mutex_invD [OF st_resume_wait.prems]
  note c = lock_resume_wait [OF st_resume_wait.hyps(3)]
  have "\<not> kpr_mutex_default (s_mutex s)" using i(3) st_resume_wait.hyps(1) by auto
  then show ?case using c i st_resume_wait.hyps(1) by (auto simp: mutex_inv_def)
next
  case (st_unlock s t r m signal)
  have "s\<lparr>s_mutex := m, s_waiting := s_waiting s, s_woken := s_woken s\<rparr> = s\<lparr>s_mutex := m\<rparr>" by simp
  then show ?case
    using inv_unlocked [OF st_unlock.prems st_unlock.hyps(2,1,4), of "s_waiting s" "s_woken s"] st_unlock.hyps(5)
      mutex_invD(6) [OF st_unlock.prems] by auto
next
  case (st_unlock_wake s t r m w)
  then show ?case
    using inv_unlocked [OF st_unlock_wake.prems st_unlock_wake.hyps(2,1,4), of "s_waiting s - {w}" "insert w (s_woken s)"]
      mutex_invD(6) [OF st_unlock_wake.prems] by auto
next
  case (st_unlock_basic s t r m signal)
  note i = mutex_invD [OF st_unlock_basic.prems] and d = inv_default [OF st_unlock_basic.prems st_unlock_basic.hyps(2)]
  obtain k where k: "check_if_valid (s_mutex s) = Some k" "kpr_mutex_unlock t False k = (Return r m, signal)"
    using st_unlock_basic.hyps(4) by (auto simp: mutex_unlock_def split: option.splits)
  have "kpr_mutex_default k" using check_if_valid_fields [OF k(1)] same_kind_default st_unlock_basic.hyps(2) by blast
  then have m: "r = Ok" "m = k\<lparr>m_acquired := 0, m_holder := None\<rparr>" using k(2) by (auto simp: kpr_mutex_unlock_def)
  have "s_count s u = (if u = t then 1 else 0)" if "u \<notin> s_dead s" for u
    using i(2) [OF that] d st_unlock_basic.hyps(3) by (cases "m_acquired (s_mutex s)") (auto simp: held_by_def)
  then show ?case using m d by (auto simp: mutex_inv_def uncounted_def mutex_ok_def held_by_def)
next
  case (st_consistent s t r m)
  note i = mutex_invD [OF st_consistent.prems]
  have m: "same_kind (s_mutex s) m" "m_acquired m = m_acquired (s_mutex s)" "m_holder m = m_holder (s_mutex s)"
    using st_consistent.hyps(3) check_if_valid_fields
    by (auto simp: mutex_consistent_def same_kind_def split: option.splits if_splits)
  then have "held_by m = held_by (s_mutex s)" "mutex_ok m"
    using i(1) by (auto simp: held_by_def mutex_ok_def same_kind_def fun_eq_iff)
  then show ?case using i m same_kind_default [OF m(1)] by (auto simp: mutex_inv_def)
next
  case (st_exit s t)
  then show ?case by (auto simp: mutex_inv_def running_def)
qed

section \<open>Properties\<close>

lemma mutex_init_inv: "mutex_init m0 attr = Return Ok m \<Longrightarrow> mutex_inv (mutex_start m)"
  by (auto simp: mutex_init_def mutex_start_def mutex_inv_def mutex_ok_def held_by_def Let_def
      split: if_splits option.splits)

lemma reachable_inv:
  assumes "mutex_init m0 attr = Return Ok m" "mutex_step\<^sup>*\<^sup>* (mutex_start m) s"
  shows "mutex_inv s"
  using assms(2) by (induction rule: rtranclp_induct) (use mutex_init_inv [OF assms(1)] mutex_step_inv in auto)

lemma held_by_unique: "held_by m t > 0 \<Longrightarrow> held_by m u > 0 \<Longrightarrow> t = u"
  by (simp add: held_by_def split: if_splits)

text \<open>
  C12. Mutual exclusion: whatever the type of the mutex and however threads lock, try to lock, unlock,
  wait, make it consistent and exit, two live threads never hold the mutex at the same time.
\<close>

theorem mutex_mutual_exclusion:
  assumes "mutex_init m0 attr = Return Ok m" "mutex_step\<^sup>*\<^sup>* (mutex_start m) s"
    and "t \<notin> s_dead s" "u \<notin> s_dead s" "s_count s t > 0" "s_count s u > 0"
  shows "t = u \<and> m_holder (s_mutex s) = Some t"
proof -
  note i = mutex_invD(2) [OF reachable_inv [OF assms(1,2)]]
  have "held_by (s_mutex s) t > 0" "held_by (s_mutex s) u > 0" using i assms(3-6) by metis+
  then show ?thesis by (simp add: held_by_def split: if_splits)
qed

definition ex_raw :: mutex where
  "ex_raw = \<lparr>m_init = KPR_RANDOM_INIT, m_type = PTHREAD_MUTEX_NORMAL, m_robust = PTHREAD_MUTEX_STALLED, m_acquired = 0,
     m_holder = None, m_robust_state = KPR_MUTEX_NORMAL, m_trylock = KPR_TRYLOCK_UNKNOWN\<rparr>"

definition ex_robust :: mutex where
  "ex_robust = ex_raw\<lparr>m_init := KPR_OTHER_INIT, m_robust := PTHREAD_MUTEX_ROBUST\<rparr>"

definition ex_attr :: mutexattr where
  "ex_attr = \<lparr>a_type = PTHREAD_MUTEX_NORMAL, a_robust = PTHREAD_MUTEX_ROBUST, a_trylock = KPR_TRYLOCK_UNKNOWN\<rparr>"

lemma ex_robust_init: "mutex_init ex_raw (Some ex_attr) = Return Ok ex_robust"
  by (simp add: mutex_init_def ex_raw_def ex_attr_def ex_robust_def)

lemmas ex_mutex_defs = ex_robust_def ex_raw_def mutex_start_def running_def mutex_lock_def lock_internal_def
  lock_contended_def lock_resume_def check_if_valid_def kpr_mutex_default_def take_mutex_def counted_def uncounted_def
  mutex_unlock_def kpr_mutex_unlock_def

text \<open>Thread 1 takes a robust mutex and exits; thread 2 takes it over; thread 3 waits.\<close>

definition ex_taken :: mstate where
  "ex_taken = (mutex_start ex_robust)\<lparr>s_mutex := ex_robust\<lparr>m_acquired := 1, m_holder := Some 1\<rparr>, s_count := (\<lambda>_. 0)(1 := 1)\<rparr>"

definition ex_waiting :: mstate where
  "ex_waiting = \<lparr>s_mutex = ex_robust\<lparr>m_acquired := 1, m_holder := Some 2, m_robust_state := KPR_MUTEX_INCONSISTENT\<rparr>,
     s_lock = None, s_waiting = {3}, s_woken = {}, s_dead = {1}, s_count = (\<lambda>_. 0)(1 := 1, 2 := 1)\<rparr>"

lemma ex_taken_step: "mutex_step (mutex_start ex_robust) ex_taken"
proof -
  have "mutex_lock {} 1 ex_robust = Return Ok (ex_robust\<lparr>m_acquired := 1, m_holder := Some 1\<rparr>)"
    by (simp add: ex_mutex_defs)
  then show ?thesis
    using mutex_step.st_lock [of "mutex_start ex_robust" 1 Ok] by (simp add: ex_mutex_defs ex_taken_def)
qed

lemma ex_waiting_reachable: "mutex_step\<^sup>*\<^sup>* (mutex_start ex_robust) ex_waiting"
proof -
  let ?s1 = "ex_taken\<lparr>s_dead := {1}\<rparr>" and ?s2 = "ex_waiting\<lparr>s_waiting := {}\<rparr>"
  have "mutex_step ex_taken ?s1"
    using mutex_step.st_exit [of ex_taken 1] by (simp add: ex_taken_def mutex_start_def running_def)
  moreover have "mutex_step ?s1 ?s2"
  proof -
    have "mutex_lock {1} 2 (s_mutex ?s1) = Return EOWNERDEAD (s_mutex ?s2)"
      by (simp add: ex_mutex_defs ex_taken_def ex_waiting_def)
    then show ?thesis
      using mutex_step.st_lock [of ?s1 2 EOWNERDEAD] by (simp add: ex_taken_def ex_waiting_def running_def mutex_start_def counted_def)
  qed
  moreover have "mutex_step ?s2 ex_waiting"
  proof -
    have "mutex_lock {1} 3 (s_mutex ?s2) = Wait (s_mutex ?s2)" by (simp add: ex_mutex_defs ex_waiting_def)
    then show ?thesis using mutex_step.st_lock_wait [of ?s2 3] by (simp add: ex_waiting_def running_def)
  qed
  ultimately show ?thesis using ex_taken_step by (meson r_into_rtranclp rtranclp_trans)
qed

theorem mutex_mutual_exclusion_witness:
  "mutex_step\<^sup>*\<^sup>* (mutex_start ex_robust) ex_taken \<and> m_holder (s_mutex ex_taken) = Some 1"
proof -
  have "mutex_step\<^sup>*\<^sup>* (mutex_start ex_robust) ex_taken" using ex_taken_step by blast
  then show ?thesis
    using mutex_mutual_exclusion [OF ex_robust_init, of ex_taken 1 1] by (simp add: ex_taken_def mutex_start_def)
qed

text \<open>
  C23. No wake-up is lost: whenever the mutex is free and its lock is not held while threads wait for
  it, one of them has been woken and its next step takes the mutex.
\<close>

theorem mutex_no_lost_wakeup:
  assumes "mutex_init m0 attr = Return Ok m" "mutex_step\<^sup>*\<^sup>* (mutex_start m) s"
    and "m_acquired (s_mutex s) = 0" "s_lock s = None" "s_waiting s \<noteq> {}"
  shows "\<exists>t \<in> s_woken s. \<exists>s'. mutex_step s s' \<and> m_holder (s_mutex s') = Some t \<and> s_count s' t = 1"
proof -
  note i = mutex_invD [OF reachable_inv [OF assms(1,2)]]
  obtain t where t: "t \<in> s_woken s" using i(4) assms(3,5) by blast
  have "s_count s t = 0" using i(2,5) t by simp
  moreover have "lock_resume (s_dead s) t (s_mutex s) = Return Ok (take_mutex t (s_mutex s))"
    using assms(3) by (simp add: lock_resume_def)
  note mutex_step.st_resume [OF t assms(4) this]
  ultimately show ?thesis using t by (intro bexI [OF _ t] exI conjI) (auto simp: take_mutex_def counted_def)
qed

lemma ex_two_waiting_reachable:
  "mutex_step\<^sup>*\<^sup>* (mutex_start ex_robust)
     (ex_waiting\<lparr>s_mutex := ex_robust\<lparr>m_robust_state := KPR_MUTEX_UNUSABLE\<rparr>, s_waiting := {4}, s_woken := {3},
       s_count := (\<lambda>_. 0)(1 := 1, 2 := 0)\<rparr>)"
proof -
  let ?n = "ex_robust\<lparr>m_robust_state := KPR_MUTEX_UNUSABLE\<rparr>"
  let ?s1 = "ex_waiting\<lparr>s_waiting := {3, 4}\<rparr>"
  let ?s2 = "ex_waiting\<lparr>s_mutex := ?n, s_waiting := {4}, s_woken := {3}, s_count := (\<lambda>_. 0)(1 := 1, 2 := 0)\<rparr>"
  have "mutex_lock {1} 4 (s_mutex ex_waiting) = Wait (s_mutex ex_waiting)" by (simp add: ex_mutex_defs ex_waiting_def)
  then have "mutex_step ex_waiting ?s1"
    using mutex_step.st_lock_wait [of ex_waiting 4] by (simp add: ex_waiting_def running_def insert_commute)
  moreover have "mutex_unlock 2 (s_mutex ?s1) = (Return Ok ?n, True)" by (simp add: ex_mutex_defs ex_waiting_def)
  then have "mutex_step ?s1 ?s2"
    using mutex_step.st_unlock_wake [of ?s1 2 Ok ?n 3]
    by (simp add: ex_waiting_def running_def uncounted_def ex_robust_def kpr_mutex_default_def insert_Diff_if)
  ultimately show ?thesis using ex_waiting_reachable by (meson r_into_rtranclp rtranclp_trans)
qed

theorem mutex_no_lost_wakeup_witness:
  "\<exists>t \<in> {3}. \<exists>s'. mutex_step (ex_waiting\<lparr>s_mutex := ex_robust\<lparr>m_robust_state := KPR_MUTEX_UNUSABLE\<rparr>, s_waiting := {4},
       s_woken := {3}, s_count := (\<lambda>_. 0)(1 := 1, 2 := 0)\<rparr>) s' \<and> m_holder (s_mutex s') = Some t"
  using mutex_no_lost_wakeup [OF ex_robust_init ex_two_waiting_reachable]
  by (simp add: ex_waiting_def ex_robust_def ex_raw_def) blast

lemma step_init: "mutex_step s s' \<Longrightarrow> m_init (s_mutex s) = KPR_OTHER_INIT \<Longrightarrow> m_init (s_mutex s') = KPR_OTHER_INIT"
  by (induction rule: mutex_step.induct)
    (auto simp: mutex_lock_def mutex_trylock_def lock_resume_def mutex_unlock_def mutex_consistent_def check_if_valid_def
      lock_internal_def lock_contended_def kpr_mutex_unlock_def take_mutex_def counted_def uncounted_def Let_def
      split: if_split_asm mutex_type.splits)

lemma reachable_init:
  assumes "mutex_init m0 attr = Return Ok m" "mutex_step\<^sup>*\<^sup>* (mutex_start m) s"
  shows "m_init (s_mutex s) = KPR_OTHER_INIT"
  using assms(2)
proof (induction rule: rtranclp_induct)
  case base
  then show ?case using assms(1) by (auto simp: mutex_init_def mutex_start_def Let_def split: if_split_asm option.splits)
qed (rule step_init)

text \<open>
  C38. A robust mutex that was not made consistent must not be usable any more. In every reachable state with such
  a mutex that is free, \<^verbatim>\<open>pthread_mutex_lock\<close> and \<^verbatim>\<open>pthread_mutex_trylock\<close> refuse it to every caller with \<^verbatim>\<open>EINVAL\<close>.
  But every thread that was waiting and has been woken can get it with result 0, because it tests \<^verbatim>\<open>acquired == 0\<close> before the
  state, and the mutex is then held although it is still unusable.
\<close>

theorem mutex_unusable_taken:
  assumes "mutex_init m0 attr = Return Ok m" "mutex_step\<^sup>*\<^sup>* (mutex_start m) s"
    and "m_robust (s_mutex s) = PTHREAD_MUTEX_ROBUST" "m_robust_state (s_mutex s) = KPR_MUTEX_UNUSABLE"
    and "m_acquired (s_mutex s) = 0" "s_lock s = None"
  shows "mutex_lock (s_dead s) t (s_mutex s) = Return EINVAL (s_mutex s)
    \<and> mutex_trylock (s_dead s) t (s_mutex s) = Return EINVAL (s_mutex s)
    \<and> (t \<in> s_woken s \<longrightarrow> lock_resume (s_dead s) t (s_mutex s) = Return Ok (take_mutex t (s_mutex s))
        \<and> (\<exists>s'. mutex_step s s' \<and> m_holder (s_mutex s') = Some t \<and> s_count s' t = 1
              \<and> m_robust_state (s_mutex s') = KPR_MUTEX_UNUSABLE))"
proof -
  note i = mutex_invD [OF reachable_inv [OF assms(1,2)]]
  have "\<not> kpr_mutex_default (s_mutex s)" using assms(3) by (simp add: kpr_mutex_default_def)
  then have "mutex_lock (s_dead s) t (s_mutex s) = Return EINVAL (s_mutex s)" "mutex_trylock (s_dead s) t (s_mutex s) = Return EINVAL (s_mutex s)"
    using reachable_init [OF assms(1,2)] assms(3,4) by (simp_all add: mutex_lock_def mutex_trylock_def check_if_valid_def lock_internal_def)
  moreover have r: "lock_resume (s_dead s) t (s_mutex s) = Return Ok (take_mutex t (s_mutex s))"
    using assms(5) by (simp add: lock_resume_def)
  moreover have "\<exists>s'. mutex_step s s' \<and> m_holder (s_mutex s') = Some t \<and> s_count s' t = 1 \<and> m_robust_state (s_mutex s') = KPR_MUTEX_UNUSABLE"
    if t: "t \<in> s_woken s"
  proof -
    have "s_count s t = 0" using i(2,5) t by simp
    then show ?thesis using mutex_step.st_resume [OF t assms(6) r] assms(4)
      by (intro exI conjI) (assumption, auto simp: take_mutex_def counted_def)
  qed
  ultimately show ?thesis by blast
qed

theorem mutex_unusable_taken_witness:
  "\<exists>s s'. mutex_step\<^sup>*\<^sup>* (mutex_start ex_robust) s \<and> mutex_lock (s_dead s) 3 (s_mutex s) = Return EINVAL (s_mutex s)
    \<and> mutex_step s s' \<and> m_holder (s_mutex s') = Some 3 \<and> m_robust_state (s_mutex s') = KPR_MUTEX_UNUSABLE"
proof -
  let ?s = "ex_waiting\<lparr>s_mutex := ex_robust\<lparr>m_robust_state := KPR_MUTEX_UNUSABLE\<rparr>, s_waiting := {4}, s_woken := {3},
       s_count := (\<lambda>_. 0)(1 := 1, 2 := 0)\<rparr>"
  have "m_robust (s_mutex ?s) = PTHREAD_MUTEX_ROBUST" "m_robust_state (s_mutex ?s) = KPR_MUTEX_UNUSABLE"
      "m_acquired (s_mutex ?s) = 0" "s_lock ?s = None" "3 \<in> s_woken ?s"
    by (simp_all add: ex_waiting_def ex_robust_def ex_raw_def)
  note T = mutex_unusable_taken [OF ex_robust_init ex_two_waiting_reachable this(1-4), of 3] and w = this(5)
  from T [THEN conjunct2, THEN conjunct2, rule_format, OF w] obtain s' where
    "mutex_step ?s s'" "m_holder (s_mutex s') = Some 3" "m_robust_state (s_mutex s') = KPR_MUTEX_UNUSABLE" by (elim conjE exE)
  with T [THEN conjunct1] ex_two_waiting_reachable show ?thesis by (intro exI conjI)
qed

text \<open>
  A recursive mutex counts: a thread that holds it less than \<open>INT_MAX\<close> times and is able to lock it gets it again, and the
  matching unlock restores the mutex exactly, without waking anybody.
\<close>

theorem mutex_recursive_roundtrip:
  assumes "m_init m = KPR_OTHER_INIT" "m_type m = PTHREAD_MUTEX_RECURSIVE" "m_holder m = Some t" "m_acquired m > 0"
    and "m_robust_state m \<noteq> KPR_MUTEX_UNUSABLE" "m_acquired m \<noteq> INT_MAX"
  shows "\<exists>n. mutex_lock dead t m = Return Ok n \<and> m_acquired n = m_acquired m + 1 \<and> mutex_unlock t n = (Return Ok m, False)"
  using assms
  by (simp add: mutex_lock_def mutex_unlock_def check_if_valid_def kpr_mutex_default_def lock_internal_def kpr_mutex_unlock_def)

theorem mutex_recursive_roundtrip_witness:
  "\<exists>n. mutex_lock {} 1 (ex_robust\<lparr>m_type := PTHREAD_MUTEX_RECURSIVE, m_holder := Some 1, m_acquired := 2\<rparr>) = Return Ok n
    \<and> m_acquired n = 3"
  using mutex_recursive_roundtrip [of "ex_robust\<lparr>m_type := PTHREAD_MUTEX_RECURSIVE, m_holder := Some 1, m_acquired := 2\<rparr>" 1 "{}"]
  by (auto simp: ex_robust_def ex_raw_def INT_MAX_def)

end
