(* ===== verification/Pthread_Sync.thy ===== *)
theory Pthread_Sync
  imports Pthread_Mutex
begin

text \<open>
  \<^verbatim>\<open>runtime/POSIX/pthread/semaphore.c\<close>, \<^verbatim>\<open>rwlock.c\<close> and \<^verbatim>\<open>barrier.c\<close>: the other blocking objects of the pthread
  runtime. Each has a lock and a condition variable. The code of an operation between taking the lock and
  releasing it, or waiting on the condition variable, is one step; the locks of rwlocks and barriers are
  basic pthread mutexes, which exclude each other by the results of \<^verbatim>\<open>Pthread_Mutex\<close>. One step
  relation, the monitor, interleaves the steps of all threads for the three objects.
  The functions \<^verbatim>\<open>pthread_cond_wait\<close> and \<^verbatim>\<open>pthread_cond_broadcast\<close> of \<^verbatim>\<open>cond.c\<close>, which rwlocks and barriers call, are not
  expanded: waiting releases the lock and sleeps in one step, and a broadcast wakes all sleeping threads.
\<close>

section \<open>Monitors\<close>

datatype signal = No_Signal | Signal_One | Broadcast

text \<open>How a step ends; \<open>Fails\<close> stands for \<^verbatim>\<open>klee_report_error\<close>, which ends the path.\<close>

datatype ('o, 'r) step_result = Returns 'r 'o signal | Waits 'o | Fails

record ('o, 'op) monitor =
  mon_obj :: 'o
  mon_waiting :: "(pthread \<times> 'op) list"
  mon_woken :: "(pthread \<times> 'op) list"

inductive wake :: "signal \<Rightarrow> 'w list \<Rightarrow> 'w list \<Rightarrow> 'w list \<Rightarrow> 'w list \<Rightarrow> bool" where
  wake_no: "wake No_Signal ws vs ws vs"
| wake_none: "wake Signal_One [] vs [] vs"
| wake_one: "w \<in> set ws \<Longrightarrow> wake Signal_One ws vs (remove1 w ws) (w # vs)"
| wake_all: "wake Broadcast ws vs [] (ws @ vs)"

inductive_cases wake_cases: "wake sg ws vs ws' vs'"

text \<open>
  \<open>call\<close> is an operation up to its first wait, \<open>resume\<close> what follows a wait. The label of a step is the operation
  that returned in it, with its result.
\<close>

inductive mon_step :: "('op \<Rightarrow> pthread \<Rightarrow> 'o \<Rightarrow> ('o, 'r) step_result) \<Rightarrow> ('op \<Rightarrow> pthread \<Rightarrow> 'o \<Rightarrow> ('o, 'r) step_result)
    \<Rightarrow> ('o, 'op) monitor \<Rightarrow> ('op \<times> 'r) option \<Rightarrow> ('o, 'op) monitor \<Rightarrow> bool"
  for call resume where
  call_return: "t \<notin> fst ` set (mon_waiting s @ mon_woken s) \<Longrightarrow> call op t (mon_obj s) = Returns r x sg
    \<Longrightarrow> wake sg (mon_waiting s) (mon_woken s) ws vs
    \<Longrightarrow> mon_step call resume s (Some (op, r)) \<lparr>mon_obj = x, mon_waiting = ws, mon_woken = vs\<rparr>"
| call_wait: "t \<notin> fst ` set (mon_waiting s @ mon_woken s) \<Longrightarrow> call op t (mon_obj s) = Waits x
    \<Longrightarrow> mon_step call resume s None \<lparr>mon_obj = x, mon_waiting = (t, op) # mon_waiting s, mon_woken = mon_woken s\<rparr>"
| resume_return: "(t, op) \<in> set (mon_woken s) \<Longrightarrow> resume op t (mon_obj s) = Returns r x sg
    \<Longrightarrow> wake sg (mon_waiting s) (remove1 (t, op) (mon_woken s)) ws vs
    \<Longrightarrow> mon_step call resume s (Some (op, r)) \<lparr>mon_obj = x, mon_waiting = ws, mon_woken = vs\<rparr>"
| resume_wait: "(t, op) \<in> set (mon_woken s) \<Longrightarrow> resume op t (mon_obj s) = Waits x
    \<Longrightarrow> mon_step call resume s None
      \<lparr>mon_obj = x, mon_waiting = (t, op) # mon_waiting s, mon_woken = remove1 (t, op) (mon_woken s)\<rparr>"

text \<open>Runs from a fresh object, with the operations that have returned, last one first.\<close>

inductive mon_run :: "('op \<Rightarrow> pthread \<Rightarrow> 'o \<Rightarrow> ('o, 'r) step_result) \<Rightarrow> ('op \<Rightarrow> pthread \<Rightarrow> 'o \<Rightarrow> ('o, 'r) step_result)
    \<Rightarrow> 'o \<Rightarrow> ('op \<times> 'r) list \<Rightarrow> ('o, 'op) monitor \<Rightarrow> bool"
  for call resume x where
  run_start: "mon_run call resume x [] \<lparr>mon_obj = x, mon_waiting = [], mon_woken = []\<rparr>"
| run_step: "mon_run call resume x tr s \<Longrightarrow> mon_step call resume s l s'
    \<Longrightarrow> mon_run call resume x ((case l of None \<Rightarrow> tr | Some e \<Rightarrow> e # tr)) s'"

text \<open>The contract of a monitor: an invariant of the object, its threads and the history that each step keeps.\<close>

locale monitor_invariant =
  fixes call resume :: "'op \<Rightarrow> pthread \<Rightarrow> 'o \<Rightarrow> ('o, 'r) step_result"
    and start :: 'o
    and inv :: "('op \<times> 'r) list \<Rightarrow> ('o, 'op) monitor \<Rightarrow> bool"
  assumes inv_start: "inv [] \<lparr>mon_obj = start, mon_waiting = [], mon_woken = []\<rparr>"
    and inv_call_return: "inv tr s \<Longrightarrow> call op t (mon_obj s) = Returns r x sg \<Longrightarrow> wake sg (mon_waiting s) (mon_woken s) ws vs
      \<Longrightarrow> inv ((op, r) # tr) \<lparr>mon_obj = x, mon_waiting = ws, mon_woken = vs\<rparr>"
    and inv_call_wait: "inv tr s \<Longrightarrow> call op t (mon_obj s) = Waits x
      \<Longrightarrow> inv tr \<lparr>mon_obj = x, mon_waiting = (t, op) # mon_waiting s, mon_woken = mon_woken s\<rparr>"
    and inv_resume_return: "inv tr s \<Longrightarrow> (t, op) \<in> set (mon_woken s) \<Longrightarrow> resume op t (mon_obj s) = Returns r x sg
      \<Longrightarrow> wake sg (mon_waiting s) (remove1 (t, op) (mon_woken s)) ws vs
      \<Longrightarrow> inv ((op, r) # tr) \<lparr>mon_obj = x, mon_waiting = ws, mon_woken = vs\<rparr>"
    and inv_resume_wait: "inv tr s \<Longrightarrow> (t, op) \<in> set (mon_woken s) \<Longrightarrow> resume op t (mon_obj s) = Waits x
      \<Longrightarrow> inv tr \<lparr>mon_obj = x, mon_waiting = (t, op) # mon_waiting s, mon_woken = remove1 (t, op) (mon_woken s)\<rparr>"
begin

lemma inv_step: "mon_step call resume s l s' \<Longrightarrow> inv tr s \<Longrightarrow> inv (case l of None \<Rightarrow> tr | Some e \<Rightarrow> e # tr) s'"
  by (induction rule: mon_step.induct)
    (auto intro: inv_call_return inv_call_wait inv_resume_return inv_resume_wait)

theorem inv_run: "mon_run call resume start tr s \<Longrightarrow> inv tr s"
  by (induction rule: mon_run.induct) (auto intro: inv_start inv_step)

end

text \<open>\<^verbatim>\<open>kpr_check_if_valid\<close> on the pattern of any object.\<close>

definition valid_pattern :: "init_pattern \<Rightarrow> bool" where
  "valid_pattern p \<longleftrightarrow> p = KPR_OTHER_INIT \<or> p = KPR_ZERO_INIT"

section \<open>Semaphores\<close>

record sem =
  sem_magic :: init_pattern
  sem_value :: int
  sem_name :: "nat option"
  sem_waitingCount :: nat

datatype sem_errno = SEM_OK | SEM_EINVAL | SEM_EBUSY | SEM_EAGAIN | SEM_EOVERFLOW | SEM_VALUE int

datatype sem_request = Sem_Wait | Sem_Trywait | Sem_Post | Sem_Getvalue

definition SEM_VALUE_MAX :: int where
  "SEM_VALUE_MAX = 32767"

text \<open>\<^verbatim>\<open>sem_init\<close>; a name is the address of the string, and unnamed semaphores have none.\<close>

definition kpr_sem_init :: "sem \<Rightarrow> int \<Rightarrow> sem option" where
  "kpr_sem_init s v =
     (if sem_magic s = KPR_OTHER_INIT then None
      else Some (s\<lparr>sem_magic := KPR_OTHER_INIT, sem_value := v, sem_name := None, sem_waitingCount := 0\<rparr>))"

definition sem_init :: "sem \<Rightarrow> int \<Rightarrow> (sem_errno \<times> sem) option" where
  "sem_init s v = (if v > SEM_VALUE_MAX then Some (SEM_EINVAL, s) else map_option (Pair SEM_OK) (kpr_sem_init s v))"

definition sem_destroy :: "sem \<Rightarrow> (sem_errno \<times> sem) option" where
  "sem_destroy s =
     (if \<not> valid_pattern (sem_magic s) then None
      else let s = s\<lparr>sem_magic := KPR_OTHER_INIT\<rparr> in
      if sem_waitingCount s > 0 then Some (SEM_EBUSY, s)
      else if sem_name s \<noteq> None then Some (SEM_EINVAL, s)
      else Some (SEM_OK, s\<lparr>sem_magic := KPR_RANDOM_INIT\<rparr>))"

definition kpr_sem_trywait :: "sem \<Rightarrow> sem_errno \<times> sem" where
  "kpr_sem_trywait s = (if sem_value s \<le> 0 then (SEM_EAGAIN, s) else (SEM_OK, s\<lparr>sem_value := sem_value s - 1\<rparr>))"

text \<open>One round of the loop in \<^verbatim>\<open>sem_wait\<close>.\<close>

definition sem_wait_round :: "sem \<Rightarrow> (sem, sem_errno) step_result" where
  "sem_wait_round s =
     (case kpr_sem_trywait s of (r, s') \<Rightarrow>
        if r = SEM_EAGAIN then Waits (s'\<lparr>sem_waitingCount := sem_waitingCount s' + 1\<rparr>) else Returns r s' No_Signal)"

definition sem_trywait :: "sem \<Rightarrow> (sem, sem_errno) step_result" where
  "sem_trywait s = (case kpr_sem_trywait s of (r, s') \<Rightarrow> Returns r s' No_Signal)"

definition sem_post :: "sem \<Rightarrow> (sem, sem_errno) step_result" where
  "sem_post s =
     (if sem_value s = SEM_VALUE_MAX then Returns SEM_EOVERFLOW s No_Signal
      else
        let s = s\<lparr>sem_value := sem_value s + 1\<rparr> in
        if sem_value s > 0 \<and> sem_waitingCount s > 0
        then Returns SEM_OK (s\<lparr>sem_waitingCount := sem_waitingCount s - 1\<rparr>) Signal_One
        else Returns SEM_OK s No_Signal)"

fun sem_body :: "sem_request \<Rightarrow> sem \<Rightarrow> (sem, sem_errno) step_result" where
  "sem_body op s =
     (case op of
        Sem_Wait \<Rightarrow> sem_wait_round s
      | Sem_Trywait \<Rightarrow> sem_trywait s
      | Sem_Post \<Rightarrow> sem_post s
      | Sem_Getvalue \<Rightarrow> Returns (SEM_VALUE (sem_value s)) s No_Signal)"

fun sem_call :: "sem_request \<Rightarrow> pthread \<Rightarrow> sem \<Rightarrow> (sem, sem_errno) step_result" where
  "sem_call op t s = (if \<not> valid_pattern (sem_magic s) then Fails else sem_body op (s\<lparr>sem_magic := KPR_OTHER_INIT\<rparr>))"

fun sem_resume :: "sem_request \<Rightarrow> pthread \<Rightarrow> sem \<Rightarrow> (sem, sem_errno) step_result" where
  "sem_resume op t s = sem_wait_round s"

text \<open>
  The value counts the posts that no wait has taken. While threads sleep, every unit of the value has a woken
  thread that is about to take it.
\<close>

definition sem_taken :: "(sem_request \<times> sem_errno) list \<Rightarrow> nat" where
  "sem_taken tr = length (filter (\<lambda>(op, r). op \<in> {Sem_Wait, Sem_Trywait} \<and> r = SEM_OK) tr)"

definition sem_posted :: "(sem_request \<times> sem_errno) list \<Rightarrow> nat" where
  "sem_posted tr = length (filter (\<lambda>(op, r). op = Sem_Post \<and> r = SEM_OK) tr)"

definition sem_inv :: "int \<Rightarrow> (sem_request \<times> sem_errno) list \<Rightarrow> (sem, sem_request) monitor \<Rightarrow> bool" where
  "sem_inv v tr s \<longleftrightarrow>
     0 \<le> sem_value (mon_obj s) \<and> sem_value (mon_obj s) \<le> SEM_VALUE_MAX
     \<and> sem_value (mon_obj s) + int (sem_taken tr) = v + int (sem_posted tr)
     \<and> sem_waitingCount (mon_obj s) = length (mon_waiting s)
     \<and> (mon_waiting s \<noteq> [] \<longrightarrow> sem_value (mon_obj s) \<le> int (length (mon_woken s)))
     \<and> (\<forall>x \<in> set (mon_waiting s @ mon_woken s). snd x = Sem_Wait)"

lemma sem_counts [simp]:
  "sem_taken [] = 0" "sem_posted [] = 0"
  "sem_taken ((op, r) # tr) = (if op \<in> {Sem_Wait, Sem_Trywait} \<and> r = SEM_OK then 1 else 0) + sem_taken tr"
  "sem_posted ((op, r) # tr) = (if op = Sem_Post \<and> r = SEM_OK then 1 else 0) + sem_posted tr"
  by (auto simp: sem_taken_def sem_posted_def)

lemmas sem_defs = sem_wait_round_def sem_trywait_def sem_post_def kpr_sem_trywait_def Let_def

definition fresh_sem :: "int \<Rightarrow> sem" where
  "fresh_sem v = \<lparr>sem_magic = KPR_OTHER_INIT, sem_value = v, sem_name = None, sem_waitingCount = 0\<rparr>"

lemma sem_init_fresh:
  "sem_magic s \<noteq> KPR_OTHER_INIT \<Longrightarrow> v \<le> SEM_VALUE_MAX \<Longrightarrow> sem_init s v = Some (SEM_OK, fresh_sem v)"
  by (cases s) (simp add: sem_init_def kpr_sem_init_def fresh_sem_def)

lemma sem_wait_round_cases:
  "sem_wait_round x = Returns r y sg \<Longrightarrow> r = SEM_OK \<and> sg = No_Signal \<and> 0 < sem_value x \<and> y = x\<lparr>sem_value := sem_value x - 1\<rparr>"
  "sem_wait_round x = Waits y \<Longrightarrow> sem_value x \<le> 0 \<and> y = x\<lparr>sem_waitingCount := sem_waitingCount x + 1\<rparr>"
  by (auto simp: sem_defs split: if_splits)

lemma sem_round_returns:
  assumes "sem_inv v tr s" "sem_wait_round (mon_obj s) = Returns r x sg" "op = Sem_Wait \<or> op = Sem_Trywait"
    "wake sg (mon_waiting s) vs ws us" "set vs \<subseteq> set (mon_woken s)" "length (mon_woken s) \<le> Suc (length vs)"
  shows "sem_inv v ((op, r) # tr) \<lparr>mon_obj = x, mon_waiting = ws, mon_woken = us\<rparr>"
  using sem_wait_round_cases(1) [OF assms(2)] assms(1,3-6) by (auto simp: sem_inv_def elim!: wake_cases)

lemma sem_round_waits:
  assumes "sem_inv v tr s" "sem_wait_round (mon_obj s) = Waits x" "set vs \<subseteq> set (mon_woken s)"
  shows "sem_inv v tr \<lparr>mon_obj = x, mon_waiting = (t, Sem_Wait) # mon_waiting s, mon_woken = vs\<rparr>"
  using sem_wait_round_cases(2) [OF assms(2)] assms(1,3) by (auto simp: sem_inv_def)

lemma sem_trywait_round:
  "sem_trywait x = Returns r y sg \<Longrightarrow> (r = SEM_EAGAIN \<and> y = x \<and> sg = No_Signal) \<or> sem_wait_round x = Returns r y sg"
  by (auto simp: sem_defs split: if_splits)

lemma sem_post_returns:
  assumes "sem_inv v tr s" "sem_post (mon_obj s) = Returns r x sg" "wake sg (mon_waiting s) (mon_woken s) ws us"
  shows "sem_inv v ((Sem_Post, r) # tr) \<lparr>mon_obj = x, mon_waiting = ws, mon_woken = us\<rparr>"
proof (cases "mon_waiting s")
  case Nil
  then show ?thesis using assms by (auto simp: sem_inv_def sem_post_def Let_def split: if_splits elim!: wake_cases)
next
  case (Cons w ws')
  then have "length (mon_waiting s) = Suc (length ws')" by simp
  then show ?thesis using assms
    by (auto simp: sem_inv_def sem_post_def Let_def length_remove1 split: if_splits elim!: wake_cases dest!: subsetD [OF set_remove1_subset])
qed

lemma sem_no_effect:
  assumes "sem_inv v tr s" "r \<noteq> SEM_OK" "wake No_Signal (mon_waiting s) (mon_woken s) ws us"
  shows "sem_inv v ((op, r) # tr) \<lparr>mon_obj = mon_obj s, mon_waiting = ws, mon_woken = us\<rparr>"
  using assms by (auto simp: sem_inv_def elim!: wake_cases)

lemma sem_body_returns:
  assumes i: "sem_inv v tr s" and c: "sem_body op (mon_obj s) = Returns r x sg"
    and w: "wake sg (mon_waiting s) (mon_woken s) ws us"
  shows "sem_inv v ((op, r) # tr) \<lparr>mon_obj = x, mon_waiting = ws, mon_woken = us\<rparr>"
proof (cases op)
  case Sem_Wait
  then have "sem_wait_round (mon_obj s) = Returns r x sg" using c by (simp split: if_splits)
  then show ?thesis using sem_round_returns [OF i _ _ w] Sem_Wait by simp
next
  case Sem_Trywait
  then have "sem_trywait (mon_obj s) = Returns r x sg" using c by (simp split: if_splits)
  then consider "r = SEM_EAGAIN" "x = mon_obj s" "sg = No_Signal" | "sem_wait_round (mon_obj s) = Returns r x sg"
    using sem_trywait_round by blast
  then show ?thesis
  proof cases
    case 1
    then show ?thesis using sem_no_effect [OF i, of r ws us op] w by simp
  next
    case 2
    then show ?thesis using sem_round_returns [OF i _ _ w] Sem_Trywait by simp
  qed
next
  case Sem_Post
  then show ?thesis using sem_post_returns [OF i _ w] c by (simp split: if_splits)
next
  case Sem_Getvalue
  then show ?thesis using sem_no_effect [OF i, of r ws us op] c w by (auto split: if_splits)
qed

lemma sem_body_waits:
  assumes "sem_inv v tr s" "sem_body op (mon_obj s) = Waits x"
  shows "sem_inv v tr \<lparr>mon_obj = x, mon_waiting = (t, op) # mon_waiting s, mon_woken = mon_woken s\<rparr>"
proof -
  have "op = Sem_Wait" "sem_wait_round (mon_obj s) = Waits x"
    using assms(2) by (cases op; auto simp: sem_trywait_def sem_post_def Let_def split: if_splits prod.splits)+
  then show ?thesis using sem_round_waits [OF assms(1)] by simp
qed

lemma sem_inv_magic: "sem_inv v tr (s\<lparr>mon_obj := (mon_obj s)\<lparr>sem_magic := m\<rparr>\<rparr>) = sem_inv v tr s"
  by (simp add: sem_inv_def)

lemma sem_call_returns:
  assumes "sem_inv v tr s" "sem_call op t (mon_obj s) = Returns r x sg" "wake sg (mon_waiting s) (mon_woken s) ws us"
  shows "sem_inv v ((op, r) # tr) \<lparr>mon_obj = x, mon_waiting = ws, mon_woken = us\<rparr>"
  using sem_body_returns [of v tr "s\<lparr>mon_obj := (mon_obj s)\<lparr>sem_magic := KPR_OTHER_INIT\<rparr>\<rparr>" op r x sg ws us] assms
  by (simp add: sem_inv_magic del: sem_body.simps split: if_splits)

lemma sem_call_waits:
  assumes "sem_inv v tr s" "sem_call op t (mon_obj s) = Waits x"
  shows "sem_inv v tr \<lparr>mon_obj = x, mon_waiting = (t, op) # mon_waiting s, mon_woken = mon_woken s\<rparr>"
  using sem_body_waits [of v tr "s\<lparr>mon_obj := (mon_obj s)\<lparr>sem_magic := KPR_OTHER_INIT\<rparr>\<rparr>" op x t] assms
  by (simp add: sem_inv_magic del: sem_body.simps split: if_splits)

lemma sem_woken_op:
  assumes "sem_inv v tr s" "(t, op) \<in> set (mon_woken s)"
  shows "op = Sem_Wait"
proof -
  have "\<forall>x \<in> set (mon_woken s). snd x = Sem_Wait" using assms(1) by (simp add: sem_inv_def)
  from bspec [OF this assms(2)] show ?thesis by simp
qed

interpretation sm: monitor_invariant sem_call sem_resume "fresh_sem v" "\<lambda>tr s. 0 \<le> v \<and> v \<le> SEM_VALUE_MAX \<longrightarrow> sem_inv v tr s" for v
proof (unfold_locales, goal_cases)
  case 1
  then show ?case by (simp add: fresh_sem_def sem_inv_def)
next
  case (2 tr s op t r x sg ws vs)
  then show ?case using sem_call_returns by blast
next
  case (3 tr s op t x)
  then show ?case using sem_call_waits by blast
next
  case (4 tr s t op r x sg ws vs)
  note o = sem_woken_op [OF _ 4(2)]
  have "sem_inv v ((op, r) # tr) \<lparr>mon_obj = x, mon_waiting = ws, mon_woken = vs\<rparr>" if i: "sem_inv v tr s"
    by (rule sem_round_returns [OF i _ _ 4(4)]) (use 4(2,3) o [OF i] in \<open>auto simp: length_remove1 dest: subsetD [OF set_remove1_subset]\<close>)
  then show ?case using 4(1) by blast
next
  case (5 tr s t op x)
  show ?case using 5 sem_woken_op [OF _ 5(2)] sem_round_waits [of v tr s x "remove1 (t, op) (mon_woken s)" t]
      set_remove1_subset [of "(t, op)" "mon_woken s"] by auto
qed

text \<open>C24. Semaphores count correctly and lose no wake-up. In every interleaving of waits, trywaits, posts and
  getvalues on a semaphore that was initialised with a legal value, the value never becomes negative or exceeds
  \<^verbatim>\<open>SEM_VALUE_MAX\<close> and is the initial value plus the successful posts minus the successful waits, so at most as many
  waits succeed as there were units; \<^verbatim>\<open>waitingCount\<close> is the number of sleeping threads; and while threads sleep, every
  unit of the value has a thread that was woken for it and has not run yet, so no thread sleeps on a free unit.\<close>

theorem sem_counts_and_wakes:
  assumes "0 \<le> v" "v \<le> SEM_VALUE_MAX" "mon_run sem_call sem_resume (fresh_sem v) tr s"
  shows "0 \<le> sem_value (mon_obj s) \<and> sem_value (mon_obj s) \<le> SEM_VALUE_MAX
    \<and> sem_value (mon_obj s) = v + int (sem_posted tr) - int (sem_taken tr)
    \<and> sem_waitingCount (mon_obj s) = length (mon_waiting s)
    \<and> (mon_waiting s \<noteq> [] \<longrightarrow> sem_value (mon_obj s) \<le> int (length (mon_woken s)))"
  using sm.inv_run [OF assms(3)] assms(1,2) by (simp add: sem_inv_def)

text \<open>A thread sleeps on an empty semaphore and is woken by a post.\<close>

lemma ex_sem_run:
  "mon_run sem_call sem_resume (fresh_sem 0) [(Sem_Post, SEM_OK)]
     \<lparr>mon_obj = fresh_sem 1, mon_waiting = [], mon_woken = [(5, Sem_Wait)]\<rparr>"
proof -
  let ?s1 = "\<lparr>mon_obj = (fresh_sem 0)\<lparr>sem_waitingCount := 1\<rparr>, mon_waiting = [(5, Sem_Wait)], mon_woken = []\<rparr>"
  have "mon_step sem_call sem_resume \<lparr>mon_obj = fresh_sem 0, mon_waiting = [], mon_woken = []\<rparr> None ?s1"
    using mon_step.call_wait [of 5 "\<lparr>mon_obj = fresh_sem 0, mon_waiting = [], mon_woken = []\<rparr>" sem_call Sem_Wait]
    by (simp add: fresh_sem_def valid_pattern_def sem_defs)
  from run_step [OF run_start this] have 1: "mon_run sem_call sem_resume (fresh_sem 0) [] ?s1" by simp
  have "wake Signal_One [(5::nat, Sem_Wait)] [] [] [(5, Sem_Wait)]"
    using wake_one [of "(5, Sem_Wait)" "[(5, Sem_Wait)]" "[]"] by simp
  then have "mon_step sem_call sem_resume ?s1 (Some (Sem_Post, SEM_OK))
      \<lparr>mon_obj = fresh_sem 1, mon_waiting = [], mon_woken = [(5, Sem_Wait)]\<rparr>"
    by (intro mon_step.call_return [where t = 6 and sg = Signal_One])
      (simp_all add: fresh_sem_def valid_pattern_def sem_defs SEM_VALUE_MAX_def)
  from run_step [OF 1 this] show ?thesis by simp
qed

theorem sem_counts_and_wakes_witness:
  "sem_value (fresh_sem 1) = 0 + int (sem_posted [(Sem_Post, SEM_OK)]) - int (sem_taken [(Sem_Post, SEM_OK)])"
  using sem_counts_and_wakes [OF _ _ ex_sem_run] by (simp add: SEM_VALUE_MAX_def)

section \<open>Reader-writer locks\<close>

record rwlock =
  rw_magic :: init_pattern
  rw_acquiredWriter :: "pthread option"
  rw_acquiredReaderCount :: nat

datatype rw_errno = RW_OK | RW_EDEADLK | RW_EBUSY | RW_INVALID

datatype rw_op = Rdlock | Tryrdlock | Wrlock | Trywrlock | Unlock

definition rwlock_init :: "rwlock \<Rightarrow> (rw_errno \<times> rwlock) option" where
  "rwlock_init l =
     (if rw_magic l = KPR_OTHER_INIT then None
      else Some (RW_OK, l\<lparr>rw_magic := KPR_OTHER_INIT, rw_acquiredWriter := None, rw_acquiredReaderCount := 0\<rparr>))"

definition rwlock_destroy :: "rwlock \<Rightarrow> (rw_errno \<times> rwlock) option" where
  "rwlock_destroy l =
     (if \<not> valid_pattern (rw_magic l) then None
      else let l = l\<lparr>rw_magic := KPR_OTHER_INIT\<rparr> in
      if rw_acquiredReaderCount l \<noteq> 0 \<or> rw_acquiredWriter l \<noteq> None then Some (RW_EBUSY, l)
      else Some (RW_OK, l\<lparr>rw_magic := KPR_RANDOM_INIT\<rparr>))"

definition rwlock_tryrdlock :: "pthread \<Rightarrow> rwlock \<Rightarrow> rw_errno \<times> rwlock" where
  "rwlock_tryrdlock self l =
     (case rw_acquiredWriter l of
        Some w \<Rightarrow> (if w = self then RW_EDEADLK else RW_EBUSY, l)
      | None \<Rightarrow> (RW_OK, l\<lparr>rw_acquiredReaderCount := rw_acquiredReaderCount l + 1\<rparr>))"

definition rwlock_trywrlock :: "pthread \<Rightarrow> rwlock \<Rightarrow> rw_errno \<times> rwlock" where
  "rwlock_trywrlock self l =
     (case rw_acquiredWriter l of
        Some w \<Rightarrow> (if w = self then RW_EDEADLK else RW_EBUSY, l)
      | None \<Rightarrow>
          if rw_acquiredReaderCount l > 0 then (RW_EBUSY, l)
          else (RW_OK, l\<lparr>rw_acquiredWriter := Some self\<rparr>))"

text \<open>The loops of \<^verbatim>\<open>pthread_rwlock_rdlock\<close> and \<^verbatim>\<open>pthread_rwlock_wrlock\<close>: wait while the lock is busy.\<close>

definition rw_round :: "rw_errno \<times> rwlock \<Rightarrow> (rwlock, rw_errno) step_result" where
  "rw_round p = (case p of (r, l) \<Rightarrow> if r = RW_EBUSY then Waits l else Returns r l No_Signal)"

definition rwlock_unlock :: "pthread \<Rightarrow> rwlock \<Rightarrow> (rwlock, rw_errno) step_result" where
  "rwlock_unlock self l =
     (if rw_acquiredWriter l = Some self then Returns RW_OK (l\<lparr>rw_acquiredWriter := None\<rparr>) Broadcast
      else if rw_acquiredReaderCount l > 0 then
        let l = l\<lparr>rw_acquiredReaderCount := rw_acquiredReaderCount l - 1\<rparr> in
        Returns RW_OK l (if rw_acquiredReaderCount l = 0 then Broadcast else No_Signal)
      else Returns RW_INVALID l No_Signal)"

fun rw_resume :: "rw_op \<Rightarrow> pthread \<Rightarrow> rwlock \<Rightarrow> (rwlock, rw_errno) step_result" where
  "rw_resume op t l = rw_round (if op = Rdlock then rwlock_tryrdlock t l else rwlock_trywrlock t l)"

fun rw_call :: "rw_op \<Rightarrow> pthread \<Rightarrow> rwlock \<Rightarrow> (rwlock, rw_errno) step_result" where
  "rw_call op t l =
     (if \<not> valid_pattern (rw_magic l) then Fails
      else let l = l\<lparr>rw_magic := KPR_OTHER_INIT\<rparr> in case op of
        Rdlock \<Rightarrow> rw_round (rwlock_tryrdlock t l)
      | Wrlock \<Rightarrow> rw_round (rwlock_trywrlock t l)
      | Tryrdlock \<Rightarrow> (case rwlock_tryrdlock t l of (r, l) \<Rightarrow> Returns r l No_Signal)
      | Trywrlock \<Rightarrow> (case rwlock_trywrlock t l of (r, l) \<Rightarrow> Returns r l No_Signal)
      | Unlock \<Rightarrow> rwlock_unlock t l)"

definition rw_held :: "rwlock \<Rightarrow> bool" where
  "rw_held l \<longleftrightarrow> rw_acquiredWriter l \<noteq> None \<or> rw_acquiredReaderCount l > 0"

definition rw_inv :: "(rwlock, rw_op) monitor \<Rightarrow> bool" where
  "rw_inv s \<longleftrightarrow> (rw_acquiredWriter (mon_obj s) = None \<or> rw_acquiredReaderCount (mon_obj s) = 0)
     \<and> (mon_waiting s \<noteq> [] \<longrightarrow> rw_held (mon_obj s))"

definition fresh_rwlock :: rwlock where
  "fresh_rwlock = \<lparr>rw_magic = KPR_OTHER_INIT, rw_acquiredWriter = None, rw_acquiredReaderCount = 0\<rparr>"

lemma rwlock_init_fresh: "rw_magic l \<noteq> KPR_OTHER_INIT \<Longrightarrow> rwlock_init l = Some (RW_OK, fresh_rwlock)"
  by (cases l) (simp add: rwlock_init_def fresh_rwlock_def)

lemmas rw_defs = rw_round_def rwlock_tryrdlock_def rwlock_trywrlock_def rwlock_unlock_def rw_held_def rw_inv_def Let_def

interpretation rw: monitor_invariant rw_call rw_resume fresh_rwlock "\<lambda>tr. rw_inv"
proof (unfold_locales, goal_cases)
  case 1
  then show ?case by (simp add: fresh_rwlock_def rw_inv_def)
next
  case (2 tr s op t r x sg ws vs)
  then show ?case by (cases op) (auto simp: rw_defs split: if_splits option.splits elim!: wake_cases)
next
  case (3 tr s op t x)
  then show ?case by (cases op) (auto simp: rw_defs split: if_splits option.splits)
next
  case (4 tr s t op r x sg ws vs)
  then show ?case by (cases op) (auto simp: rw_defs split: if_splits option.splits elim!: wake_cases)
next
  case (5 tr s t op x)
  then show ?case by (cases op) (auto simp: rw_defs split: if_splits option.splits)
qed

text \<open>C13. Reader-writer locks exclude and lose no wake-up. In every interleaving of read locks, write locks, their
  try versions and unlocks, a writer and readers never hold the lock together, and whenever a thread sleeps the lock
  is held, so the unlock that frees it is still to come and wakes every sleeping thread.\<close>

theorem rwlock_exclusion:
  assumes "mon_run rw_call rw_resume fresh_rwlock tr s"
  shows "(rw_acquiredWriter (mon_obj s) = None \<or> rw_acquiredReaderCount (mon_obj s) = 0)
    \<and> (mon_waiting s \<noteq> [] \<longrightarrow> rw_held (mon_obj s))
    \<and> (\<forall>t x sg. rw_call Unlock t (mon_obj s) = Returns RW_OK x sg \<and> \<not> rw_held x \<longrightarrow> sg = Broadcast)"
proof -
  have b: "sg = Broadcast" if "rw_call Unlock t (mon_obj s) = Returns RW_OK x sg" "\<not> rw_held x" for t x sg
    using that by (auto simp: rwlock_unlock_def rw_held_def Let_def split: if_splits)
  note i = rw.inv_run [OF assms, unfolded rw_inv_def]
  show ?thesis
    by (rule conjI [OF i [THEN conjunct1]], rule conjI [OF i [THEN conjunct2]], intro allI impI, elim conjE, rule b)
qed

lemma ex_rw_run:
  "mon_run rw_call rw_resume fresh_rwlock [(Wrlock, RW_OK)]
     \<lparr>mon_obj = fresh_rwlock\<lparr>rw_acquiredWriter := Some 5\<rparr>, mon_waiting = [(6, Rdlock)], mon_woken = []\<rparr>"
proof -
  let ?s1 = "\<lparr>mon_obj = fresh_rwlock\<lparr>rw_acquiredWriter := Some 5\<rparr>, mon_waiting = [], mon_woken = []\<rparr>"
  have "mon_step rw_call rw_resume \<lparr>mon_obj = fresh_rwlock, mon_waiting = [], mon_woken = []\<rparr> (Some (Wrlock, RW_OK)) ?s1"
    by (intro mon_step.call_return [where t = 5 and sg = No_Signal])
      (simp_all add: fresh_rwlock_def valid_pattern_def rw_round_def rwlock_trywrlock_def wake_no)
  from run_step [OF run_start this] have 1: "mon_run rw_call rw_resume fresh_rwlock [(Wrlock, RW_OK)] ?s1" by simp
  have "mon_step rw_call rw_resume ?s1 None
      \<lparr>mon_obj = fresh_rwlock\<lparr>rw_acquiredWriter := Some 5\<rparr>, mon_waiting = [(6, Rdlock)], mon_woken = []\<rparr>"
    using mon_step.call_wait [of 6 ?s1 rw_call Rdlock]
    by (simp add: fresh_rwlock_def valid_pattern_def rw_round_def rwlock_tryrdlock_def)
  from run_step [OF 1 this] show ?thesis by simp
qed

theorem rwlock_exclusion_witness:
  "rw_held (fresh_rwlock\<lparr>rw_acquiredWriter := Some 5\<rparr>) \<and> rw_acquiredReaderCount (fresh_rwlock\<lparr>rw_acquiredWriter := Some 5\<rparr>) = 0"
  using rwlock_exclusion [OF ex_rw_run] by simp

section \<open>Barriers\<close>

record barrier =
  bar_magic :: init_pattern
  bar_count :: nat
  bar_currentCount :: nat

datatype bar_errno = BAR_OK | BAR_SERIAL_THREAD | BAR_EINVAL | BAR_EBUSY

text \<open>\<^verbatim>\<open>pthread_barrier_init\<close> marks the object as initialised before it checks the count.\<close>

definition barrier_init :: "barrier \<Rightarrow> nat \<Rightarrow> (bar_errno \<times> barrier) option" where
  "barrier_init b n =
     (if bar_magic b = KPR_OTHER_INIT then None
      else
        let b = b\<lparr>bar_magic := KPR_OTHER_INIT\<rparr> in
        if n = 0 then Some (BAR_EINVAL, b)
        else Some (BAR_OK, b\<lparr>bar_count := n, bar_currentCount := 0\<rparr>))"

definition barrier_destroy :: "barrier \<Rightarrow> (bar_errno \<times> barrier) option" where
  "barrier_destroy b =
     (if \<not> valid_pattern (bar_magic b) then None
      else let b = b\<lparr>bar_magic := KPR_OTHER_INIT\<rparr> in
      if bar_currentCount b > 0 then Some (BAR_EBUSY, b)
      else Some (BAR_OK, b\<lparr>bar_count := 0, bar_currentCount := 0, bar_magic := KPR_RANDOM_INIT\<rparr>))"

fun barrier_wait :: "unit \<Rightarrow> pthread \<Rightarrow> barrier \<Rightarrow> (barrier, bar_errno) step_result" where
  "barrier_wait op t b =
     (if \<not> valid_pattern (bar_magic b) \<or> bar_count b = 0 then Fails
      else
        let b = b\<lparr>bar_magic := KPR_OTHER_INIT, bar_currentCount := bar_currentCount b + 1\<rparr> in
        if bar_currentCount b = bar_count b
        then Returns BAR_SERIAL_THREAD (b\<lparr>bar_currentCount := 0\<rparr>) Broadcast
        else Waits b)"

text \<open>After the wait \<^verbatim>\<open>pthread_barrier_wait\<close> releases the mutex and returns zero.\<close>

fun barrier_resume :: "unit \<Rightarrow> pthread \<Rightarrow> barrier \<Rightarrow> (barrier, bar_errno) step_result" where
  "barrier_resume op t b = Returns BAR_OK b No_Signal"

definition fresh_barrier :: "nat \<Rightarrow> barrier" where
  "fresh_barrier n = \<lparr>bar_magic = KPR_OTHER_INIT, bar_count = n, bar_currentCount = 0\<rparr>"

lemma barrier_init_fresh: "bar_magic b \<noteq> KPR_OTHER_INIT \<Longrightarrow> 0 < n \<Longrightarrow> barrier_init b n = Some (BAR_OK, fresh_barrier n)"
  by (cases b) (simp add: barrier_init_def fresh_barrier_def Let_def)

definition returned :: "bar_errno \<Rightarrow> (unit \<times> bar_errno) list \<Rightarrow> nat" where
  "returned r tr = length (filter (\<lambda>e. snd e = r) tr)"

text \<open>Every completed round has one serial thread and \<open>n - 1\<close> others, which have returned or are about to.\<close>

definition bar_inv :: "nat \<Rightarrow> (unit \<times> bar_errno) list \<Rightarrow> (barrier, unit) monitor \<Rightarrow> bool" where
  "bar_inv n tr s \<longleftrightarrow> bar_count (mon_obj s) = n \<and> bar_currentCount (mon_obj s) = length (mon_waiting s)
     \<and> length (mon_waiting s) < n
     \<and> returned BAR_OK tr + length (mon_woken s) = (n - 1) * returned BAR_SERIAL_THREAD tr"

lemma returned_simps [simp]: "returned r [] = 0" "returned r ((op, r') # tr) = (if r' = r then 1 else 0) + returned r tr"
  by (simp_all add: returned_def)

interpretation ba: monitor_invariant barrier_wait barrier_resume "fresh_barrier n" "\<lambda>tr s. 0 < n \<longrightarrow> bar_inv n tr s" for n
proof (unfold_locales, goal_cases)
  case 1
  then show ?case by (simp add: fresh_barrier_def bar_inv_def)
next
  case (2 tr s op t r x sg ws vs)
  then show ?case by (auto simp: bar_inv_def Let_def algebra_simps split: if_splits elim!: wake_cases)
next
  case (3 tr s op t x)
  then show ?case by (auto simp: bar_inv_def Let_def split: if_splits)
next
  case (4 tr s t op r x sg ws vs)
  have "length (mon_woken s) = Suc (length (remove1 (t, op) (mon_woken s)))"
    using 4(2) length_pos_if_in_set [OF 4(2)] by (simp add: length_remove1)
  then show ?case using 4 by (auto simp: bar_inv_def elim!: wake_cases)
next
  case (5 tr s t op x)
  then show ?case by simp
qed

text \<open>C25. Barriers release whole rounds. In every interleaving of the threads that use a barrier for \<open>n\<close> threads, fewer
  than \<open>n\<close> threads sleep, each completed round returns the serial value to exactly one thread, and the other
  returns never exceed \<open>n - 1\<close> for each completed round; when no thread sleeps or is being woken, all rounds are
  complete and the number of returns is \<open>n\<close> times the number of rounds.\<close>

theorem barrier_rounds:
  assumes "0 < n" "mon_run barrier_wait barrier_resume (fresh_barrier n) tr s"
  shows "length (mon_waiting s) < n \<and> returned BAR_OK tr \<le> (n - 1) * returned BAR_SERIAL_THREAD tr
    \<and> (mon_woken s = [] \<longrightarrow> returned BAR_OK tr + returned BAR_SERIAL_THREAD tr = n * returned BAR_SERIAL_THREAD tr)"
proof -
  have i: "bar_inv n tr s" using ba.inv_run [OF assms(2)] assms(1) by simp
  obtain m where "n = Suc m" using assms(1) by (cases n) auto
  then show ?thesis using i by (auto simp: bar_inv_def)
qed

lemma ex_barrier_run:
  "mon_run barrier_wait barrier_resume (fresh_barrier 1) [((), BAR_SERIAL_THREAD)]
     \<lparr>mon_obj = fresh_barrier 1, mon_waiting = [], mon_woken = []\<rparr>"
proof -
  have "mon_step barrier_wait barrier_resume \<lparr>mon_obj = fresh_barrier 1, mon_waiting = [], mon_woken = []\<rparr>
      (Some ((), BAR_SERIAL_THREAD)) \<lparr>mon_obj = fresh_barrier 1, mon_waiting = [], mon_woken = []\<rparr>"
    using wake_all [of "[]" "[]"]
    by (intro mon_step.call_return [where t = 5 and sg = Broadcast]) (simp_all add: fresh_barrier_def valid_pattern_def)
  from run_step [OF run_start this] show ?thesis by simp
qed

theorem barrier_rounds_witness:
  "returned BAR_OK [((), BAR_SERIAL_THREAD)] \<le> (1 - 1) * returned BAR_SERIAL_THREAD [((), BAR_SERIAL_THREAD)]"
  using barrier_rounds [OF _ ex_barrier_run] by simp

end
