(* ===== verification/KTest.thy ===== *)
theory KTest
  imports Por_Prelude "HOL-Library.Word" "HOL-Library.Monad_Syntax"
begin

text \<open>
  \<^verbatim>\<open>lib/Basic/KTest.cpp\<close>: the file format of generated test cases. A file is the list of its bytes; reading
  takes bytes from the front and writing appends them, both can fail. \<^verbatim>\<open>fread\<close> and \<^verbatim>\<open>fwrite\<close> with one element of
  size zero return zero by the C standard, so the code takes them for failures. Memory allocation succeeds
  and the medium accepts every write. Shifting a byte into the sign bit in \<^verbatim>\<open>read_uint32\<close> wraps around.
\<close>

unbundle bit_operations_syntax

type_synonym octet = "8 word"
type_synonym uint32 = "32 word"

section \<open>Files\<close>

text \<open>\<^verbatim>\<open>fread(p, n, 1, f)\<close> and \<^verbatim>\<open>fwrite(p, n, 1, f)\<close>.\<close>

definition fread1 :: "nat \<Rightarrow> octet list \<Rightarrow> (octet list \<times> octet list) option" where
  "fread1 n f = (if n = 0 \<or> length f < n then None else Some (take n f, drop n f))"

definition fwrite1 :: "octet list \<Rightarrow> octet list \<Rightarrow> octet list option" where
  "fwrite1 bs f = (if bs = [] then None else Some (f @ bs))"

definition read_uint32 :: "octet list \<Rightarrow> (uint32 \<times> octet list) option" where
  "read_uint32 f = do {
     (data, f) \<leftarrow> fread1 4 f;
     let d = (\<lambda>i. ucast (data ! i) :: uint32);
     Some (push_bit 8 (push_bit 8 (push_bit 8 (d 0) + d 1) + d 2) + d 3, f)
   }"

definition write_uint32 :: "octet list \<Rightarrow> uint32 \<Rightarrow> octet list option" where
  "write_uint32 f v = Some (f @ [ucast (drop_bit 24 v), ucast (drop_bit 16 v), ucast (drop_bit 8 v), ucast v])"

text \<open>Strings are stored without the terminating zero byte; \<^verbatim>\<open>strlen\<close> stops at the first zero byte. For a length
  of \<^verbatim>\<open>UINT_MAX\<close> the argument \<^verbatim>\<open>len+1\<close> of \<^verbatim>\<open>malloc\<close> wraps around to zero and the code goes on to write outside of the
  allocation, which is undefined.\<close>

definition strlen :: "octet list \<Rightarrow> nat" where
  "strlen s = length (takeWhile (\<lambda>c. c \<noteq> 0) s)"

definition read_string :: "octet list \<Rightarrow> (octet list \<times> octet list) option" where
  "read_string f = do { (len, f) \<leftarrow> read_uint32 f; if len + 1 = 0 then None else fread1 (unat len) f }"

definition write_string :: "octet list \<Rightarrow> octet list \<Rightarrow> octet list option" where
  "write_string f s = do {
     let len = of_nat (strlen s);
     f \<leftarrow> write_uint32 f len;
     fwrite1 (take (unat len) s) f
   }"

section \<open>Test cases\<close>

record ktest_object =
  o_name :: "octet list"
  o_bytes :: "octet list"

text \<open>\<^verbatim>\<open>numArgs\<close>, \<^verbatim>\<open>numObjects\<close> and \<^verbatim>\<open>numBytes\<close> are the lengths of the lists.\<close>

record ktest =
  k_version :: uint32
  k_args :: "octet list list"
  k_symArgvs :: uint32
  k_symArgvLen :: uint32
  k_objects :: "ktest_object list"

definition KTEST_VERSION :: uint32 where
  "KTEST_VERSION = 3"

definition bytes_of :: "string \<Rightarrow> octet list" where
  "bytes_of s = map (\<lambda>c. of_nat (of_char c)) s"

definition KTEST_MAGIC :: "octet list" where
  "KTEST_MAGIC = bytes_of ''KTEST''"

definition BOUT_MAGIC :: "octet list" where
  "BOUT_MAGIC = bytes_of ''BOUT'' @ [10]"

definition kTest_checkHeader :: "octet list \<Rightarrow> octet list option" where
  "kTest_checkHeader f = do {
     (header, f) \<leftarrow> fread1 5 f;
     if header \<noteq> KTEST_MAGIC \<and> header \<noteq> BOUT_MAGIC then None else Some f
   }"

definition kTest_isKTestFile :: "octet list \<Rightarrow> bool" where
  "kTest_isKTestFile f \<longleftrightarrow> kTest_checkHeader f \<noteq> None"

text \<open>The loops over arguments and objects.\<close>

fun read_many :: "(octet list \<Rightarrow> ('a \<times> octet list) option) \<Rightarrow> nat \<Rightarrow> octet list \<Rightarrow> ('a list \<times> octet list) option" where
  "read_many rd 0 f = Some ([], f)"
| "read_many rd (Suc n) f = do { (x, f) \<leftarrow> rd f; (xs, f) \<leftarrow> read_many rd n f; Some (x # xs, f) }"

fun write_many :: "(octet list \<Rightarrow> 'a \<Rightarrow> octet list option) \<Rightarrow> octet list \<Rightarrow> 'a list \<Rightarrow> octet list option" where
  "write_many wr f [] = Some f"
| "write_many wr f (x # xs) = do { f \<leftarrow> wr f x; write_many wr f xs }"

definition read_object :: "octet list \<Rightarrow> (ktest_object \<times> octet list) option" where
  "read_object f = do {
     (name, f) \<leftarrow> read_string f;
     (numBytes, f) \<leftarrow> read_uint32 f;
     (bytes, f) \<leftarrow> fread1 (unat numBytes) f;
     Some (\<lparr>o_name = name, o_bytes = bytes\<rparr>, f)
   }"

definition write_object :: "octet list \<Rightarrow> ktest_object \<Rightarrow> octet list option" where
  "write_object f x = do {
     f \<leftarrow> write_string f (o_name x);
     f \<leftarrow> write_uint32 f (of_nat (length (o_bytes x)));
     fwrite1 (o_bytes x) f
   }"

definition read_symArgs :: "uint32 \<Rightarrow> octet list \<Rightarrow> ((uint32 \<times> uint32) \<times> octet list) option" where
  "read_symArgs version f =
     (if version \<ge> 2 then do { (a, f) \<leftarrow> read_uint32 f; (b, f) \<leftarrow> read_uint32 f; Some ((a, b), f) } else Some ((0, 0), f))"

definition kTest_fromFile :: "octet list \<Rightarrow> ktest option" where
  "kTest_fromFile f = do {
     f \<leftarrow> kTest_checkHeader f;
     (version, f) \<leftarrow> read_uint32 f;
     if version > KTEST_VERSION then None else do {
       (numArgs, f) \<leftarrow> read_uint32 f;
       (args, f) \<leftarrow> read_many read_string (unat numArgs) f;
       (sym, f) \<leftarrow> read_symArgs version f;
       (numObjects, f) \<leftarrow> read_uint32 f;
       (objects, f) \<leftarrow> read_many read_object (unat numObjects) f;
       Some \<lparr>k_version = version, k_args = args, k_symArgvs = fst sym, k_symArgvLen = snd sym, k_objects = objects\<rparr>
     }
   }"

definition kTest_toFile :: "ktest \<Rightarrow> octet list option" where
  "kTest_toFile b = do {
     f \<leftarrow> fwrite1 KTEST_MAGIC [];
     f \<leftarrow> write_uint32 f KTEST_VERSION;
     f \<leftarrow> write_uint32 f (of_nat (length (k_args b)));
     f \<leftarrow> write_many write_string f (k_args b);
     f \<leftarrow> write_uint32 f (k_symArgvs b);
     f \<leftarrow> write_uint32 f (k_symArgvLen b);
     f \<leftarrow> write_uint32 f (of_nat (length (k_objects b)));
     write_many write_object f (k_objects b)
   }"

definition kTest_numBytes :: "ktest \<Rightarrow> uint32" where
  "kTest_numBytes b = fold (\<lambda>x res. res + of_nat (length (o_bytes x))) (k_objects b) 0"

section \<open>Round trips\<close>

text \<open>What is written at the end of a file is read back, with the rest of the file untouched.\<close>

definition codec :: "(octet list \<Rightarrow> 'a \<Rightarrow> octet list option) \<Rightarrow> (octet list \<Rightarrow> ('a \<times> octet list) option) \<Rightarrow> 'a \<Rightarrow> bool" where
  "codec wr rd x \<longleftrightarrow> (\<exists>bs. (\<forall>f. wr f x = Some (f @ bs)) \<and> (\<forall>rest. rd (bs @ rest) = Some (x, rest)))"

lemma fread1_append: "bs \<noteq> [] \<Longrightarrow> n = length bs \<Longrightarrow> fread1 n (bs @ rest) = Some (bs, rest)"
  by (simp add: fread1_def)

lemma uint32_bytes:
  "push_bit 8 (push_bit 8 (push_bit 8 (ucast (ucast (drop_bit 24 v) :: octet)) + ucast (ucast (drop_bit 16 v) :: octet))
      + ucast (ucast (drop_bit 8 v) :: octet)) + ucast (ucast v :: octet) = (v :: uint32)"
proof -
  have d: "push_bit 8 a + ucast (b :: octet) = push_bit 8 a OR ucast b" for a :: uint32 and b
    by (rule disjunctive_add) (auto simp: bit_simps dest: bit_imp_le_length)
  show ?thesis unfolding d
  proof (rule bit_word_eqI)
    fix n
    assume "n < LENGTH(32)"
    then consider "n < 8" | "8 \<le> n" "n < 16" | "16 \<le> n" "n < 24" | "24 \<le> n" "n < 32" by force
    then show "bit (push_bit 8 (push_bit 8 (push_bit 8 (ucast (ucast (drop_bit 24 v) :: octet))
        OR ucast (ucast (drop_bit 16 v) :: octet)) OR ucast (ucast (drop_bit 8 v) :: octet)) OR ucast (ucast v :: octet) :: uint32) n = bit v n"
      by cases (auto simp: bit_simps)
  qed
qed

lemma uint32_codec: "codec write_uint32 read_uint32 v"
proof -
  let ?bs = "[ucast (drop_bit 24 v), ucast (drop_bit 16 v), ucast (drop_bit 8 v), ucast v] :: octet list"
  have "read_uint32 (?bs @ rest) = Some (v, rest)" for rest
    unfolding read_uint32_def
    by (subst fread1_append, simp, simp, simp only: Option.bind.bind_lunit prod.case Let_def One_nat_def numeral_2_eq_2
        numeral_3_eq_3 nth_Cons_0 nth_Cons_Suc uint32_bytes)
  then show ?thesis unfolding codec_def write_uint32_def by blast
qed

lemma codec_bind:
  assumes "codec wr rd x"
  obtains bs where "\<And>f. wr f x = Some (f @ bs)" "\<And>rest. rd (bs @ rest) = Some (x, rest)"
  using assms unfolding codec_def by blast

lemma unat_length: "n < 2 ^ 32 \<Longrightarrow> unat (of_nat n :: uint32) = n"
  by (simp add: unat_of_nat)

text \<open>What can be stored: byte lists that are not empty and whose length fits into 32 bits, and strings without
  zero bytes.\<close>

definition storable :: "octet list \<Rightarrow> bool" where
  "storable s \<longleftrightarrow> s \<noteq> [] \<and> length s < 2 ^ 32"

definition storable_string :: "octet list \<Rightarrow> bool" where
  "storable_string s \<longleftrightarrow> s \<noteq> [] \<and> 0 \<notin> set s \<and> length s < 2 ^ 32 - 1"

lemma length_no_wrap: "n < 2 ^ 32 - 1 \<Longrightarrow> (of_nat n :: uint32) + 1 \<noteq> 0"
proof
  assume n: "n < 2 ^ 32 - 1" and "(of_nat n :: uint32) + 1 = 0"
  then have "(of_nat (Suc n) :: uint32) = 0" by (simp add: add.commute)
  then have "unat (of_nat (Suc n) :: uint32) = 0" by simp
  then show False using n unat_length [of "Suc n"] by simp
qed

lemma strlen_string: "0 \<notin> set s \<Longrightarrow> strlen s = length s"
  unfolding strlen_def by (subst takeWhile_eq_all_conv [THEN iffD2]) auto

lemma string_codec:
  assumes s: "storable_string s"
  shows "codec write_string read_string s"
proof -
  obtain bs where bs: "\<And>f. write_uint32 f (of_nat (length s)) = Some (f @ bs)"
      "\<And>rest. read_uint32 (bs @ rest) = Some (of_nat (length s), rest)"
    using codec_bind [OF uint32_codec] by blast
  have n: "unat (of_nat (length s) :: uint32) = length s" "(of_nat (length s) :: uint32) + 1 \<noteq> 0" "strlen s = length s" "s \<noteq> []"
    using s length_no_wrap [of "length s"] by (auto simp: storable_string_def unat_length strlen_string)
  have "write_string f s = Some (f @ bs @ s)" for f
    unfolding write_string_def n(3) Let_def bs(1) using n by (simp add: fwrite1_def)
  moreover have "read_string ((bs @ s) @ rest) = Some (s, rest)" for rest
    using n bs(2) by (simp add: read_string_def fread1_append)
  ultimately show ?thesis unfolding codec_def by blast
qed

lemma object_codec:
  assumes "storable_string (o_name x)" "storable (o_bytes x)"
  shows "codec write_object read_object x"
proof -
  obtain as where a: "\<And>f. write_string f (o_name x) = Some (f @ as)" "\<And>rest. read_string (as @ rest) = Some (o_name x, rest)"
    using codec_bind [OF string_codec [OF assms(1)]] by blast
  obtain bs where b: "\<And>f. write_uint32 f (of_nat (length (o_bytes x))) = Some (f @ bs)"
      "\<And>rest. read_uint32 (bs @ rest) = Some (of_nat (length (o_bytes x)), rest)"
    using codec_bind [OF uint32_codec] by blast
  have "write_object f x = Some (f @ as @ bs @ o_bytes x)" for f
    using assms a(1) b(1) by (simp add: write_object_def fwrite1_def storable_def)
  moreover have "read_object ((as @ bs @ o_bytes x) @ rest) = Some (x, rest)" for rest
    using assms a(2) b(2) by (simp add: read_object_def unat_length storable_def fread1_append)
  ultimately show ?thesis unfolding codec_def by blast
qed

lemma many_codec: "(\<And>x. x \<in> set xs \<Longrightarrow> codec wr rd x) \<Longrightarrow> codec (write_many wr) (read_many rd (length xs)) xs"
proof (induction xs)
  case Nil
  then show ?case by (simp add: codec_def)
next
  case (Cons x xs)
  have "codec wr rd x" "codec (write_many wr) (read_many rd (length xs)) xs" using Cons by simp_all
  then obtain as bs where a: "\<And>f. wr f x = Some (f @ as)" "\<And>rest. rd (as @ rest) = Some (x, rest)"
    and b: "\<And>f. write_many wr f xs = Some (f @ bs)" "\<And>rest. read_many rd (length xs) (bs @ rest) = Some (xs, rest)"
    unfolding codec_def by blast
  have "write_many wr f (x # xs) = Some (f @ as @ bs)" "read_many rd (length (x # xs)) ((as @ bs) @ rest) = Some (x # xs, rest)" for f rest
    using a b by simp_all
  then show ?case unfolding codec_def by blast
qed

definition ktest_ok :: "ktest \<Rightarrow> bool" where
  "ktest_ok b \<longleftrightarrow> length (k_args b) < 2 ^ 32 \<and> length (k_objects b) < 2 ^ 32 \<and> list_all storable_string (k_args b)
     \<and> list_all (\<lambda>x. storable_string (o_name x) \<and> storable (o_bytes x)) (k_objects b)"

text \<open>C22. A test case that was written can be read. \<^verbatim>\<open>kTest_toFile\<close> succeeds on every test case whose arguments, object names
  and object contents are not empty and fit into 32 bits (and have no zero byte inside of a string), and \<^verbatim>\<open>kTest_fromFile\<close> reads the same test case from the
  file, with the current version; the file also has the header that \<^verbatim>\<open>kTest_isKTestFile\<close> looks for.\<close>

theorem ktest_roundtrip:
  assumes "ktest_ok b"
  shows "\<exists>f. kTest_toFile b = Some f \<and> kTest_fromFile f = Some (b\<lparr>k_version := KTEST_VERSION\<rparr>) \<and> kTest_isKTestFile f"
proof -
  have ab: "codec (write_many write_string) (read_many read_string (length (k_args b))) (k_args b)"
    "codec (write_many write_object) (read_many read_object (length (k_objects b))) (k_objects b)"
    using assms by (auto intro!: many_codec string_codec object_codec simp: ktest_ok_def list_all_iff)
  obtain as bs where a: "\<And>f. write_many write_string f (k_args b) = Some (f @ as)"
      "\<And>rest. read_many read_string (length (k_args b)) (as @ rest) = Some (k_args b, rest)"
    and o: "\<And>f. write_many write_object f (k_objects b) = Some (f @ bs)"
      "\<And>rest. read_many read_object (length (k_objects b)) (bs @ rest) = Some (k_objects b, rest)"
    using ab unfolding codec_def by blast
  obtain u where u: "\<And>f v. write_uint32 f v = Some (f @ u v)" "\<And>rest v. read_uint32 (u v @ rest) = Some (v, rest)"
    using uint32_codec unfolding codec_def by metis
  let ?f = "KTEST_MAGIC @ u KTEST_VERSION @ u (of_nat (length (k_args b))) @ as @ u (k_symArgvs b) @ u (k_symArgvLen b)
    @ u (of_nat (length (k_objects b))) @ bs @ []"
  have m: "KTEST_MAGIC \<noteq> []" "length KTEST_MAGIC = 5" by (simp_all add: KTEST_MAGIC_def bytes_of_def)
  have w: "kTest_toFile b = Some ?f" using a(1) o(1) u(1) m by (simp add: kTest_toFile_def fwrite1_def)
  have h: "kTest_checkHeader (KTEST_MAGIC @ rest) = Some rest" for rest
    using fread1_append [OF m(1), of 5 rest] m by (simp add: kTest_checkHeader_def)
  have l: "unat (of_nat (length (k_args b)) :: uint32) = length (k_args b)" "unat (of_nat (length (k_objects b)) :: uint32) = length (k_objects b)"
    using assms by (simp_all add: unat_length ktest_ok_def)
  have "kTest_fromFile ?f = Some (b\<lparr>k_version := KTEST_VERSION\<rparr>)"
    unfolding kTest_fromFile_def h using a(2) o(2) [of "[]"] u(2) l
    by (simp add: read_symArgs_def KTEST_VERSION_def)
  then show ?thesis using w h by (auto simp: kTest_isKTestFile_def)
qed

theorem ktest_roundtrip_witness:
  "\<exists>f. kTest_toFile \<lparr>k_version = 0, k_args = [[97]], k_symArgvs = 0, k_symArgvLen = 0,
        k_objects = [\<lparr>o_name = [120], o_bytes = [1, 2]\<rparr>]\<rparr> = Some f \<and> kTest_isKTestFile f"
  using ktest_roundtrip [of "\<lparr>k_version = 0, k_args = [[97]], k_symArgvs = 0, k_symArgvLen = 0,
        k_objects = [\<lparr>o_name = [120], o_bytes = [1, 2]\<rparr>]\<rparr>"]
  by (auto simp: ktest_ok_def storable_def storable_string_def)

lemma write_many_fails: "x \<in> set xs \<Longrightarrow> (\<And>g. wr g x = None) \<Longrightarrow> write_many wr f xs = None"
proof (induction xs arbitrary: f)
  case (Cons y ys)
  then show ?case by (cases "wr f y") auto
qed simp

lemma write_string_empty: "write_string f [] = None"
  by (simp add: write_string_def strlen_def write_uint32_def fwrite1_def)

lemma write_object_empty: "o_name x = [] \<or> o_bytes x = [] \<Longrightarrow> write_object f x = None"
  by (auto simp: write_object_def write_string_empty write_uint32_def fwrite1_def Option.bind_eq_None_conv)

text \<open>C37. An empty argument, object name or object makes \<^verbatim>\<open>kTest_toFile\<close> fail: \<^verbatim>\<open>fwrite\<close> of one element of size zero
  returns zero, which the code takes for an error, so the test case is not written.\<close>

theorem ktest_empty_fails:
  assumes "[] \<in> set (k_args b) \<or> (\<exists>x \<in> set (k_objects b). o_name x = [] \<or> o_bytes x = [])"
  shows "kTest_toFile b = None"
proof -
  have "(\<forall>f. write_many write_string f (k_args b) = None) \<or> (\<forall>f. write_many write_object f (k_objects b) = None)"
    using assms write_many_fails [of "[]" "k_args b" write_string] write_many_fails [of _ "k_objects b" write_object]
      write_string_empty write_object_empty by blast
  then show ?thesis
  proof
    assume w: "\<forall>f. write_many write_string f (k_args b) = None"
    show ?thesis by (simp only: kTest_toFile_def w Option.bind_lzero Option.bind_rzero)
  next
    assume w: "\<forall>f. write_many write_object f (k_objects b) = None"
    show ?thesis by (simp only: kTest_toFile_def w Option.bind_lzero Option.bind_rzero)
  qed
qed

theorem ktest_empty_fails_witness:
  "kTest_toFile \<lparr>k_version = 0, k_args = [[]], k_symArgvs = 0, k_symArgvLen = 0, k_objects = []\<rparr> = None"
  using ktest_empty_fails [of "\<lparr>k_version = 0, k_args = [[]], k_symArgvs = 0, k_symArgvLen = 0, k_objects = []\<rparr>"] by simp

end
