(* ===== verification/Sized_Heap.thy ===== *)
theory Sized_Heap
  imports Por_Prelude "HOL-Library.Word" "HOL-Library.Monad_Syntax"
begin

unbundle bit_operations_syntax

text \<open>
  \<^verbatim>\<open>include/pseudoalloc/pseudoalloc.h\<close>: the deterministic allocator's heaps for objects of one size.
  A bitmap of 64-bit words holds the free slots as one bits. Slot 0 is in the middle of the heap,
  slots 1 and 2 in the middle of the halves, and so on, so that the distance between objects is as
  large as possible. Freed pointers stay in a quarantine for a number of further deallocations.

  Sizes and positions are below the size of the heap, which is a power of two, so that the
  arithmetic on \<^verbatim>\<open>std::size_t\<close> does not wrap; they are natural numbers here. A pointer is an address,
  0 is the null pointer. \<^verbatim>\<open>_pa_check\<close> is empty unless the build asks for it and is left out; a failing
  \<^verbatim>\<open>assert\<close> is \<open>None\<close>.
\<close>

section \<open>Helper functions\<close>

text \<open>\<^verbatim>\<open>digits - clz(n)\<close> and \<^verbatim>\<open>ctz(n)\<close>, both for \<open>n > 0\<close>.\<close>

fun bit_length :: "nat \<Rightarrow> nat" where
  "bit_length n = (if n = 0 then 0 else Suc (bit_length (n div 2)))"

fun ctz :: "nat \<Rightarrow> nat" where
  "ctz n = (if n = 0 \<or> odd n then 0 else Suc (ctz (n div 2)))"

declare bit_length.simps [simp del] ctz.simps [simp del]

text \<open>\<^verbatim>\<open>size2bin\<close>; 9 is the index of the heap for large objects.\<close>

definition bin_meta :: "nat list" where
  "bin_meta = [1, 4, 8, 16, 32, 64, 256, 1024, 4096]"

definition size2bin :: "nat \<Rightarrow> nat" where
  "size2bin sz = length (takeWhile (\<lambda>b. b < sz) bin_meta)"

section \<open>Quarantine\<close>

record 'a quar =
  q_data :: "'a list option"
  q_capacity :: nat
  q_pos :: nat

definition quar_unlimited :: nat where
  "quar_unlimited = 2 ^ 32 - 1"

definition quar_initialize :: "nat \<Rightarrow> 'a quar" where
  "quar_initialize capacity = \<lparr>q_data = None, q_capacity = capacity, q_pos = 0\<rparr>"

definition quar_deallocate :: "'a \<Rightarrow> 'a \<Rightarrow> 'a quar \<Rightarrow> 'a \<times> 'a quar" where
  "quar_deallocate null ptr q =
     (if q_capacity q = 0 then (ptr, q)
      else if q_capacity q = quar_unlimited then (null, q)
      else let data = (case q_data q of None \<Rightarrow> replicate (q_capacity q) null | Some d \<Rightarrow> d);
               pos = q_pos q + 1 in
        (data ! q_pos q,
         q\<lparr>q_data := Some (data[q_pos q := ptr]), q_pos := (if pos = q_capacity q then 0 else pos)\<rparr>))"

definition quar_any_of :: "('a \<Rightarrow> bool) \<Rightarrow> 'a quar \<Rightarrow> bool" where
  "quar_any_of P q = (case q_data q of None \<Rightarrow> False | Some d \<Rightarrow> list_ex P d)"

text \<open>The pointers that leave the quarantine while a sequence of pointers enters it.\<close>

fun quar_run :: "'a \<Rightarrow> 'a quar \<Rightarrow> 'a list \<Rightarrow> 'a list" where
  "quar_run null q [] = []"
| "quar_run null q (x # xs) = (let (r, q) = quar_deallocate null x q in r # quar_run null q xs)"

section \<open>Slots\<close>

definition index2pos :: "nat \<Rightarrow> nat \<Rightarrow> nat \<Rightarrow> nat option" where
  "index2pos sz slot index =
     (let index = index + 1;
          layer = bit_length index;
          high_bit = 2 ^ (layer - 1);
          current_slot_size = sz div 2 ^ layer in
      if current_slot_size > slot then Some (current_slot_size * ((index XOR high_bit) * 2 + 1)) else None)"

definition pos2index :: "nat \<Rightarrow> nat \<Rightarrow> nat option" where
  "pos2index sz pos =
     (let trailing_zeroes = ctz pos;
          layer_index = pos div 2 ^ (trailing_zeroes + 1) in
      if pos = 0 \<or> ctz sz < trailing_zeroes + 1 then None
      else Some (2 ^ (ctz sz - (trailing_zeroes + 1)) + layer_index - 1))"

record sized_heap =
  h_bitmap :: "64 word list"
  h_finger :: nat
  h_base :: nat
  h_size :: nat
  h_slot_size :: nat
  h_quarantine :: "nat quar"

definition heap_initialize :: "nat \<Rightarrow> nat \<Rightarrow> nat \<Rightarrow> nat \<Rightarrow> sized_heap" where
  "heap_initialize base sz slot quarantine_size =
     \<lparr>h_bitmap = [], h_finger = 0, h_base = base, h_size = sz, h_slot_size = slot,
      h_quarantine = quar_initialize quarantine_size\<rparr>"

text \<open>\<^verbatim>\<open>while(_finger < _bitmap.size() && _bitmap[_finger] == 0) ++_finger;\<close>\<close>

function advance :: "64 word list \<Rightarrow> nat \<Rightarrow> nat" where
  "advance bm f = (if f < length bm \<and> bm ! f = 0 then advance bm (f + 1) else f)"
  by pat_completeness auto
termination
  by (relation "measure (\<lambda>(bm, f). length bm - f)") auto

declare advance.simps [simp del]

definition heap_allocate :: "sized_heap \<Rightarrow> (nat \<times> sized_heap) option" where
  "heap_allocate h =
     (let f = advance (h_bitmap h) (h_finger h) in
      if f < length (h_bitmap h) then
        let shift = ctz (unat (h_bitmap h ! f)) in do {
          pos \<leftarrow> index2pos (h_size h) (h_slot_size h) (f * 64 + shift);
          Some (h_base h + pos,
            h\<lparr>h_bitmap := (h_bitmap h)[f := (h_bitmap h ! f) XOR push_bit shift 1], h_finger := f\<rparr>) }
      else do {
        pos \<leftarrow> index2pos (h_size h) (h_slot_size h) (f * 64 + 0);
        Some (h_base h + pos, h\<lparr>h_bitmap := h_bitmap h @ [NOT 1], h_finger := f\<rparr>) })"

definition may_deallocate :: "nat \<Rightarrow> sized_heap \<Rightarrow> bool option" where
  "may_deallocate ptr h = do {
     index \<leftarrow> pos2index (h_size h) (ptr - h_base h);
     Some (\<not> quar_any_of (\<lambda>x. x = ptr) (h_quarantine h)
       \<and> index div 64 < length (h_bitmap h) \<and> \<not> bit (h_bitmap h ! (index div 64)) (index mod 64)) }"

text \<open>\<^verbatim>\<open>while(!_bitmap.empty() && _bitmap.back() == ~0) _bitmap.pop_back();\<close>\<close>

definition pop_free :: "64 word list \<Rightarrow> 64 word list" where
  "pop_free bm = rev (dropWhile (\<lambda>w. w = NOT 0) (rev bm))"

definition heap_release :: "nat \<Rightarrow> sized_heap \<Rightarrow> sized_heap option" where
  "heap_release ptr h = do {
     index \<leftarrow> pos2index (h_size h) (ptr - h_base h);
     (let loc = index div 64; shift = index mod 64 in
      if loc < length (h_bitmap h) \<and> \<not> bit (h_bitmap h ! loc) shift then
        let h = (if loc < h_finger h then h\<lparr>h_finger := loc\<rparr> else h);
            bm = (h_bitmap h)[loc := (h_bitmap h ! loc) OR push_bit shift 1] in
        Some (h\<lparr>h_bitmap := (if loc + 1 = length bm then pop_free bm else bm)\<rparr>)
      else None) }"

definition heap_deallocate :: "nat \<Rightarrow> sized_heap \<Rightarrow> sized_heap option" where
  "heap_deallocate ptr h =
     (let (ptr, q) = quar_deallocate 0 ptr (h_quarantine h);
          h = h\<lparr>h_quarantine := q\<rparr> in
      if ptr = 0 then Some h else heap_release ptr h)"

section \<open>The quarantine delays deallocations\<close>

definition quar_queue :: "'a quar \<Rightarrow> 'a list" where
  "quar_queue q = (case q_data q of None \<Rightarrow> [] | Some d \<Rightarrow> drop (q_pos q) d @ take (q_pos q) d)"

definition quar_ok :: "'a quar \<Rightarrow> bool" where
  "quar_ok q \<longleftrightarrow> 0 < q_capacity q \<and> q_capacity q \<noteq> quar_unlimited \<and> q_pos q < q_capacity q
     \<and> (\<exists>d. q_data q = Some d \<and> length d = q_capacity q)"

lemma quar_step:
  assumes "quar_ok q"
  shows "\<exists>q'. quar_deallocate null x q = (hd (quar_queue q), q') \<and> quar_ok q' \<and> quar_queue q' = tl (quar_queue q) @ [x]"
proof -
  obtain d where d: "q_data q = Some d" "length d = q_capacity q" using assms by (auto simp: quar_ok_def)
  let ?p = "q_pos q"
  have p: "?p < length d" "q_capacity q \<noteq> 0" "q_capacity q \<noteq> quar_unlimited" using assms d(2) by (auto simp: quar_ok_def)
  have split: "drop ?p d = d ! ?p # drop (Suc ?p) d" by (rule Cons_nth_drop_Suc [symmetric, OF p(1)])
  have upd: "take (Suc ?p) (d[?p := x]) = take ?p d @ [x]" "drop (Suc ?p) (d[?p := x]) = drop (Suc ?p) d"
    using p(1) by (simp_all add: take_Suc_conv_app_nth)
  define q' where "q' = q\<lparr>q_data := Some (d[?p := x]), q_pos := (if ?p + 1 = q_capacity q then 0 else ?p + 1)\<rparr>"
  have "quar_deallocate null x q = (d ! ?p, q')" using p d by (simp add: quar_deallocate_def q'_def Let_def)
  moreover have "quar_ok q'" using assms d by (auto simp: quar_ok_def q'_def)
  moreover have "quar_queue q' = tl (quar_queue q) @ [x]"
  proof (cases "?p + 1 = q_capacity q")
    case True
    then have "drop (Suc ?p) d = []" "take (Suc ?p) (d[?p := x]) = d[?p := x]" using d(2) by simp_all
    then show ?thesis using True d(1) split upd(1) by (simp add: quar_queue_def q'_def)
  next
    case False
    then show ?thesis using d(1) split upd by (simp add: quar_queue_def q'_def)
  qed
  moreover have "hd (quar_queue q) = d ! ?p" using d(1) split by (simp add: quar_queue_def)
  ultimately show ?thesis by auto
qed

lemma quar_run_queue: "quar_ok q \<Longrightarrow> quar_run null q xs = take (length xs) (quar_queue q @ xs)"
proof (induction xs arbitrary: q)
  case (Cons x xs)
  obtain q' where q': "quar_deallocate null x q = (hd (quar_queue q), q')" "quar_ok q'" "quar_queue q' = tl (quar_queue q) @ [x]"
    using quar_step [OF Cons.prems] by blast
  have "quar_queue q \<noteq> []" using Cons.prems by (auto simp: quar_ok_def quar_queue_def)
  then obtain y ys where "quar_queue q = y # ys" by (cases "quar_queue q") auto
  then show ?case using Cons.IH [OF q'(2)] q'(1,3) by simp
qed simp

text \<open>
  C34. A quarantine of limited capacity holds every pointer back for exactly as many further
  deallocations as its capacity: the pointers come out in the order in which they were freed, after
  that many null pointers. Without capacity they come out at once, with unlimited capacity never.
\<close>

theorem quarantine_delays:
  "quar_run null (quar_initialize c) xs =
     (if c = quar_unlimited then replicate (length xs) null else take (length xs) (replicate c null @ xs))"
proof -
  consider "c = 0" | "c = quar_unlimited" | "0 < c" "c \<noteq> quar_unlimited" by blast
  then show ?thesis
  proof cases
    case 1
    then have "quar_run null (quar_initialize c) xs = xs"
      by (induction xs) (simp_all add: quar_initialize_def quar_deallocate_def)
    then show ?thesis using 1 by (simp add: quar_unlimited_def)
  next
    case 2
    then have "quar_run null (quar_initialize c) xs = replicate (length xs) null"
      by (induction xs) (simp_all add: quar_initialize_def quar_deallocate_def quar_unlimited_def)
    then show ?thesis using 2 by simp
  next
    case 3
    let ?q = "quar_initialize c" and ?d = "(quar_initialize c)\<lparr>q_data := Some (replicate c null)\<rparr>"
    have ok: "quar_ok ?d" "quar_queue ?d = replicate c null"
      using 3 by (simp_all add: quar_ok_def quar_queue_def quar_initialize_def)
    have "quar_deallocate null x ?q = quar_deallocate null x ?d" for x
      using 3 by (simp add: quar_initialize_def quar_deallocate_def)
    then have "quar_run null ?q xs = quar_run null ?d xs" by (cases xs) simp_all
    then show ?thesis using quar_run_queue [OF ok(1), of null xs] ok(2) 3 by simp
  qed
qed

section \<open>Slots do not overlap\<close>

lemma bit_length_bounds: "0 < n \<Longrightarrow> 0 < bit_length n \<and> 2 ^ (bit_length n - 1) \<le> n \<and> n < 2 ^ bit_length n"
proof (induction n rule: bit_length.induct)
  case (1 n)
  show ?case
  proof (cases "n div 2 = 0")
    case True
    then have "n = 1" using "1.prems" by simp
    then show ?thesis by (simp add: bit_length.simps)
  next
    case False
    then have IH: "0 < bit_length (n div 2)" "2 ^ (bit_length (n div 2) - 1) \<le> n div 2" "n div 2 < 2 ^ bit_length (n div 2)"
      using "1.IH" "1.prems" by auto
    have b: "bit_length n = Suc (bit_length (n div 2))" using "1.prems" by (simp add: bit_length.simps)
    have "2 * 2 ^ (bit_length (n div 2) - 1) = (2 :: nat) ^ bit_length (n div 2)" using IH(1) by (cases "bit_length (n div 2)") simp_all
    moreover have "2 * (n div 2) \<le> n" "n < 2 * (n div 2) + 2" by simp_all
    ultimately have "2 ^ bit_length (n div 2) \<le> n" "n < 2 * 2 ^ bit_length (n div 2)" using IH(2,3) by linarith+
    then show ?thesis using b by simp
  qed
qed

lemma ctz_odd_multiple: "ctz (2 ^ t * (2 * m + 1)) = t"
proof (induction t)
  case 0
  show ?case by (subst ctz.simps) simp
next
  case (Suc t)
  have "2 ^ Suc t * (2 * m + 1) div 2 = 2 ^ t * (2 * m + 1)" by simp
  moreover have "2 ^ Suc t * (2 * m + 1) \<noteq> 0" "even (2 ^ Suc t * (2 * m + 1))" by simp_all
  ultimately show ?case using Suc by (subst ctz.simps) (simp only: if_False HOL.simp_thms)
qed

lemma ctz_power: "ctz (2 ^ k) = k"
  using ctz_odd_multiple [of k 0] by simp

lemma xor_high_bit:
  assumes "(m :: nat) < 2 ^ k"
  shows "(2 ^ k + m) XOR 2 ^ k = m"
proof -
  have nb: "\<not> bit m i" if "k \<le> i" for i
  proof -
    have "m < 2 ^ i" using assms that power_increasing [of k i "2 :: nat"] by linarith
    then show ?thesis by (simp add: bit_iff_odd)
  qed
  have "2 ^ k + m = 2 ^ k OR m"
    by (rule disjunctive_add) (auto simp: bit_exp_iff nb)
  moreover have "(2 ^ k OR m) XOR 2 ^ k = m"
    by (rule bit_eqI) (auto simp: bit_exp_iff bit_or_iff bit_xor_iff nb)
  ultimately show ?thesis by simp
qed

text \<open>The slot of layer \<open>l\<close> and offset \<open>m\<close> is the middle of the interval \<open>m\<close> of \<open>2 ^ (l - 1)\<close> equal ones.\<close>

lemma index2pos_layer:
  assumes "index2pos (2 ^ k) slot i = Some p"
  obtains l m where "0 < l" "l \<le> k" "i + 1 = 2 ^ (l - 1) + m" "m < 2 ^ (l - 1)" "p = 2 ^ (k - l) * (2 * m + 1)" "slot < 2 ^ (k - l)"
proof -
  define l where "l = bit_length (i + 1)"
  have l: "0 < l" "2 ^ (l - 1) \<le> i + 1" "i + 1 < 2 ^ l" using bit_length_bounds [of "i + 1"] by (auto simp: l_def)
  define m where "m = i + 1 - 2 ^ (l - 1)"
  have im: "i + 1 = 2 ^ (l - 1) + m" using l(2) by (simp add: m_def)
  have "(2 :: nat) ^ l = 2 * 2 ^ (l - 1)" using l(1) by (cases l) simp_all
  then have m: "m < 2 ^ (l - 1)" using l(3) im by simp
  have p: "slot < 2 ^ k div 2 ^ l" "p = 2 ^ k div 2 ^ l * ((i + 1 XOR 2 ^ (l - 1)) * 2 + 1)"
    using assms by (auto simp: index2pos_def Let_def l_def split: if_split_asm)
  have lk: "l \<le> k"
  proof (rule ccontr)
    assume "\<not> l \<le> k"
    then have "(2 :: nat) ^ k < 2 ^ l" by (intro power_strict_increasing) simp_all
    then show False using p(1) by simp
  qed
  then have "(2 :: nat) ^ k div 2 ^ l = 2 ^ (k - l)" by (simp add: power_diff)
  moreover have "(i + 1 XOR 2 ^ (l - 1)) = m" unfolding im by (rule xor_high_bit [OF m])
  ultimately show ?thesis using that [OF l(1) lk im m] p by (simp add: mult.commute)
qed

lemma index2pos_roundtrip:
  assumes "index2pos (2 ^ k) slot i = Some p"
  shows "pos2index (2 ^ k) p = Some i"
proof -
  obtain l m where lm: "0 < l" "l \<le> k" "i + 1 = 2 ^ (l - 1) + m" "p = 2 ^ (k - l) * (2 * m + 1)"
    using index2pos_layer [OF assms] by blast
  have "p div 2 ^ (k - l + 1) = m"
  proof -
    have "p div 2 ^ (k - l + 1) = p div 2 ^ (k - l) div 2" by (simp only: power_add power_one_right div_mult2_eq)
    also have "\<dots> = m" by (simp add: lm(4))
    finally show ?thesis .
  qed
  moreover have "ctz p = k - l" "p \<noteq> 0" using ctz_odd_multiple [of "k - l" m] lm(4) by simp_all
  moreover have "k - (k - l + 1) = l - 1" using lm(1,2) by simp
  moreover have "\<not> k < k - l + 1" "2 ^ (l - 1) + m - 1 = i" using lm(1-3) by simp_all
  ultimately show ?thesis by (simp only: pos2index_def Let_def ctz_power) simp
qed

lemma multiples_apart: "(a :: nat) \<noteq> b \<Longrightarrow> d * a + d \<le> d * b \<or> d * b + d \<le> d * a"
proof -
  assume "a \<noteq> b"
  then have "Suc a \<le> b \<or> Suc b \<le> a" by auto
  then show ?thesis using mult_le_mono2 [of "Suc a" b d] mult_le_mono2 [of "Suc b" a d] by auto
qed

lemma slots_apart:
  assumes "index2pos (2 ^ k) slot i = Some p" "index2pos (2 ^ k) slot j = Some q" "i \<noteq> j"
  shows "p + slot < q \<or> q + slot < p"
proof -
  have pq: "p \<noteq> q" using assms(3) index2pos_roundtrip [OF assms(1)] index2pos_roundtrip [OF assms(2)] by auto
  obtain l m where lm: "l \<le> k" "p = 2 ^ (k - l) * (2 * m + 1)" "slot < 2 ^ (k - l)" using index2pos_layer [OF assms(1)] by blast
  obtain l' m' where lm': "l' \<le> k" "q = 2 ^ (k - l') * (2 * m' + 1)" "slot < 2 ^ (k - l')" using index2pos_layer [OF assms(2)] by blast
  define d :: nat where "d = 2 ^ min (k - l) (k - l')"
  have "d dvd p" "d dvd q" unfolding d_def lm(2) lm'(2) by (rule dvd_mult2, rule le_imp_power_dvd, simp)+
  then obtain a b where ab: "p = d * a" "q = d * b" by (auto elim!: dvdE)
  moreover have "slot < d" using lm(3) lm'(3) by (simp add: d_def min_def)
  ultimately show ?thesis using multiples_apart [of a b d] pq by auto
qed

text \<open>
  C32. In a heap whose size is a power of two, every slot index with a red zone of at least one byte
  has a position inside the heap, after the base and with room for the object; \<^verbatim>\<open>pos2index\<close> finds the
  index again from the position; and objects in different slots do not touch.
\<close>

theorem slots_disjoint:
  assumes "index2pos (2 ^ k) slot i = Some p" "index2pos (2 ^ k) slot j = Some q"
  shows "0 < p \<and> p + slot < 2 ^ k \<and> pos2index (2 ^ k) p = Some i \<and> (i = j \<or> p + slot < q \<or> q + slot < p)"
proof -
  obtain l m where lm: "0 < l" "l \<le> k" "m < 2 ^ (l - 1)" "p = 2 ^ (k - l) * (2 * m + 1)" "slot < 2 ^ (k - l)"
    using index2pos_layer [OF assms(1)] by blast
  have "2 * m + 1 + 1 \<le> (2 :: nat) ^ l" using lm(1,3) by (cases l) simp_all
  then have "2 ^ (k - l) * (2 * m + 1 + 1) \<le> 2 ^ (k - l) * (2 :: nat) ^ l" by (rule mult_le_mono2)
  also have "\<dots> = 2 ^ k" using lm(2) by (simp add: power_add [symmetric])
  finally have "p + 2 ^ (k - l) \<le> 2 ^ k" by (simp add: lm(4) algebra_simps)
  then show ?thesis using lm(4,5) index2pos_roundtrip [OF assms(1)] slots_apart [OF assms] by auto
qed

theorem slots_disjoint_witness:
  "index2pos (2 ^ 12) 8 4 = Some 1536 \<and> index2pos (2 ^ 12) 8 1 = Some 1024 \<and> pos2index (2 ^ 12) 1536 = Some 4 \<and> 1024 + 8 < (1536 :: nat)"
proof -
  have b0: "bit_length 0 = 0" by (subst bit_length.simps) simp
  have b1: "bit_length 1 = 1" by (subst bit_length.simps) (simp add: b0)
  have b2: "bit_length 2 = 2" by (subst bit_length.simps) (simp add: b1 [simplified])
  have b5: "bit_length 5 = 3" by (subst bit_length.simps) (simp add: b2)
  have "(5 :: nat) XOR 4 = 1" "(2 :: nat) XOR 2 = 0" by simp_all
  then have p: "index2pos (2 ^ 12) 8 4 = Some 1536" "index2pos (2 ^ 12) 8 1 = Some 1024"
    by (simp_all add: index2pos_def Let_def b2 b5 numeral_2_eq_2 [symmetric])
  from slots_disjoint [OF p] show ?thesis using p by simp
qed

section \<open>The bitmap\<close>

definition alloc_set :: "64 word list \<Rightarrow> nat set" where
  "alloc_set bm = {i. i div 64 < length bm \<and> \<not> bit (bm ! (i div 64)) (i mod 64)}"

definition heap_inv :: "sized_heap \<Rightarrow> bool" where
  "heap_inv h \<longleftrightarrow> h_finger h \<le> length (h_bitmap h) \<and> (\<forall>j < h_finger h. h_bitmap h ! j = 0)"

lemma ctz_bit: "0 < n \<Longrightarrow> bit n (ctz n) \<and> (\<forall>s < ctz n. \<not> bit n s)"
proof (induction n rule: ctz.induct)
  case (1 n)
  show ?case
  proof (cases "odd n")
    case True
    then show ?thesis by (simp add: ctz.simps [of n] bit_0)
  next
    case False
    then have "bit (n div 2) (ctz (n div 2)) \<and> (\<forall>s < ctz (n div 2). \<not> bit (n div 2) s)" using 1 by auto
    moreover have "ctz n = Suc (ctz (n div 2))" using False "1.prems" by (simp add: ctz.simps [of n])
    ultimately show ?thesis using False by (auto simp: bit_Suc bit_0 less_Suc_eq_0_disj)
  qed
qed

lemma word_ctz:
  assumes "w \<noteq> (0 :: 64 word)"
  shows "bit w (ctz (unat w))" "s < ctz (unat w) \<Longrightarrow> \<not> bit w s" "ctz (unat w) < 64"
proof -
  have c: "bit (unat w) (ctz (unat w))" "\<forall>s < ctz (unat w). \<not> bit (unat w) s"
    using ctz_bit [of "unat w"] assms by (auto simp: unat_eq_0 [symmetric] simp del: unat_eq_0)
  show b: "bit w (ctz (unat w))" using c(1) by (simp add: bit_unsigned_iff)
  show l: "ctz (unat w) < 64" using bit_imp_le_length [OF b] by simp
  show "\<not> bit w s" if "s < ctz (unat w)" using c(2) that l by (auto simp: bit_unsigned_iff)
qed

lemma advance_ok:
  assumes "f \<le> length bm" "\<forall>j < f. bm ! j = 0"
  shows "advance bm f \<le> length bm \<and> (\<forall>j < advance bm f. bm ! j = 0) \<and> (advance bm f < length bm \<longrightarrow> bm ! advance bm f \<noteq> 0)"
  using assms
proof (induction bm f rule: advance.induct)
  case (1 bm f)
  show ?case
  proof (cases "f < length bm \<and> bm ! f = 0")
    case True
    then have "advance bm f = advance bm (f + 1)" by (simp add: advance.simps [of bm f])
    moreover have "\<forall>j < f + 1. bm ! j = 0" using 1(3) True by (auto simp: less_Suc_eq)
    ultimately show ?thesis using 1(1) [OF True] True by simp
  next
    case False
    then have "advance bm f = f" by (auto simp: advance.simps [of bm f])
    then show ?thesis using 1(2,3) False by auto
  qed
qed

lemma Least_alloc:
  assumes "f \<le> length bm" "\<forall>j < f. bm ! j = 0" "s < 64" "\<forall>t < s. \<not> bit (bm ! f) t" "s = 0 \<or> f < length bm"
    and "f * 64 + s \<notin> alloc_set bm"
  shows "(LEAST i. i \<notin> alloc_set bm) = f * 64 + s"
proof (rule Least_equality)
  fix y assume y: "y \<notin> alloc_set bm"
  show "f * 64 + s \<le> y"
  proof (rule ccontr)
    assume "\<not> f * 64 + s \<le> y"
    then have lt: "y < f * 64 + s" by simp
    have dm: "y = y div 64 * 64 + y mod 64" by simp
    consider "y div 64 < f" | "y div 64 = f" "y mod 64 < s" using lt dm assms(3) by linarith
    then show False using y assms(1,2,4,5) by cases (auto simp: alloc_set_def)
  qed
qed (rule assms(6))

lemma flip_bit_64: "t < 64 \<Longrightarrow> bit ((w :: 64 word) XOR 2 ^ s) t \<longleftrightarrow> (bit w t \<noteq> (t = s))"
  "t < 64 \<Longrightarrow> bit ((w :: 64 word) OR 2 ^ s) t \<longleftrightarrow> (bit w t \<or> t = s)"
  by (auto simp: bit_xor_iff bit_or_iff bit_exp_iff possible_bit_word)

lemma slot_eq: "s < 64 \<Longrightarrow> i div 64 = f \<and> i mod 64 = s \<longleftrightarrow> i = f * 64 + s" for i f s :: nat
  by auto

lemma heap_allocate_ok:
  assumes "heap_inv h" "index2pos (h_size h) (h_slot_size h) (LEAST i. i \<notin> alloc_set (h_bitmap h)) = Some p"
  shows "\<exists>h'. heap_allocate h = Some (h_base h + p, h') \<and> heap_inv h'
    \<and> alloc_set (h_bitmap h') = insert (LEAST i. i \<notin> alloc_set (h_bitmap h)) (alloc_set (h_bitmap h))"
proof -
  let ?bm = "h_bitmap h" and ?f = "advance (h_bitmap h) (h_finger h)"
  have f1: "?f \<le> length ?bm" "\<forall>j < ?f. ?bm ! j = 0" and f2: "?f < length ?bm \<Longrightarrow> ?bm ! ?f \<noteq> 0"
    using advance_ok [of "h_finger h" ?bm] assms(1) by (auto simp: heap_inv_def)
  show ?thesis
  proof (cases "?f < length ?bm")
    case True
    let ?w = "?bm ! ?f"
    let ?s = "ctz (unat ?w)"
    have w: "?w \<noteq> 0" using f2 [OF True] .
    note s = word_ctz [OF w]
    have least: "(LEAST i. i \<notin> alloc_set ?bm) = ?f * 64 + ?s"
      by (rule Least_alloc [OF f1 s(3)]) (use s True in \<open>auto simp: alloc_set_def\<close>)
    let ?bm' = "?bm[?f := ?w XOR push_bit ?s 1]"
    have "i \<in> alloc_set ?bm' \<longleftrightarrow> i \<in> insert (?f * 64 + ?s) (alloc_set ?bm)" for i
      using s(1,3) True slot_eq [OF s(3), of i ?f] by (auto simp: alloc_set_def nth_list_update flip_bit_64)
    moreover have "heap_inv (h\<lparr>h_bitmap := ?bm', h_finger := ?f\<rparr>)" using f1 by (simp add: heap_inv_def)
    moreover have "heap_allocate h = Some (h_base h + p, h\<lparr>h_bitmap := ?bm', h_finger := ?f\<rparr>)"
      using True assms(2) least by (simp add: heap_allocate_def Let_def)
    ultimately show ?thesis using least by auto
  next
    case False
    then have fl: "?f = length ?bm" using f1(1) by simp
    have least: "(LEAST i. i \<notin> alloc_set ?bm) = ?f * 64 + 0"
      by (rule Least_alloc [OF f1]) (use fl in \<open>auto simp: alloc_set_def\<close>)
    have "i \<in> alloc_set (?bm @ [NOT 1]) \<longleftrightarrow> i \<in> insert (?f * 64) (alloc_set ?bm)" for i
      using slot_eq [of 0 i ?f] fl
      by (auto simp: alloc_set_def nth_append less_Suc_eq bit_not_iff bit_1_iff)
    moreover have "heap_inv (h\<lparr>h_bitmap := ?bm @ [NOT 1], h_finger := ?f\<rparr>)"
      using f1 fl by (simp add: heap_inv_def nth_append)
    moreover have "heap_allocate h = Some (h_base h + p, h\<lparr>h_bitmap := ?bm @ [NOT 1], h_finger := ?f\<rparr>)"
      using False assms(2) least by (simp add: heap_allocate_def Let_def)
    ultimately show ?thesis using least by auto
  qed
qed

lemma pop_free_snoc: "pop_free (bm @ [w]) = (if w = NOT 0 then pop_free bm else bm @ [w])"
  by (simp add: pop_free_def)

lemma pop_free_alloc: "alloc_set (pop_free bm) = alloc_set bm"
proof (induction bm rule: rev_induct)
  case (snoc w bm)
  have "alloc_set (bm @ [NOT 0]) = alloc_set bm"
    by (auto simp: alloc_set_def nth_append less_Suc_eq bit_not_iff)
  then show ?case using snoc by (simp add: pop_free_snoc del: bit.compl_zero)
qed (simp add: pop_free_def)

lemma pop_free_keeps: "j < length bm \<Longrightarrow> bm ! j \<noteq> NOT 0 \<Longrightarrow> j < length (pop_free bm) \<and> pop_free bm ! j = bm ! j"
proof (induction bm rule: rev_induct)
  case (snoc w bm)
  then show ?case by (cases "j < length bm") (auto simp: pop_free_snoc nth_append less_Suc_eq simp del: bit.compl_zero)
qed simp

lemma heap_inv_pop:
  assumes "f \<le> length bm" "\<forall>j < f. bm ! j = 0"
  shows "f \<le> length (pop_free bm)" "\<forall>j < f. pop_free bm ! j = 0"
proof -
  have k: "j < length (pop_free bm) \<and> pop_free bm ! j = 0" if "j < f" for j
    using pop_free_keeps [of j bm] assms that by auto
  show "\<forall>j < f. pop_free bm ! j = 0" using k by blast
  show "f \<le> length (pop_free bm)" using k [of "f - 1"] by (cases f) auto
qed

lemma heap_release_ok:
  assumes "heap_inv h" "h_size h = 2 ^ k" "i \<in> alloc_set (h_bitmap h)" "index2pos (h_size h) (h_slot_size h) i = Some p"
  shows "\<exists>h'. heap_release (h_base h + p) h = Some h' \<and> heap_inv h' \<and> alloc_set (h_bitmap h') = alloc_set (h_bitmap h) - {i}"
proof -
  let ?bm = "h_bitmap h" and ?l = "i div 64" and ?s = "i mod 64"
  have i: "?l < length ?bm" "\<not> bit (?bm ! ?l) ?s" using assms(3) by (auto simp: alloc_set_def)
  have pos: "pos2index (h_size h) p = Some i" using index2pos_roundtrip assms(2,4) by simp
  define bm where "bm = ?bm[?l := (?bm ! ?l) OR push_bit ?s 1]"
  define bm' where "bm' = (if ?l + 1 = length bm then pop_free bm else bm)"
  define f where "f = (if ?l < h_finger h then ?l else h_finger h)"
  have "j \<in> alloc_set bm \<longleftrightarrow> j \<in> alloc_set ?bm - {i}" for j
    using i slot_eq [of ?s j ?l] by (auto simp: alloc_set_def bm_def nth_list_update flip_bit_64)
  then have a: "alloc_set bm' = alloc_set ?bm - {i}" using pop_free_alloc [of bm] by (auto simp: bm'_def)
  have "f \<le> length bm" "\<forall>j < f. bm ! j = 0"
    using assms(1) i(1) by (auto simp: f_def bm_def heap_inv_def nth_list_update)
  then have inv: "f \<le> length bm'" "\<forall>j < f. bm' ! j = 0" using heap_inv_pop [of f bm] by (auto simp: bm'_def)
  have "heap_release (h_base h + p) h = Some (h\<lparr>h_finger := f, h_bitmap := bm'\<rparr>)"
    using pos i by (simp add: heap_release_def Let_def bm'_def bm_def f_def)
  then show ?thesis using a inv by (simp add: heap_inv_def)
qed

section \<open>Heaps with a quarantine\<close>

text \<open>The pointers that wait in a quarantine, oldest first. An unlimited quarantine does not store them.\<close>

definition quar_rel :: "'a \<Rightarrow> 'a quar \<Rightarrow> 'a list \<Rightarrow> bool" where
  "quar_rel null q ps \<longleftrightarrow>
     (if q_capacity q = 0 then ps = []
      else q_capacity q = quar_unlimited
        \<or> length ps \<le> q_capacity q \<and> q_pos q < q_capacity q
          \<and> (case q_data q of
               None \<Rightarrow> q_pos q = 0 \<and> ps = []
             | Some d \<Rightarrow> length d = q_capacity q \<and> quar_queue q = replicate (q_capacity q - length ps) null @ ps))"

text \<open>Whether the quarantine lets a pointer go when the next one comes.\<close>

definition quar_full :: "'a quar \<Rightarrow> 'b list \<Rightarrow> bool" where
  "quar_full q ps \<longleftrightarrow> q_capacity q \<noteq> quar_unlimited \<and> length ps = q_capacity q"

lemma quar_rel_step:
  assumes "quar_rel null q ps"
  shows "\<exists>q'. quar_deallocate null x q = (if quar_full q ps then hd (ps @ [x]) else null, q')
    \<and> q_capacity q' = q_capacity q \<and> quar_rel null q' (if quar_full q ps then tl (ps @ [x]) else ps @ [x])"
proof -
  let ?c = "q_capacity q"
  consider "?c = 0" | "?c = quar_unlimited" "?c \<noteq> 0" | "?c \<noteq> 0" "?c \<noteq> quar_unlimited" by blast
  then show ?thesis
  proof cases
    case 3
    let ?q = "q\<lparr>q_data := Some (case q_data q of None \<Rightarrow> replicate ?c null | Some d \<Rightarrow> d)\<rparr>"
    have l: "length ps \<le> ?c" using assms 3 by (simp add: quar_rel_def)
    have ok: "quar_ok ?q" "quar_queue ?q = replicate (?c - length ps) null @ ps"
      using assms 3 by (auto simp: quar_rel_def quar_ok_def quar_queue_def split: option.splits)
    have eq: "quar_deallocate null x q = quar_deallocate null x ?q"
      using 3 by (cases "q_data q") (simp_all add: quar_deallocate_def Let_def)
    obtain q' where q': "quar_deallocate null x q = (hd (quar_queue ?q), q')" "quar_ok q'" "quar_queue q' = tl (quar_queue ?q) @ [x]"
      using quar_step [OF ok(1), of null x] eq by auto
    have c: "q_capacity q' = ?c" using q'(1) 3 by (auto simp: quar_deallocate_def Let_def)
    have "hd (quar_queue ?q) = (if quar_full q ps then hd (ps @ [x]) else null)"
      using l 3 ok(2) by (cases "length ps = ?c"; cases ps; cases "?c - length ps") (auto simp: quar_full_def)
    moreover have "quar_queue q' = replicate (?c - length (if quar_full q ps then tl (ps @ [x]) else ps @ [x])) null
        @ (if quar_full q ps then tl (ps @ [x]) else ps @ [x])"
    proof (cases "length ps = ?c")
      case True
      then show ?thesis using 3 q'(3) ok(2) by (cases ps) (auto simp: quar_full_def)
    next
      case False
      then have "?c - length ps = Suc (?c - Suc (length ps))" using l by simp
      then show ?thesis using False q'(3) ok(2) by (simp add: quar_full_def)
    qed
    moreover have "length (if quar_full q ps then tl (ps @ [x]) else ps @ [x]) \<le> ?c"
      using l 3 by (auto simp: quar_full_def)
    ultimately show ?thesis using q'(1,2) c 3 by (auto simp: quar_rel_def quar_ok_def)
  qed (use assms in \<open>auto simp: quar_rel_def quar_full_def quar_deallocate_def quar_unlimited_def\<close>)
qed

lemma quar_rel_any_of:
  assumes "quar_rel null q ps" "q_capacity q \<noteq> quar_unlimited" "\<not> P null" "q_data q \<noteq> None \<longrightarrow> q_capacity q \<noteq> 0"
  shows "quar_any_of P q \<longleftrightarrow> (\<exists>x \<in> set ps. P x)"
proof (cases "q_data q")
  case None
  then show ?thesis using assms by (simp add: quar_rel_def quar_any_of_def split: if_split_asm)
next
  case (Some d)
  then have "set d = set (quar_queue q)" by (metis append_take_drop_id quar_queue_def option.case(2) set_append Un_commute)
  then show ?thesis using assms Some by (auto simp: quar_rel_def quar_any_of_def list_ex_iff split: if_split_asm)
qed

text \<open>
  A heap as a set \<open>A\<close> of slots in use, of which the slots \<open>Q\<close> have been freed by the program and wait in the
  quarantine, oldest first.
\<close>

definition slot_ptr :: "sized_heap \<Rightarrow> nat \<Rightarrow> nat" where
  "slot_ptr h i = h_base h + the (index2pos (h_size h) (h_slot_size h) i)"

definition has_slot :: "sized_heap \<Rightarrow> nat \<Rightarrow> bool" where
  "has_slot h i \<longleftrightarrow> index2pos (h_size h) (h_slot_size h) i \<noteq> None"

definition heap_rel :: "sized_heap \<Rightarrow> nat set \<Rightarrow> nat list \<Rightarrow> bool" where
  "heap_rel h A Q \<longleftrightarrow> heap_inv h \<and> (\<exists>k. h_size h = 2 ^ k) \<and> alloc_set (h_bitmap h) = A \<and> (\<forall>i \<in> A. has_slot h i)
     \<and> distinct Q \<and> set Q \<subseteq> A \<and> (q_data (h_quarantine h) \<noteq> None \<longrightarrow> q_capacity (h_quarantine h) \<noteq> 0)
     \<and> quar_rel 0 (h_quarantine h) (map (slot_ptr h) Q)"

lemma same_layout:
  assumes "h_base h' = h_base h" "h_size h' = h_size h" "h_slot_size h' = h_slot_size h"
  shows "slot_ptr h' = slot_ptr h" "has_slot h' = has_slot h"
  using assms by (auto simp: slot_ptr_def has_slot_def fun_eq_iff)

lemma slot_ptr_pos: "h_size h = 2 ^ k \<Longrightarrow> has_slot h i \<Longrightarrow> 0 < slot_ptr h i"
  using index2pos_layer [of k "h_slot_size h" i] by (fastforce simp: slot_ptr_def has_slot_def)

lemma slot_ptr_inj: "h_size h = 2 ^ k \<Longrightarrow> has_slot h i \<Longrightarrow> has_slot h j \<Longrightarrow> slot_ptr h i = slot_ptr h j \<longleftrightarrow> i = j"
  using index2pos_roundtrip [of k "h_slot_size h" i] index2pos_roundtrip [of k "h_slot_size h" j]
  by (auto simp: slot_ptr_def has_slot_def)

lemma heap_allocate_frame: "heap_allocate h = Some (p, h') \<Longrightarrow> h_base h' = h_base h \<and> h_size h' = h_size h
    \<and> h_slot_size h' = h_slot_size h \<and> h_quarantine h' = h_quarantine h"
  by (auto simp: heap_allocate_def Let_def split: if_split_asm bind_splits)

lemma heap_release_frame: "heap_release p h = Some h' \<Longrightarrow> h_base h' = h_base h \<and> h_size h' = h_size h
    \<and> h_slot_size h' = h_slot_size h \<and> h_quarantine h' = h_quarantine h"
  by (auto simp: heap_release_def Let_def split: if_split_asm bind_splits)

lemma heap_rel_allocate:
  assumes "heap_rel h A Q" "has_slot h (LEAST i. i \<notin> A)"
  shows "\<exists>h'. heap_allocate h = Some (slot_ptr h (LEAST i. i \<notin> A), h') \<and> heap_rel h' (insert (LEAST i. i \<notin> A) A) Q"
proof -
  have A: "alloc_set (h_bitmap h) = A" using assms(1) by (simp add: heap_rel_def)
  obtain p where p: "index2pos (h_size h) (h_slot_size h) (LEAST i. i \<notin> A) = Some p" using assms(2) by (auto simp: has_slot_def)
  obtain h' where h': "heap_allocate h = Some (h_base h + p, h')" "heap_inv h'" "alloc_set (h_bitmap h') = insert (LEAST i. i \<notin> A) A"
    using heap_allocate_ok [of h p] assms(1) p by (auto simp: heap_rel_def A)
  note f = heap_allocate_frame [OF h'(1)]
  then show ?thesis using h' p assms same_layout [of h' h] by (auto simp: heap_rel_def slot_ptr_def)
qed

lemma heap_rel_deallocate:
  assumes "heap_rel h A Q" "i \<in> A" "i \<notin> set Q"
  shows "\<exists>h'. heap_deallocate (slot_ptr h i) h = Some h'
    \<and> (if quar_full (h_quarantine h) Q then heap_rel h' (A - {hd (Q @ [i])}) (tl (Q @ [i])) else heap_rel h' A (Q @ [i]))"
proof -
  let ?q = "h_quarantine h" and ?full = "quar_full (h_quarantine h) Q"
  obtain k where r: "heap_inv h" "h_size h = 2 ^ k" "alloc_set (h_bitmap h) = A" "\<forall>i \<in> A. has_slot h i" "distinct Q" "set Q \<subseteq> A"
    "q_data ?q \<noteq> None \<longrightarrow> q_capacity ?q \<noteq> 0" "quar_rel 0 ?q (map (slot_ptr h) Q)"
    using assms(1) by (auto simp: heap_rel_def)
  have full: "quar_full ?q (map (slot_ptr h) Q) = ?full" by (simp add: quar_full_def)
  have hd: "hd (map (slot_ptr h) Q @ [slot_ptr h i]) = slot_ptr h (hd (Q @ [i]))" by (cases Q) simp_all
  have tl: "tl (map (slot_ptr h) Q @ [slot_ptr h i]) = map (slot_ptr h) (tl (Q @ [i]))" by (cases Q) simp_all
  obtain q' where q': "quar_deallocate 0 (slot_ptr h i) ?q = (if ?full then slot_ptr h (hd (Q @ [i])) else 0, q')"
      "q_capacity q' = q_capacity ?q" "quar_rel 0 q' (map (slot_ptr h) (if ?full then tl (Q @ [i]) else Q @ [i]))"
    using quar_rel_step [OF r(8), of "slot_ptr h i"] unfolding full hd tl by (cases ?full) auto
  have d: "q_data q' \<noteq> None \<longrightarrow> q_capacity q' \<noteq> 0"
    using q'(1) r(7) by (auto simp: quar_deallocate_def Let_def split: if_split_asm)
  let ?h = "h\<lparr>h_quarantine := q'\<rparr>"
  have lay: "slot_ptr ?h = slot_ptr h" "has_slot ?h = has_slot h" by (rule same_layout; simp)+
  show ?thesis
  proof (cases ?full)
    case False
    then show ?thesis using q' d r assms(2,3) lay by (simp add: heap_deallocate_def heap_rel_def heap_inv_def)
  next
    case True
    let ?j = "hd (Q @ [i])"
    have j: "?j \<in> A" "?j \<notin> set (tl (Q @ [i]))" "set (tl (Q @ [i])) \<subseteq> A" "distinct (tl (Q @ [i]))"
      using assms(2,3) r(5,6) by (cases Q; auto)+
    have slot: "has_slot h ?j" using r(4) j(1) by blast
    then obtain p where p: "index2pos (h_size ?h) (h_slot_size ?h) ?j = Some p" by (auto simp: has_slot_def)
    obtain h' where h': "heap_release (h_base ?h + p) ?h = Some h'" "heap_inv h'" "alloc_set (h_bitmap h') = A - {?j}"
      using heap_release_ok [of ?h k ?j p] r(1,2,3) j(1) p by (auto simp: heap_inv_def)
    have "slot_ptr h ?j = h_base ?h + p" using p by (simp add: slot_ptr_def)
    then have "heap_deallocate (slot_ptr h i) h = Some h'"
      using q'(1) h'(1) slot_ptr_pos [OF r(2) slot] True by (auto simp: heap_deallocate_def Let_def)
    moreover have "heap_rel h' (A - {?j}) (tl (Q @ [i]))"
      using h'(2,3) heap_release_frame [OF h'(1)] same_layout [of h' h] r(2,4) j d q'(3) True by (auto simp: heap_rel_def)
    ultimately show ?thesis using True by simp
  qed
qed

lemma heap_rel_may_deallocate:
  assumes "heap_rel h A Q" "has_slot h i" "q_capacity (h_quarantine h) \<noteq> quar_unlimited"
  shows "may_deallocate (slot_ptr h i) h = Some (i \<in> A \<and> i \<notin> set Q)"
proof -
  obtain k where r: "h_size h = 2 ^ k" "alloc_set (h_bitmap h) = A" "\<forall>i \<in> A. has_slot h i" "set Q \<subseteq> A"
    "q_data (h_quarantine h) \<noteq> None \<longrightarrow> q_capacity (h_quarantine h) \<noteq> 0" "quar_rel 0 (h_quarantine h) (map (slot_ptr h) Q)"
    using assms(1) by (auto simp: heap_rel_def)
  obtain p where p: "index2pos (2 ^ k) (h_slot_size h) i = Some p" using assms(2) r(1) by (auto simp: has_slot_def)
  have "quar_any_of (\<lambda>x. x = slot_ptr h i) (h_quarantine h) \<longleftrightarrow> slot_ptr h i \<in> slot_ptr h ` set Q"
    using quar_rel_any_of [OF r(6) assms(3), of "\<lambda>x. x = slot_ptr h i"] slot_ptr_pos [OF r(1) assms(2)] r(5)
    by auto
  also have "\<dots> \<longleftrightarrow> i \<in> set Q" using slot_ptr_inj [OF r(1) assms(2)] r(3,4) by auto
  finally show ?thesis
    using index2pos_roundtrip [OF p] p r(1,2) by (auto simp: may_deallocate_def slot_ptr_def alloc_set_def)
qed

text \<open>
  C33. A sized heap with its quarantine is a set \<open>A\<close> of slots in use and a queue \<open>Q\<close> of slots that the program has
  freed. A fresh heap has no slot in use. \<^verbatim>\<open>allocate\<close> returns the pointer of the lowest slot that is not in use and
  marks that slot, as long as the slot still has a red zone. \<^verbatim>\<open>deallocate\<close> of the pointer of a slot that is in use and
  not freed yet does not abort. It puts the slot at the end of the queue; if the quarantine was full, the oldest slot
  of the queue and no other becomes free, otherwise (and always with an unlimited quarantine) no slot does. With a limited
  quarantine \<^verbatim>\<open>may_deallocate\<close> accepts exactly the pointers of slots that are in use and not freed yet.
\<close>

theorem heap_refines_set:
  "heap_rel (heap_initialize base (2 ^ k) slot c) {} []
    \<and> (\<forall>h A Q. heap_rel h A Q \<longrightarrow>
        (has_slot h (LEAST i. i \<notin> A) \<longrightarrow>
          (\<exists>h'. heap_allocate h = Some (slot_ptr h (LEAST i. i \<notin> A), h') \<and> heap_rel h' (insert (LEAST i. i \<notin> A) A) Q))
      \<and> (\<forall>i \<in> A - set Q. \<exists>h'. heap_deallocate (slot_ptr h i) h = Some h'
          \<and> (if quar_full (h_quarantine h) Q then heap_rel h' (A - {hd (Q @ [i])}) (tl (Q @ [i])) else heap_rel h' A (Q @ [i])))
      \<and> (\<forall>i. has_slot h i \<and> q_capacity (h_quarantine h) \<noteq> quar_unlimited \<longrightarrow>
          may_deallocate (slot_ptr h i) h = Some (i \<in> A - set Q)))"
proof -
  have "heap_rel (heap_initialize base (2 ^ k) slot c) {} []"
    by (auto simp: heap_rel_def heap_inv_def heap_initialize_def alloc_set_def quar_rel_def quar_initialize_def)
  then show ?thesis using heap_rel_allocate heap_rel_deallocate heap_rel_may_deallocate by simp
qed

text \<open>A heap of 4096 bytes with one place in its quarantine: after an allocation and a deallocation the slot waits.\<close>

theorem heap_refines_set_witness:
  "\<exists>h h'. heap_allocate (heap_initialize 64 (2 ^ 12) 8 1) = Some (64 + 2048, h) \<and> heap_deallocate (64 + 2048) h = Some h'
    \<and> heap_rel h' {0} [0]"
proof -
  let ?h = "heap_initialize 64 (2 ^ 12) 8 1"
  note spec = heap_refines_set [of 64 12 8 1, THEN conjunct2, rule_format]
  have least: "(LEAST i :: nat. i \<notin> {}) = 0" by (rule Least_equality) simp_all
  have "bit_length 0 = 0" by (subst bit_length.simps) simp
  then have "bit_length 1 = 1" by (subst bit_length.simps) simp
  then have p: "index2pos (h_size ?h) (h_slot_size ?h) 0 = Some 2048"
    by (simp add: index2pos_def heap_initialize_def Let_def)
  then have s: "has_slot ?h 0" "slot_ptr ?h 0 = 64 + 2048" by (simp_all add: has_slot_def slot_ptr_def heap_initialize_def)
  obtain h where h: "heap_allocate ?h = Some (64 + 2048, h)" "heap_rel h {0} []"
    using spec [OF heap_refines_set [THEN conjunct1], THEN conjunct1, of 64 12 8 1] unfolding least s(2) using s(1) by auto
  note f = heap_allocate_frame [OF h(1)]
  have "\<not> quar_full (h_quarantine h) []" "slot_ptr h 0 = 64 + 2048"
    using f s(2) same_layout(1) [of h ?h] by (simp_all add: quar_full_def heap_initialize_def quar_initialize_def)
  then show ?thesis using spec [OF h(2), THEN conjunct2, THEN conjunct1, THEN bspec, of 0] h(1) by (auto split: if_split_asm)
qed

end
