(* ===== verification/Large_Object_Heap.thy ===== *)
theory Large_Object_Heap
  imports Sized_Heap
begin

unbundle bit_operations_syntax

text \<open>
  \<^verbatim>\<open>large_object_heap_t\<close> of \<^verbatim>\<open>include/pseudoalloc/pseudoalloc.h\<close>: objects of more than 4096 bytes, each
  in the middle of the largest free range. \<^verbatim>\<open>map1\<close> maps the sizes of the free ranges to their positions,
  largest first; \<^verbatim>\<open>map2\<close> maps the positions to the sizes. Sizes and addresses are 64-bit words, since
  the arithmetic on them can wrap around. An access to a missing entry is \<open>None\<close>.
\<close>

definition round_up_to_multiple_of_4096 :: "64 word \<Rightarrow> 64 word" where
  "round_up_to_multiple_of_4096 x = ((x - 1) OR (4096 - 1)) + 1"

record loh =
  loh_map1 :: "(64 word \<times> 64 word list) list"
  loh_map2 :: "(64 word, 64 word) smap"
  loh_quarantine :: "(64 word \<times> 64 word) quar"

definition loh_initialize :: "64 word \<Rightarrow> 64 word \<Rightarrow> nat \<Rightarrow> loh" where
  "loh_initialize base sz quarantine_size =
     \<lparr>loh_map1 = [(sz, [base])], loh_map2 = [(base, sz)], loh_quarantine = quar_initialize quarantine_size\<rparr>"

text \<open>\<^verbatim>\<open>try_emplace\<close> (or the insertion of an extracted node) and \<^verbatim>\<open>emplace_back\<close> on a map in descending order.\<close>

fun map1_add :: "64 word \<Rightarrow> 64 word \<Rightarrow> (64 word \<times> 64 word list) list \<Rightarrow> (64 word \<times> 64 word list) list" where
  "map1_add sz p [] = [(sz, [p])]"
| "map1_add sz p ((k, v) # m) =
     (if k = sz then (k, v @ [p]) # m
      else if k < sz then (sz, [p]) # (k, v) # m
      else (k, v) # map1_add sz p m)"

text \<open>Replace the vector of a size; an empty vector is erased.\<close>

definition map1_set :: "64 word \<Rightarrow> 64 word list \<Rightarrow> (64 word \<times> 64 word list) list \<Rightarrow> (64 word \<times> 64 word list) list" where
  "map1_set sz v m = (if v = [] then filter (\<lambda>(k, _). k \<noteq> sz) m else map (\<lambda>(k, w). if k = sz then (k, v) else (k, w)) m)"

definition loh_allocate :: "64 word \<Rightarrow> loh \<Rightarrow> (64 word \<times> loh) option" where
  "loh_allocate sz h =
     (let sz = round_up_to_multiple_of_4096 sz in
      case loh_map1 h of
        [] \<Rightarrow> None
      | (range_size, v) # rest \<Rightarrow>
          if range_size + 2 * 4096 < sz \<or> v = [] then None
          else let range_pos = last v;
                   m = (if butlast v = [] then rest else (range_size, butlast v) # rest);
                   offset = round_up_to_multiple_of_4096 ((range_size - sz) div 2);
                   left_size = offset;
                   right_size = range_size - offset - sz;
                   right_pos = range_pos + offset + sz;
                   m = map1_add left_size range_pos m;
                   m = map1_add right_size right_pos m in
               if \<not> smap_has range_pos (loh_map2 h) then None
               else let m2 = smap_put range_pos left_size (loh_map2 h);
                        m2 = (if smap_has right_pos m2 then m2 else smap_put right_pos right_size m2) in
                 Some (range_pos + offset, h\<lparr>loh_map1 := m, loh_map2 := m2\<rparr>))"

text \<open>Overwrite the first occurrence by the last element and drop the last element.\<close>

definition swap_remove :: "64 word \<Rightarrow> 64 word list \<Rightarrow> 64 word list option" where
  "swap_remove x v = map_option butlast (replace_first x (last v) v)"

text \<open>
  Two neighbours of the same size: the one found first is overwritten by the last element, the other
  one, searched from there up to the last element, by the last but one.
\<close>

definition swap_remove_two :: "64 word \<Rightarrow> 64 word \<Rightarrow> 64 word list \<Rightarrow> 64 word list option" where
  "swap_remove_two left_pos right_pos v =
     (let before = takeWhile (\<lambda>x. x \<noteq> left_pos \<and> x \<noteq> right_pos) v;
          i = length before in
      if i \<ge> length v then None
      else let other = (if v ! i = left_pos then right_pos else left_pos);
               v = v[i := last v];
               i = i + length (takeWhile (\<lambda>x. x \<noteq> other) (drop i (butlast v))) in
        if i \<ge> length v - 1 then None
        else Some (butlast (butlast (v[i := v ! (length v - 2)]))))"

definition map1_remove :: "64 word \<Rightarrow> 64 word \<Rightarrow> (64 word \<times> 64 word list) list \<Rightarrow> (64 word \<times> 64 word list) list option" where
  "map1_remove sz p m = do {
     v \<leftarrow> map_of m sz;
     v \<leftarrow> swap_remove p v;
     Some (map1_set sz v m) }"

text \<open>\<^verbatim>\<open>upper_bound(ptr)\<close> and the entry before it.\<close>

definition neighbours :: "64 word \<Rightarrow> (64 word, 64 word) smap \<Rightarrow> ((64 word \<times> 64 word) \<times> (64 word \<times> 64 word)) option" where
  "neighbours ptr m =
     (let left = takeWhile (\<lambda>(k, _). k \<le> ptr) m; right = dropWhile (\<lambda>(k, _). k \<le> ptr) m in
      if left = [] \<or> right = [] then None else Some (last left, hd right))"

definition loh_release :: "64 word \<Rightarrow> 64 word \<Rightarrow> loh \<Rightarrow> loh option" where
  "loh_release ptr sz h = do {
     ((left_pos, left_size), (right_pos, right_size)) \<leftarrow> neighbours ptr (loh_map2 h);
     m \<leftarrow> (if left_size = right_size then do {
            v \<leftarrow> map_of (loh_map1 h) left_size;
            v \<leftarrow> swap_remove_two left_pos right_pos v;
            Some (map1_set left_size v (loh_map1 h)) }
          else do {
            m \<leftarrow> map1_remove left_size left_pos (loh_map1 h);
            map1_remove right_size right_pos m });
     let combined_size = left_size + sz + right_size;
     Some (h\<lparr>loh_map1 := map1_add combined_size left_pos m,
             loh_map2 := smap_erase right_pos (smap_put left_pos combined_size (loh_map2 h))\<rparr>) }"

definition loh_deallocate :: "64 word \<Rightarrow> 64 word \<Rightarrow> loh \<Rightarrow> loh option" where
  "loh_deallocate ptr sz h =
     (let ((ptr, sz), q) = quar_deallocate (0, 0) (ptr, sz) (loh_quarantine h);
          h = h\<lparr>loh_quarantine := q\<rparr> in
      if ptr = 0 then Some h else loh_release ptr (round_up_to_multiple_of_4096 sz) h)"

section \<open>The red zone\<close>

text \<open>
  C39. The assertion against zero red zones in \<^verbatim>\<open>large_object_heap_t::allocate\<close> adds the two pages to the
  wrong side. A request for the whole of the heap passes it, as long as the sum does not wrap, and gets
  an object at the very beginning of the heap that ends at its end, with free ranges of size 0 before and
  after it.
\<close>

theorem loh_no_red_zone:
  assumes "round_up_to_multiple_of_4096 sz = sz" "sz \<le> sz + 2 * 4096" "sz \<noteq> 0"
  shows "\<exists>h. loh_allocate sz (loh_initialize base sz q) = Some (base, h)
    \<and> map_of (loh_map2 h) base = Some 0 \<and> map_of (loh_map2 h) (base + sz) = Some 0"
proof -
  have z: "round_up_to_multiple_of_4096 0 = 0" by (simp add: round_up_to_multiple_of_4096_def)
  have ok: "smap_ok [(base, 0 :: 64 word)]" by (simp add: smap_ok_def)
  have put: "smap_put base 0 [(base, sz)] = [(base, 0)]" by simp
  let ?m2 = "smap_put (base + sz) 0 [(base, 0 :: 64 word)]"
  have "\<not> sz + 2 * 4096 < sz" using assms(2) by (simp only: not_less)
  then have "loh_allocate sz (loh_initialize base sz q) =
      Some (base, (loh_initialize base sz q)\<lparr>loh_map1 := map1_add 0 (base + sz) (map1_add 0 base []), loh_map2 := ?m2\<rparr>)"
    using assms(1,3) by (simp add: loh_allocate_def loh_initialize_def Let_def z put smap_has_def)
  then have "\<exists>h. loh_allocate sz (loh_initialize base sz q) = Some (base, h) \<and> loh_map2 h = ?m2" by simp
  moreover have "map_of ?m2 base = Some 0" "map_of ?m2 (base + sz) = Some 0"
    using assms(3) by (simp_all add: map_of_smap_put [OF ok])
  ultimately show ?thesis by metis
qed

theorem loh_no_red_zone_witness:
  "\<exists>h. loh_allocate 8192 (loh_initialize 65536 8192 0) = Some (65536, h) \<and> map_of (loh_map2 h) (65536 + 8192) = Some 0"
proof -
  have "round_up_to_multiple_of_4096 8192 = 8192" by (simp add: round_up_to_multiple_of_4096_def)
  moreover have "(8192 :: 64 word) \<le> 8192 + 2 * 4096" "(8192 :: 64 word) \<noteq> 0" by simp_all
  ultimately show ?thesis using loh_no_red_zone [of 8192 65536 0] by auto
qed

end
