(* ===== verification/APInt.thy ===== *)
theory APInt
  imports Por_Prelude "HOL-Library.Word" "HOL-Library.Signed_Division"
begin

text \<open>
  \<^verbatim>\<open>llvm::APInt\<close> as the expression library uses it. LLVM is not part of the sources, so its operations are
  a parameter of the model: a record of functions on an unspecified type of values. The locale states
  what LLVM documents of them, two's complement arithmetic at a fixed width; operands of a binary operation
  have the same width, and a divisor is not zero. Bit lists are one implementation of it.
\<close>

unbundle bit_operations_syntax

section \<open>Operations\<close>

record 'a apint_ops =
  ap_width :: "'a \<Rightarrow> nat"
  ap_uint :: "'a \<Rightarrow> int"
  ap_make :: "nat \<Rightarrow> int \<Rightarrow> 'a"
  ap_zextOrTrunc :: "'a \<Rightarrow> nat \<Rightarrow> 'a"
  ap_sextOrTrunc :: "'a \<Rightarrow> nat \<Rightarrow> 'a"
  ap_add :: "'a \<Rightarrow> 'a \<Rightarrow> 'a"
  ap_sub :: "'a \<Rightarrow> 'a \<Rightarrow> 'a"
  ap_mul :: "'a \<Rightarrow> 'a \<Rightarrow> 'a"
  ap_udiv :: "'a \<Rightarrow> 'a \<Rightarrow> 'a"
  ap_sdiv :: "'a \<Rightarrow> 'a \<Rightarrow> 'a"
  ap_urem :: "'a \<Rightarrow> 'a \<Rightarrow> 'a"
  ap_srem :: "'a \<Rightarrow> 'a \<Rightarrow> 'a"
  ap_and :: "'a \<Rightarrow> 'a \<Rightarrow> 'a"
  ap_or :: "'a \<Rightarrow> 'a \<Rightarrow> 'a"
  ap_xor :: "'a \<Rightarrow> 'a \<Rightarrow> 'a"
  ap_shl :: "'a \<Rightarrow> 'a \<Rightarrow> 'a"
  ap_lshr :: "'a \<Rightarrow> 'a \<Rightarrow> 'a"
  ap_ashr :: "'a \<Rightarrow> 'a \<Rightarrow> 'a"
  ap_not :: "'a \<Rightarrow> 'a"
  ap_shl_by :: "'a \<Rightarrow> nat \<Rightarrow> 'a"
  ap_ashr_by :: "'a \<Rightarrow> nat \<Rightarrow> 'a"
  ap_ult :: "'a \<Rightarrow> 'a \<Rightarrow> bool"
  ap_ule :: "'a \<Rightarrow> 'a \<Rightarrow> bool"
  ap_slt :: "'a \<Rightarrow> 'a \<Rightarrow> bool"
  ap_sle :: "'a \<Rightarrow> 'a \<Rightarrow> bool"

text \<open>The value read as a signed number.\<close>

definition ap_sint :: "('a, 'b) apint_ops_scheme \<Rightarrow> 'a \<Rightarrow> int" where
  "ap_sint A x = signed_take_bit (ap_width A x - 1) (ap_uint A x)"

text \<open>Two values an operation may be applied to.\<close>

definition ap_same :: "('a, 'b) apint_ops_scheme \<Rightarrow> 'a \<Rightarrow> 'a \<Rightarrow> bool" where
  "ap_same A x y \<longleftrightarrow> 0 < ap_width A x \<and> ap_width A y = ap_width A x"

section \<open>Laws\<close>

locale apint =
  fixes A :: "'a apint_ops"
  assumes ap_eqI: "ap_width A x = ap_width A y \<Longrightarrow> ap_uint A x = ap_uint A y \<Longrightarrow> x = y"
    and ap_range: "take_bit (ap_width A x) (ap_uint A x) = ap_uint A x"
    and make_width: "0 < w \<Longrightarrow> ap_width A (ap_make A w v) = w"
    and make_uint: "0 < w \<Longrightarrow> ap_uint A (ap_make A w v) = take_bit w v"
    and zext_width: "0 < w \<Longrightarrow> ap_width A (ap_zextOrTrunc A x w) = w"
    and zext_uint: "0 < w \<Longrightarrow> ap_uint A (ap_zextOrTrunc A x w) = take_bit w (ap_uint A x)"
    and sext_width: "0 < w \<Longrightarrow> ap_width A (ap_sextOrTrunc A x w) = w"
    and sext_uint: "0 < w \<Longrightarrow> ap_uint A (ap_sextOrTrunc A x w) = take_bit w (ap_sint A x)"
    and add_width: "ap_same A x y \<Longrightarrow> ap_width A (ap_add A x y) = ap_width A x"
    and add_uint: "ap_same A x y \<Longrightarrow> ap_uint A (ap_add A x y) = take_bit (ap_width A x) (ap_uint A x + ap_uint A y)"
    and sub_width: "ap_same A x y \<Longrightarrow> ap_width A (ap_sub A x y) = ap_width A x"
    and sub_uint: "ap_same A x y \<Longrightarrow> ap_uint A (ap_sub A x y) = take_bit (ap_width A x) (ap_uint A x - ap_uint A y)"
    and mul_width: "ap_same A x y \<Longrightarrow> ap_width A (ap_mul A x y) = ap_width A x"
    and mul_uint: "ap_same A x y \<Longrightarrow> ap_uint A (ap_mul A x y) = take_bit (ap_width A x) (ap_uint A x * ap_uint A y)"
    and udiv_width: "ap_same A x y \<Longrightarrow> ap_uint A y \<noteq> 0 \<Longrightarrow> ap_width A (ap_udiv A x y) = ap_width A x"
    and udiv_uint: "ap_same A x y \<Longrightarrow> ap_uint A y \<noteq> 0 \<Longrightarrow> ap_uint A (ap_udiv A x y) = ap_uint A x div ap_uint A y"
    and sdiv_width: "ap_same A x y \<Longrightarrow> ap_uint A y \<noteq> 0 \<Longrightarrow> ap_width A (ap_sdiv A x y) = ap_width A x"
    and sdiv_uint: "ap_same A x y \<Longrightarrow> ap_uint A y \<noteq> 0
      \<Longrightarrow> ap_uint A (ap_sdiv A x y) = take_bit (ap_width A x) (ap_sint A x sdiv ap_sint A y)"
    and urem_width: "ap_same A x y \<Longrightarrow> ap_uint A y \<noteq> 0 \<Longrightarrow> ap_width A (ap_urem A x y) = ap_width A x"
    and urem_uint: "ap_same A x y \<Longrightarrow> ap_uint A y \<noteq> 0 \<Longrightarrow> ap_uint A (ap_urem A x y) = ap_uint A x mod ap_uint A y"
    and srem_width: "ap_same A x y \<Longrightarrow> ap_uint A y \<noteq> 0 \<Longrightarrow> ap_width A (ap_srem A x y) = ap_width A x"
    and srem_uint: "ap_same A x y \<Longrightarrow> ap_uint A y \<noteq> 0
      \<Longrightarrow> ap_uint A (ap_srem A x y) = take_bit (ap_width A x) (ap_sint A x smod ap_sint A y)"
    and and_width: "ap_same A x y \<Longrightarrow> ap_width A (ap_and A x y) = ap_width A x"
    and and_uint: "ap_same A x y \<Longrightarrow> ap_uint A (ap_and A x y) = ap_uint A x AND ap_uint A y"
    and or_width: "ap_same A x y \<Longrightarrow> ap_width A (ap_or A x y) = ap_width A x"
    and or_uint: "ap_same A x y \<Longrightarrow> ap_uint A (ap_or A x y) = ap_uint A x OR ap_uint A y"
    and xor_width: "ap_same A x y \<Longrightarrow> ap_width A (ap_xor A x y) = ap_width A x"
    and xor_uint: "ap_same A x y \<Longrightarrow> ap_uint A (ap_xor A x y) = ap_uint A x XOR ap_uint A y"
    and shl_width: "ap_same A x y \<Longrightarrow> ap_width A (ap_shl A x y) = ap_width A x"
    and shl_uint: "ap_same A x y
      \<Longrightarrow> ap_uint A (ap_shl A x y) = take_bit (ap_width A x) (push_bit (nat (ap_uint A y)) (ap_uint A x))"
    and lshr_width: "ap_same A x y \<Longrightarrow> ap_width A (ap_lshr A x y) = ap_width A x"
    and lshr_uint: "ap_same A x y \<Longrightarrow> ap_uint A (ap_lshr A x y) = drop_bit (nat (ap_uint A y)) (ap_uint A x)"
    and ashr_width: "ap_same A x y \<Longrightarrow> ap_width A (ap_ashr A x y) = ap_width A x"
    and ashr_uint: "ap_same A x y
      \<Longrightarrow> ap_uint A (ap_ashr A x y) = take_bit (ap_width A x) (drop_bit (nat (ap_uint A y)) (ap_sint A x))"
    and not_width: "ap_width A (ap_not A x) = ap_width A x"
    and not_uint: "ap_uint A (ap_not A x) = take_bit (ap_width A x) (NOT (ap_uint A x))"
    and shl_by_width: "n < ap_width A x \<Longrightarrow> ap_width A (ap_shl_by A x n) = ap_width A x"
    and shl_by_uint: "n < ap_width A x \<Longrightarrow> ap_uint A (ap_shl_by A x n) = take_bit (ap_width A x) (push_bit n (ap_uint A x))"
    and ashr_by_width: "n < ap_width A x \<Longrightarrow> ap_width A (ap_ashr_by A x n) = ap_width A x"
    and ashr_by_uint: "n < ap_width A x \<Longrightarrow> ap_uint A (ap_ashr_by A x n) = take_bit (ap_width A x) (drop_bit n (ap_sint A x))"
    and ult_iff: "ap_same A x y \<Longrightarrow> ap_ult A x y \<longleftrightarrow> ap_uint A x < ap_uint A y"
    and ule_iff: "ap_same A x y \<Longrightarrow> ap_ule A x y \<longleftrightarrow> ap_uint A x \<le> ap_uint A y"
    and slt_iff: "ap_same A x y \<Longrightarrow> ap_slt A x y \<longleftrightarrow> ap_sint A x < ap_sint A y"
    and sle_iff: "ap_same A x y \<Longrightarrow> ap_sle A x y \<longleftrightarrow> ap_sint A x \<le> ap_sint A y"
begin

lemmas ap_widths = make_width zext_width sext_width add_width sub_width mul_width udiv_width sdiv_width
  urem_width srem_width and_width or_width xor_width shl_width lshr_width ashr_width not_width
  shl_by_width ashr_by_width

lemmas ap_uints = make_uint zext_uint sext_uint add_uint sub_uint mul_uint and_uint or_uint xor_uint not_uint

lemma same_sym: "ap_same A x y \<Longrightarrow> ap_same A y x"
  by (simp add: ap_same_def)

lemma same_trans: "ap_same A x y \<Longrightarrow> ap_same A y z \<Longrightarrow> ap_same A x z"
  by (simp add: ap_same_def)

lemma uint_nonneg: "0 \<le> ap_uint A x"
  using ap_range [of x] take_bit_nonnegative [of "ap_width A x" "ap_uint A x"] by simp

text \<open>The laws of arithmetic modulo a power of two that the rewriting of sums uses.\<close>

lemma add_commute: "ap_same A x y \<Longrightarrow> ap_add A x y = ap_add A y x"
  by (rule ap_eqI) (simp_all add: add_width add_uint same_sym ap_same_def algebra_simps)

lemma same_add [simp]: "ap_same A x y \<Longrightarrow> ap_same A x (ap_add A x y)" "ap_same A x y \<Longrightarrow> ap_same A x (ap_sub A x y)"
  by (simp_all add: ap_same_def add_width sub_width)

lemma arith_uint:
  "ap_same A x y \<Longrightarrow> ap_uint A (ap_add A x y) = (ap_uint A x + ap_uint A y) mod 2 ^ ap_width A x"
  "ap_same A x y \<Longrightarrow> ap_uint A (ap_sub A x y) = (ap_uint A x - ap_uint A y) mod 2 ^ ap_width A x"
  by (simp_all add: add_uint sub_uint take_bit_eq_mod)

lemmas arith_laws = ap_same_def add_width sub_width arith_uint mod_simps

lemma add_add: "ap_same A x y \<Longrightarrow> ap_same A x z \<Longrightarrow> ap_add A x (ap_add A y z) = ap_add A (ap_add A x y) z"
  by (rule ap_eqI) (simp_all add: arith_laws algebra_simps)

lemma add_sub: "ap_same A x y \<Longrightarrow> ap_same A x z \<Longrightarrow> ap_add A x (ap_sub A y z) = ap_sub A (ap_add A x y) z"
  by (rule ap_eqI) (simp_all add: arith_laws algebra_simps)

lemma sub_add: "ap_same A x y \<Longrightarrow> ap_same A x z \<Longrightarrow> ap_sub A x (ap_add A y z) = ap_sub A (ap_sub A x y) z"
  by (rule ap_eqI) (simp_all add: arith_laws algebra_simps)

lemma sub_sub: "ap_same A x y \<Longrightarrow> ap_same A x z \<Longrightarrow> ap_sub A x (ap_sub A y z) = ap_add A (ap_sub A x y) z"
  by (rule ap_eqI) (simp_all add: arith_laws algebra_simps)

lemma sub_self: "0 < ap_width A x \<Longrightarrow> ap_sub A x x = ap_make A (ap_width A x) 0"
  by (rule ap_eqI) (simp_all add: ap_same_def sub_width sub_uint ap_widths ap_uints)

lemma add_zero: "ap_same A x y \<Longrightarrow> ap_uint A x = 0 \<Longrightarrow> ap_add A x y = y"
  by (rule ap_eqI) (use ap_range [of y] in \<open>simp_all add: ap_same_def add_width add_uint\<close>)

lemma sub_constant: "ap_same A x y \<Longrightarrow> ap_add A (ap_sub A (ap_make A (ap_width A y) 0) y) x = ap_sub A x y"
  by (rule ap_eqI) (simp_all add: arith_laws ap_widths ap_uints algebra_simps)

text \<open>Values of one bit.\<close>

lemma bit_cases: "ap_width A x = 1 \<Longrightarrow> ap_uint A x = 0 \<or> ap_uint A x = 1"
  using ap_range [of x] take_bit_int_less_exp [of 1 "ap_uint A x"] uint_nonneg [of x] by auto

lemma bit_value: "ap_width A x = 1 \<Longrightarrow> x = ap_make A 1 (of_bool (ap_uint A x = 1))"
  using bit_cases [of x] by (intro ap_eqI) (auto simp: ap_widths ap_uints)

lemma bit_sint: "ap_width A x = 1 \<Longrightarrow> ap_sint A x = - ap_uint A x"
  using bit_cases [of x] by (auto simp: ap_sint_def)

end

section \<open>Bit lists\<close>

text \<open>The least significant bit comes first.\<close>

definition bv_of :: "nat \<Rightarrow> int \<Rightarrow> bool list" where
  "bv_of w i = map (bit i) [0..<w]"

definition bv_uint :: "bool list \<Rightarrow> int" where
  "bv_uint x = horner_sum of_bool 2 x"

definition bv_sint :: "bool list \<Rightarrow> int" where
  "bv_sint x = signed_take_bit (length x - 1) (bv_uint x)"

definition bv_ops :: "bool list apint_ops" where
  "bv_ops = \<lparr>ap_width = length, ap_uint = bv_uint, ap_make = bv_of,
     ap_zextOrTrunc = (\<lambda>x w. bv_of w (bv_uint x)), ap_sextOrTrunc = (\<lambda>x w. bv_of w (bv_sint x)),
     ap_add = (\<lambda>x y. bv_of (length x) (bv_uint x + bv_uint y)),
     ap_sub = (\<lambda>x y. bv_of (length x) (bv_uint x - bv_uint y)),
     ap_mul = (\<lambda>x y. bv_of (length x) (bv_uint x * bv_uint y)),
     ap_udiv = (\<lambda>x y. bv_of (length x) (bv_uint x div bv_uint y)),
     ap_sdiv = (\<lambda>x y. bv_of (length x) (bv_sint x sdiv bv_sint y)),
     ap_urem = (\<lambda>x y. bv_of (length x) (bv_uint x mod bv_uint y)),
     ap_srem = (\<lambda>x y. bv_of (length x) (bv_sint x smod bv_sint y)),
     ap_and = (\<lambda>x y. bv_of (length x) (bv_uint x AND bv_uint y)),
     ap_or = (\<lambda>x y. bv_of (length x) (bv_uint x OR bv_uint y)),
     ap_xor = (\<lambda>x y. bv_of (length x) (bv_uint x XOR bv_uint y)),
     ap_shl = (\<lambda>x y. bv_of (length x) (push_bit (nat (bv_uint y)) (bv_uint x))),
     ap_lshr = (\<lambda>x y. bv_of (length x) (drop_bit (nat (bv_uint y)) (bv_uint x))),
     ap_ashr = (\<lambda>x y. bv_of (length x) (drop_bit (nat (bv_uint y)) (bv_sint x))),
     ap_not = (\<lambda>x. bv_of (length x) (NOT (bv_uint x))),
     ap_shl_by = (\<lambda>x n. bv_of (length x) (push_bit n (bv_uint x))),
     ap_ashr_by = (\<lambda>x n. bv_of (length x) (drop_bit n (bv_sint x))),
     ap_ult = (\<lambda>x y. bv_uint x < bv_uint y), ap_ule = (\<lambda>x y. bv_uint x \<le> bv_uint y),
     ap_slt = (\<lambda>x y. bv_sint x < bv_sint y), ap_sle = (\<lambda>x y. bv_sint x \<le> bv_sint y)\<rparr>"

lemma bv_of_length [simp]: "length (bv_of w i) = w"
  by (simp add: bv_of_def)

lemma bv_uint_of [simp]: "bv_uint (bv_of w i) = take_bit w i"
  by (simp add: bv_of_def bv_uint_def horner_sum_bit_eq_take_bit)

lemma bv_range: "take_bit (length x) (bv_uint x) = bv_uint x"
  by (rule bit_eqI) (auto simp: bv_uint_def bit_take_bit_iff bit_horner_sum_bit_iff)

lemma bv_nth: "i < length x \<Longrightarrow> bit (bv_uint x) i = x ! i"
  by (simp add: bv_uint_def bit_horner_sum_bit_iff)

lemma bv_eqI:
  assumes "length x = length y" "bv_uint x = bv_uint y"
  shows "x = y"
proof (rule nth_equalityI)
  show "x ! i = y ! i" if "i < length x" for i
    using bv_nth [of i x] bv_nth [of i y] that assms by simp
qed (rule assms(1))

lemma bv_bounds: "0 \<le> bv_uint x" "bv_uint x < 2 ^ length x"
  using bv_range [of x] take_bit_nonnegative [of "length x" "bv_uint x"] take_bit_int_less_exp [of "length x" "bv_uint x"]
  by simp_all

lemma bv_div_range: "take_bit (length x) (bv_uint x div bv_uint y) = bv_uint x div bv_uint y"
proof (rule take_bit_int_eq_self)
  show "0 \<le> bv_uint x div bv_uint y"
    using bv_bounds(1) [of x] bv_bounds(1) [of y] by (simp add: div_int_pos_iff)
  have "bv_uint x div bv_uint y \<le> bv_uint x"
    using bv_bounds(1) [of x] bv_bounds(1) [of y] zdiv_mono2 [of "bv_uint x" 1 "bv_uint y"]
    by (cases "bv_uint y = 0") simp_all
  then show "bv_uint x div bv_uint y < 2 ^ length x"
    using bv_bounds(2) [of x] by simp
qed

lemma bv_mod_range:
  assumes "bv_uint y \<noteq> 0" "length y = length x"
  shows "take_bit (length x) (bv_uint x mod bv_uint y) = bv_uint x mod bv_uint y"
proof (rule take_bit_int_eq_self)
  have "0 < bv_uint y" using bv_bounds(1) [of y] assms by simp
  then have "0 \<le> bv_uint x mod bv_uint y \<and> bv_uint x mod bv_uint y < bv_uint y" by simp
  then show "0 \<le> bv_uint x mod bv_uint y" "bv_uint x mod bv_uint y < 2 ^ length x"
    using bv_bounds(2) [of y] assms(2) by auto
qed

lemma bv_range_of: "length y = n \<Longrightarrow> take_bit n (bv_uint y) = bv_uint y"
  using bv_range [of y] by simp

lemma bv_drop_range: "take_bit (length x) (drop_bit n (bv_uint x)) = drop_bit n (bv_uint x)"
  by (rule bit_eqI) (auto simp: bit_take_bit_iff bit_drop_bit_eq bv_uint_def bit_horner_sum_bit_iff)

interpretation bv: apint bv_ops
  by unfold_locales
    (simp_all add: bv_ops_def ap_same_def ap_sint_def bv_sint_def bv_range bv_range_of bv_eqI bv_div_range
      bv_mod_range bv_drop_range)

end
