(* ===== verification/Expr_Create.thy ===== *)
theory Expr_Create
  imports APInt "HOL-Library.Monad_Syntax"
begin

text \<open>
  \<^verbatim>\<open>include/klee/Expr/Expr.h\<close> and \<^verbatim>\<open>lib/Expr/Expr.cpp\<close>: bit-vector expressions and the functions that build
  them. Each \<^verbatim>\<open>create\<close> simplifies while it builds: it folds constants, moves constants to the left of
  sums, rewrites one-bit arithmetic into boolean operations and removes reads of known bytes. A failing
  \<^verbatim>\<open>assert\<close> is \<open>None\<close>. \<^verbatim>\<open>X::create\<close> is \<open>X_create\<close> without the suffix \<^verbatim>\<open>Expr\<close>, the static helpers keep
  their names. \<^verbatim>\<open>--const-array-opt\<close> has its default value, off. Widths are natural numbers.
\<close>

section \<open>Expressions\<close>

datatype expr_kind = Add | Sub | Mul | UDiv | SDiv | URem | SRem | And | Or | Xor | Shl | LShr | AShr
  | Eq | Ne | Ult | Ule | Ugt | Uge | Slt | Sle | Sgt | Sge

definition is_cmp :: "expr_kind \<Rightarrow> bool" where
  "is_cmp k \<longleftrightarrow> k \<in> {Eq, Ne, Ult, Ule, Ugt, Uge, Slt, Sle, Sgt, Sge}"

text \<open>
  \<open>a_id\<close> is the address of the array object: arrays are compared by identity. No constant values mean
  that the array is symbolic.
\<close>

datatype 'a array = Array (a_id: nat) (a_name: string) (a_size: nat) (a_domain: nat) (a_range: nat) (a_values: "'a list")

text \<open>\<open>UpdateNode next index value\<close>; the head of the list is the most recent update.\<close>

datatype 'a expr =
    ConstantExpr 'a
  | NotOptimizedExpr "'a expr"
  | ReadExpr "'a array" "'a updates" "'a expr"
  | SelectExpr "'a expr" "'a expr" "'a expr"
  | ConcatExpr "'a expr" "'a expr"
  | ExtractExpr "'a expr" nat nat
  | ZExtExpr "'a expr" nat
  | SExtExpr "'a expr" nat
  | NotExpr "'a expr"
  | BinaryExpr expr_kind "'a expr" "'a expr"
and 'a updates =
    NoUpdate
  | UpdateNode "'a updates" "'a expr" "'a expr"

fun getWidth :: "'a apint_ops \<Rightarrow> 'a expr \<Rightarrow> nat" where
  "getWidth A (ConstantExpr c) = ap_width A c"
| "getWidth A (NotOptimizedExpr e) = getWidth A e"
| "getWidth A (ReadExpr a us i) = a_range a"
| "getWidth A (SelectExpr c t f) = getWidth A t"
| "getWidth A (ConcatExpr l r) = getWidth A l + getWidth A r"
| "getWidth A (ExtractExpr e off w) = w"
| "getWidth A (ZExtExpr e w) = w"
| "getWidth A (SExtExpr e w) = w"
| "getWidth A (NotExpr e) = getWidth A e"
| "getWidth A (BinaryExpr k l r) = (if is_cmp k then 1 else getWidth A l)"

definition isZero :: "'a apint_ops \<Rightarrow> 'a \<Rightarrow> bool" where
  "isZero A c \<longleftrightarrow> ap_uint A c = 0"

definition isOne :: "'a apint_ops \<Rightarrow> 'a \<Rightarrow> bool" where
  "isOne A c \<longleftrightarrow> ap_uint A c = 1"

definition isTrue :: "'a apint_ops \<Rightarrow> 'a \<Rightarrow> bool" where
  "isTrue A c \<longleftrightarrow> ap_width A c = 1 \<and> ap_uint A c \<noteq> 0"

definition isFalse :: "'a apint_ops \<Rightarrow> 'a \<Rightarrow> bool" where
  "isFalse A c \<longleftrightarrow> ap_width A c = 1 \<and> ap_uint A c = 0"

definition isAllOnes :: "'a apint_ops \<Rightarrow> 'a \<Rightarrow> bool" where
  "isAllOnes A c \<longleftrightarrow> ap_uint A c = mask (ap_width A c)"

text \<open>\<^verbatim>\<open>ConstantExpr::create\<close> checks that the value fits; \<^verbatim>\<open>truncateToNBits\<close> needs a positive width.\<close>

definition Constant_create :: "'a apint_ops \<Rightarrow> int \<Rightarrow> nat \<Rightarrow> 'a expr option" where
  "Constant_create A v w = (if w \<le> 64 \<and> (w = 0 \<or> take_bit w v \<noteq> v) then None else Some (ConstantExpr (ap_make A w v)))"

text \<open>\<^verbatim>\<open>dyn_cast<ConstantExpr>\<close>.\<close>

fun as_const :: "'a expr \<Rightarrow> 'a option" where
  "as_const (ConstantExpr c) = Some c"
| "as_const _ = None"

lemma as_const_SomeD: "as_const e = Some c \<Longrightarrow> e = ConstantExpr c"
  by (cases e) simp_all

section \<open>Operations on constants\<close>

definition Constant_Concat :: "'a apint_ops \<Rightarrow> 'a \<Rightarrow> 'a \<Rightarrow> 'a" where
  "Constant_Concat A x y =
     (let W = ap_width A x + ap_width A y;
          Tmp = ap_zextOrTrunc A x W;
          Tmp = ap_shl_by A Tmp (ap_width A y)
      in ap_or A Tmp (ap_zextOrTrunc A y W))"

definition Constant_Extract :: "'a apint_ops \<Rightarrow> 'a \<Rightarrow> nat \<Rightarrow> nat \<Rightarrow> 'a" where
  "Constant_Extract A x off w = ap_zextOrTrunc A (ap_ashr_by A x off) w"

fun Constant_op :: "'a apint_ops \<Rightarrow> expr_kind \<Rightarrow> 'a \<Rightarrow> 'a \<Rightarrow> 'a" where
  "Constant_op A Add x y = ap_add A x y"
| "Constant_op A Sub x y = ap_sub A x y"
| "Constant_op A Mul x y = ap_mul A x y"
| "Constant_op A UDiv x y = ap_udiv A x y"
| "Constant_op A SDiv x y = ap_sdiv A x y"
| "Constant_op A URem x y = ap_urem A x y"
| "Constant_op A SRem x y = ap_srem A x y"
| "Constant_op A And x y = ap_and A x y"
| "Constant_op A Or x y = ap_or A x y"
| "Constant_op A Xor x y = ap_xor A x y"
| "Constant_op A Shl x y = ap_shl A x y"
| "Constant_op A LShr x y = ap_lshr A x y"
| "Constant_op A AShr x y = ap_ashr A x y"
| "Constant_op A Eq x y = ap_make A 1 (of_bool (x = y))"
| "Constant_op A Ne x y = ap_make A 1 (of_bool (x \<noteq> y))"
| "Constant_op A Ult x y = ap_make A 1 (of_bool (ap_ult A x y))"
| "Constant_op A Ule x y = ap_make A 1 (of_bool (ap_ule A x y))"
| "Constant_op A Ugt x y = ap_make A 1 (of_bool (ap_ult A y x))"
| "Constant_op A Uge x y = ap_make A 1 (of_bool (ap_ule A y x))"
| "Constant_op A Slt x y = ap_make A 1 (of_bool (ap_slt A x y))"
| "Constant_op A Sle x y = ap_make A 1 (of_bool (ap_sle A x y))"
| "Constant_op A Sgt x y = ap_make A 1 (of_bool (ap_slt A y x))"
| "Constant_op A Sge x y = ap_make A 1 (of_bool (ap_sle A y x))"

text \<open>
  \<^verbatim>\<open>X::create(cl, cr)\<close> of two constants takes the folding branch of every \<^verbatim>\<open>create\<close>, after the
  check of the widths.
\<close>

definition fold_constants :: "'a apint_ops \<Rightarrow> expr_kind \<Rightarrow> 'a \<Rightarrow> 'a \<Rightarrow> 'a option" where
  "fold_constants A k x y = (if ap_width A x = ap_width A y then Some (Constant_op A k x y) else None)"

section \<open>The shapes the builders share\<close>

text \<open>The macros \<^verbatim>\<open>BCREATE_R\<close> and \<^verbatim>\<open>BCREATE\<close>; \<^verbatim>\<open>CMPCREATE_T\<close> and \<^verbatim>\<open>CMPCREATE\<close> have the same bodies.\<close>

definition BCREATE_R :: "'a apint_ops \<Rightarrow> expr_kind \<Rightarrow> ('a expr \<Rightarrow> 'a \<Rightarrow> 'a expr option) \<Rightarrow> ('a \<Rightarrow> 'a expr \<Rightarrow> 'a expr option)
    \<Rightarrow> ('a expr \<Rightarrow> 'a expr \<Rightarrow> 'a expr option) \<Rightarrow> 'a expr \<Rightarrow> 'a expr \<Rightarrow> 'a expr option" where
  "BCREATE_R A k partialL partialR create l r =
     (if getWidth A l \<noteq> getWidth A r then None
      else case as_const l of
        Some cl \<Rightarrow> (case as_const r of Some cr \<Rightarrow> Some (ConstantExpr (Constant_op A k cl cr)) | None \<Rightarrow> partialR cl r)
      | None \<Rightarrow> (case as_const r of Some cr \<Rightarrow> partialL l cr | None \<Rightarrow> create l r))"

definition BCREATE :: "'a apint_ops \<Rightarrow> expr_kind \<Rightarrow> ('a expr \<Rightarrow> 'a expr \<Rightarrow> 'a expr option)
    \<Rightarrow> 'a expr \<Rightarrow> 'a expr \<Rightarrow> 'a expr option" where
  "BCREATE A k create l r = BCREATE_R A k (\<lambda>l cr. create l (ConstantExpr cr)) (\<lambda>cl r. create (ConstantExpr cl) r) create l r"

text \<open>\<^verbatim>\<open>rk == k && isa<ConstantExpr>(r->getKid(0))\<close>, with the two kids.\<close>

definition const_left :: "expr_kind \<Rightarrow> 'a expr \<Rightarrow> ('a \<times> 'a expr) option" where
  "const_left k e = (case e of
      BinaryExpr k' l r \<Rightarrow> if k' = k then (case l of ConstantExpr c \<Rightarrow> Some (c, r) | _ \<Rightarrow> None) else None
    | _ \<Rightarrow> None)"

definition binary_kids :: "expr_kind \<Rightarrow> 'a expr \<Rightarrow> ('a expr \<times> 'a expr) option" where
  "binary_kids k e = (case e of BinaryExpr k' l r \<Rightarrow> if k' = k then Some (l, r) else None | _ \<Rightarrow> None)"

fun sext_src :: "'a expr \<Rightarrow> 'a expr option" where
  "sext_src (SExtExpr src w) = Some src"
| "sext_src _ = None"

fun zext_src :: "'a expr \<Rightarrow> 'a expr option" where
  "zext_src (ZExtExpr src w) = Some src"
| "zext_src _ = None"

lemma ext_src_SomeD: "sext_src e = Some x \<Longrightarrow> \<exists>w. e = SExtExpr x w" "zext_src e = Some x \<Longrightarrow> \<exists>w. e = ZExtExpr x w"
  by (cases e; simp)+

section \<open>Conjunction and disjunction\<close>

definition AndExpr_createPartial :: "'a apint_ops \<Rightarrow> 'a expr \<Rightarrow> 'a \<Rightarrow> 'a expr option" where
  "AndExpr_createPartial A l cr =
     Some (if isAllOnes A cr then l else if isZero A cr then ConstantExpr cr else BinaryExpr And l (ConstantExpr cr))"

definition AndExpr_createPartialR :: "'a apint_ops \<Rightarrow> 'a \<Rightarrow> 'a expr \<Rightarrow> 'a expr option" where
  "AndExpr_createPartialR A cl r = AndExpr_createPartial A r cl"

definition And_create :: "'a apint_ops \<Rightarrow> 'a expr \<Rightarrow> 'a expr \<Rightarrow> 'a expr option" where
  "And_create A = BCREATE_R A And (AndExpr_createPartial A) (AndExpr_createPartialR A) (\<lambda>l r. Some (BinaryExpr And l r))"

definition OrExpr_createPartial :: "'a apint_ops \<Rightarrow> 'a expr \<Rightarrow> 'a \<Rightarrow> 'a expr option" where
  "OrExpr_createPartial A l cr =
     Some (if isAllOnes A cr then ConstantExpr cr else if isZero A cr then l else BinaryExpr Or l (ConstantExpr cr))"

definition OrExpr_createPartialR :: "'a apint_ops \<Rightarrow> 'a \<Rightarrow> 'a expr \<Rightarrow> 'a expr option" where
  "OrExpr_createPartialR A cl r = OrExpr_createPartial A r cl"

definition Or_create :: "'a apint_ops \<Rightarrow> 'a expr \<Rightarrow> 'a expr \<Rightarrow> 'a expr option" where
  "Or_create A = BCREATE_R A Or (OrExpr_createPartial A) (OrExpr_createPartialR A) (\<lambda>l r. Some (BinaryExpr Or l r))"

section \<open>Equality\<close>

definition EqExpr_create :: "'a apint_ops \<Rightarrow> 'a expr \<Rightarrow> 'a expr \<Rightarrow> 'a expr" where
  "EqExpr_create A l r = (if l = r then ConstantExpr (ap_make A 1 1) else BinaryExpr Eq l r)"

text \<open>
  \<^verbatim>\<open>EqExpr::create\<close>, \<^verbatim>\<open>Expr::createIsZero\<close> and \<^verbatim>\<open>EqExpr_createPartialR\<close> call each other on parts of
  their arguments. \<^verbatim>\<open>EqExpr_createPartial(l, cr)\<close> is \<^verbatim>\<open>EqExpr_createPartialR(cr, l)\<close>.
\<close>

function (sequential) Eq_create :: "'a apint_ops \<Rightarrow> 'a expr \<Rightarrow> 'a expr \<Rightarrow> 'a expr option"
  and createIsZero :: "'a apint_ops \<Rightarrow> 'a expr \<Rightarrow> 'a expr option"
  and EqExpr_createPartialR :: "'a apint_ops \<Rightarrow> 'a \<Rightarrow> 'a expr \<Rightarrow> 'a expr option" where
  "Eq_create A l r =
     (if getWidth A l \<noteq> getWidth A r then None
      else case as_const l of
        Some cl \<Rightarrow> (case as_const r of Some cr \<Rightarrow> Some (ConstantExpr (Constant_op A Eq cl cr))
                    | None \<Rightarrow> EqExpr_createPartialR A cl r)
      | None \<Rightarrow> (case as_const r of Some cr \<Rightarrow> EqExpr_createPartialR A cr l | None \<Rightarrow> Some (EqExpr_create A l r)))"
| "createIsZero A e =
     (if getWidth A e = 0 then None else Eq_create A e (ConstantExpr (ap_make A (getWidth A e) 0)))"
| "EqExpr_createPartialR A cl r =
     (if ap_width A cl = 1 then
        (if isTrue A cl then Some r
         else case binary_kids Or r of
           Some (a, b) \<Rightarrow> do { x \<leftarrow> createIsZero A a; y \<leftarrow> createIsZero A b; And_create A x y }
         | None \<Rightarrow>
             (case const_left Eq r of
                Some (ce, b) \<Rightarrow> if isFalse A ce then Some b else Some (EqExpr_create A (ConstantExpr cl) r)
              | None \<Rightarrow> Some (EqExpr_create A (ConstantExpr cl) r)))
      else case sext_src r of
        Some src \<Rightarrow>
          (let trunc = ap_zextOrTrunc A cl (getWidth A src) in
           if cl = ap_sextOrTrunc A trunc (ap_width A cl) then Eq_create A src (ConstantExpr trunc)
           else Constant_create A 0 1)
      | None \<Rightarrow> (case zext_src r of
          Some src \<Rightarrow>
            (let trunc = ap_zextOrTrunc A cl (getWidth A src) in
             if cl = ap_zextOrTrunc A trunc (ap_width A cl) then Eq_create A src (ConstantExpr trunc)
             else Constant_create A 0 1)
        | None \<Rightarrow> (case const_left Add r of
            Some (c, b) \<Rightarrow> do { d \<leftarrow> fold_constants A Sub cl c; EqExpr_createPartialR A d b }
          | None \<Rightarrow> (case const_left Sub r of
              Some (c, b) \<Rightarrow> do { d \<leftarrow> fold_constants A Sub c cl; EqExpr_createPartialR A d b }
            | None \<Rightarrow> Some (EqExpr_create A (ConstantExpr cl) r)))))"
  by pat_completeness auto

lemma const_left_SomeD: "const_left k e = Some (c, b) \<Longrightarrow> e = BinaryExpr k (ConstantExpr c) b"
  by (auto simp: const_left_def split: expr.splits if_splits)

lemma binary_kids_SomeD: "binary_kids k e = Some (a, b) \<Longrightarrow> e = BinaryExpr k a b"
  by (auto simp: binary_kids_def split: expr.splits if_splits)

lemma expr_size_pos [simp]: "0 < size (e :: 'a expr)"
  by (cases e) simp_all

lemma expr_size_triple [simp]: "Suc 0 < size e + (size e + size (e :: 'a expr))"
  using expr_size_pos [of e] by linarith

termination Eq_create
proof (relation "measure (\<lambda>x. case x of
      Inl (A, l, r) \<Rightarrow> 3 * (size l + size r)
    | Inr (Inl (A, e)) \<Rightarrow> 3 * size e + 5
    | Inr (Inr (A, cl, r)) \<Rightarrow> 3 * size r + 1)", goal_cases)
qed (auto dest!: const_left_SomeD binary_kids_SomeD as_const_SomeD ext_src_SomeD simp: numeral_eq_Suc)

text \<open>\<open>createIsZero\<close> passes a zero, which fits every positive width.\<close>

declare Eq_create.simps [simp del] createIsZero.simps [simp del] EqExpr_createPartialR.simps [simp del]

definition Ne_create :: "'a apint_ops \<Rightarrow> 'a expr \<Rightarrow> 'a expr \<Rightarrow> 'a expr option" where
  "Ne_create A l r = do { z \<leftarrow> Constant_create A 0 1; e \<leftarrow> Eq_create A l r; Eq_create A z e }"

definition createImplies :: "'a apint_ops \<Rightarrow> 'a expr \<Rightarrow> 'a expr \<Rightarrow> 'a expr option" where
  "createImplies A hyp conc = do { n \<leftarrow> createIsZero A hyp; Or_create A n conc }"

section \<open>Sums and differences\<close>

definition XorExpr_createPartialR :: "'a apint_ops \<Rightarrow> 'a \<Rightarrow> 'a expr \<Rightarrow> 'a expr option" where
  "XorExpr_createPartialR A cl r =
     (if isZero A cl then Some r
      else if ap_width A cl = 1 then EqExpr_createPartialR A (ap_make A 1 0) r
      else Some (BinaryExpr Xor (ConstantExpr cl) r))"

definition Xor_create :: "'a apint_ops \<Rightarrow> 'a expr \<Rightarrow> 'a expr \<Rightarrow> 'a expr option" where
  "Xor_create A = BCREATE_R A Xor (\<lambda>l cr. XorExpr_createPartialR A cr l) (XorExpr_createPartialR A)
     (\<lambda>l r. Some (BinaryExpr Xor l r))"

text \<open>
  \<^verbatim>\<open>AddExpr_createPartial(l, cr)\<close> is \<^verbatim>\<open>AddExpr_createPartialR(cr, l)\<close>, and \<^verbatim>\<open>SubExpr_createPartial\<close>
  adds the negated constant. Where one operand is a constant the calls go down the other operand;
  otherwise the inner call has smaller operands and the outer one a constant.
\<close>

function (sequential) AddExpr_createPartialR :: "'a apint_ops \<Rightarrow> 'a \<Rightarrow> 'a expr \<Rightarrow> 'a expr option"
  and SubExpr_createPartialR :: "'a apint_ops \<Rightarrow> 'a \<Rightarrow> 'a expr \<Rightarrow> 'a expr option"
  and AddExpr_create :: "'a apint_ops \<Rightarrow> 'a expr \<Rightarrow> 'a expr \<Rightarrow> 'a expr option"
  and SubExpr_create :: "'a apint_ops \<Rightarrow> 'a expr \<Rightarrow> 'a expr \<Rightarrow> 'a expr option"
  and Add_create :: "'a apint_ops \<Rightarrow> 'a expr \<Rightarrow> 'a expr \<Rightarrow> 'a expr option"
  and Sub_create :: "'a apint_ops \<Rightarrow> 'a expr \<Rightarrow> 'a expr \<Rightarrow> 'a expr option" where
  "AddExpr_createPartialR A cl r =
     (if ap_width A cl = 1 then XorExpr_createPartialR A cl r
      else if isZero A cl then Some r
      else case const_left Add r of
        Some (k, c) \<Rightarrow> do { s \<leftarrow> fold_constants A Add cl k; Add_create A (ConstantExpr s) c }
      | None \<Rightarrow> (case const_left Sub r of
          Some (k, c) \<Rightarrow> do { s \<leftarrow> fold_constants A Add cl k; Sub_create A (ConstantExpr s) c }
        | None \<Rightarrow> Some (BinaryExpr Add (ConstantExpr cl) r)))"
| "SubExpr_createPartialR A cl r =
     (if ap_width A cl = 1 then XorExpr_createPartialR A cl r
      else case const_left Add r of
        Some (k, c) \<Rightarrow> do { s \<leftarrow> fold_constants A Sub cl k; Sub_create A (ConstantExpr s) c }
      | None \<Rightarrow> (case const_left Sub r of
          Some (k, c) \<Rightarrow> do { s \<leftarrow> fold_constants A Sub cl k; Add_create A (ConstantExpr s) c }
        | None \<Rightarrow> Some (BinaryExpr Sub (ConstantExpr cl) r)))"
| "AddExpr_create A l r =
     (if getWidth A l = 1 then Some (BinaryExpr Xor l r)
      else case const_left Add l of
        Some (k, a) \<Rightarrow> do { x \<leftarrow> Add_create A a r; Add_create A (ConstantExpr k) x }
      | None \<Rightarrow> (case const_left Sub l of
          Some (k, a) \<Rightarrow> do { x \<leftarrow> Sub_create A r a; Add_create A (ConstantExpr k) x }
        | None \<Rightarrow> (case const_left Add r of
            Some (k, b) \<Rightarrow> do { x \<leftarrow> Add_create A l b; Add_create A (ConstantExpr k) x }
          | None \<Rightarrow> (case const_left Sub r of
              Some (k, b) \<Rightarrow> do { x \<leftarrow> Sub_create A l b; Add_create A (ConstantExpr k) x }
            | None \<Rightarrow> Some (BinaryExpr Add l r)))))"
| "SubExpr_create A l r =
     (if getWidth A l = 1 then Some (BinaryExpr Xor l r)
      else if l = r then Some (ConstantExpr (ap_make A (getWidth A l) 0))
      else case const_left Add l of
        Some (k, a) \<Rightarrow> do { x \<leftarrow> Sub_create A a r; Add_create A (ConstantExpr k) x }
      | None \<Rightarrow> (case const_left Sub l of
          Some (k, a) \<Rightarrow> do { x \<leftarrow> Add_create A a r; Sub_create A (ConstantExpr k) x }
        | None \<Rightarrow> (case const_left Add r of
            Some (k, b) \<Rightarrow> do { x \<leftarrow> Sub_create A l b; Sub_create A x (ConstantExpr k) }
          | None \<Rightarrow> (case const_left Sub r of
              Some (k, b) \<Rightarrow> do { x \<leftarrow> Add_create A l b; Sub_create A x (ConstantExpr k) }
            | None \<Rightarrow> Some (BinaryExpr Sub l r)))))"
| "Add_create A l r =
     (if getWidth A l \<noteq> getWidth A r then None
      else case as_const l of
        Some cl \<Rightarrow> (case as_const r of Some cr \<Rightarrow> Some (ConstantExpr (Constant_op A Add cl cr))
                    | None \<Rightarrow> AddExpr_createPartialR A cl r)
      | None \<Rightarrow> (case as_const r of Some cr \<Rightarrow> AddExpr_createPartialR A cr l | None \<Rightarrow> AddExpr_create A l r))"
| "Sub_create A l r =
     (if getWidth A l \<noteq> getWidth A r then None
      else case as_const l of
        Some cl \<Rightarrow> (case as_const r of Some cr \<Rightarrow> Some (ConstantExpr (Constant_op A Sub cl cr))
                    | None \<Rightarrow> SubExpr_createPartialR A cl r)
      | None \<Rightarrow> (case as_const r of
            Some cr \<Rightarrow>
              AddExpr_createPartialR A (Constant_op A Sub (ap_make A (ap_width A cr) 0) cr) l
          | None \<Rightarrow> SubExpr_create A l r))"
  by pat_completeness auto

text \<open>Calls with a constant operand come after those without, and smaller operands after larger ones.\<close>

definition sum_rank :: "'a expr \<Rightarrow> 'a expr \<Rightarrow> nat \<Rightarrow> nat \<times> nat \<times> nat" where
  "sum_rank l r n = (if as_const l = None \<and> as_const r = None then 1 else 0, size l + size r, n)"

termination AddExpr_createPartialR
proof (relation "inv_image (less_than <*lex*> less_than <*lex*> less_than) (\<lambda>x. case x of
      Inl (Inl (A, cl, r)) \<Rightarrow> (0, size r + 1, 1)
    | Inl (Inr (Inl (A, cl, r))) \<Rightarrow> (0, size r + 1, 1)
    | Inl (Inr (Inr (A, l, r))) \<Rightarrow> (1, size l + size r, 1)
    | Inr (Inl (A, l, r)) \<Rightarrow> (1, size l + size r, 1)
    | Inr (Inr (Inl (A, l, r))) \<Rightarrow> sum_rank l r 2
    | Inr (Inr (Inr (A, l, r))) \<Rightarrow> sum_rank l r 2)", goal_cases)
qed (auto dest!: const_left_SomeD as_const_SomeD simp: sum_rank_def)

declare AddExpr_createPartialR.simps [simp del] SubExpr_createPartialR.simps [simp del]
  AddExpr_create.simps [simp del] SubExpr_create.simps [simp del] Add_create.simps [simp del] Sub_create.simps [simp del]

section \<open>Products, quotients and shifts\<close>

definition MulExpr_createPartialR :: "'a apint_ops \<Rightarrow> 'a \<Rightarrow> 'a expr \<Rightarrow> 'a expr option" where
  "MulExpr_createPartialR A cl r =
     (if ap_width A cl = 1 then AndExpr_createPartialR A cl r
      else if isOne A cl then Some r
      else if isZero A cl then Some (ConstantExpr cl)
      else Some (BinaryExpr Mul (ConstantExpr cl) r))"

definition MulExpr_create :: "'a apint_ops \<Rightarrow> 'a expr \<Rightarrow> 'a expr \<Rightarrow> 'a expr option" where
  "MulExpr_create A l r = Some (BinaryExpr (if getWidth A l = 1 then And else Mul) l r)"

definition Mul_create :: "'a apint_ops \<Rightarrow> 'a expr \<Rightarrow> 'a expr \<Rightarrow> 'a expr option" where
  "Mul_create A = BCREATE_R A Mul (\<lambda>l cr. MulExpr_createPartialR A cr l) (MulExpr_createPartialR A) (MulExpr_create A)"

text \<open>At width one the divisor of a quotient or remainder must be one.\<close>

definition DivExpr_create :: "'a apint_ops \<Rightarrow> expr_kind \<Rightarrow> 'a expr \<Rightarrow> 'a expr \<Rightarrow> 'a expr option" where
  "DivExpr_create A k l r = Some (if getWidth A l = 1 then l else BinaryExpr k l r)"

definition RemExpr_create :: "'a apint_ops \<Rightarrow> expr_kind \<Rightarrow> 'a expr \<Rightarrow> 'a expr \<Rightarrow> 'a expr option" where
  "RemExpr_create A k l r = (if getWidth A l = 1 then Constant_create A 0 1 else Some (BinaryExpr k l r))"

text \<open>\<^verbatim>\<open>ShlExpr_create\<close> and \<^verbatim>\<open>LShrExpr_create\<close>; \<^verbatim>\<open>AShrExpr_create\<close> has the body of a quotient.\<close>

definition ShiftExpr_create :: "'a apint_ops \<Rightarrow> expr_kind \<Rightarrow> 'a expr \<Rightarrow> 'a expr \<Rightarrow> 'a expr option" where
  "ShiftExpr_create A k l r =
     (if getWidth A l = 1 then do { n \<leftarrow> createIsZero A r; And_create A l n } else Some (BinaryExpr k l r))"

definition AShrExpr_create :: "'a apint_ops \<Rightarrow> 'a expr \<Rightarrow> 'a expr \<Rightarrow> 'a expr option" where
  "AShrExpr_create A l r = Some (if getWidth A l = 1 then l else BinaryExpr AShr l r)"

section \<open>Comparisons\<close>

definition UltExpr_create :: "'a apint_ops \<Rightarrow> 'a expr \<Rightarrow> 'a expr \<Rightarrow> 'a expr option" where
  "UltExpr_create A l r =
     (if getWidth A l = 1 then do { n \<leftarrow> createIsZero A l; And_create A n r } else Some (BinaryExpr Ult l r))"

definition UleExpr_create :: "'a apint_ops \<Rightarrow> 'a expr \<Rightarrow> 'a expr \<Rightarrow> 'a expr option" where
  "UleExpr_create A l r =
     (if getWidth A l = 1 then do { n \<leftarrow> createIsZero A l; Or_create A n r } else Some (BinaryExpr Ule l r))"

definition SltExpr_create :: "'a apint_ops \<Rightarrow> 'a expr \<Rightarrow> 'a expr \<Rightarrow> 'a expr option" where
  "SltExpr_create A l r =
     (if getWidth A l = 1 then do { n \<leftarrow> createIsZero A r; And_create A l n } else Some (BinaryExpr Slt l r))"

definition SleExpr_create :: "'a apint_ops \<Rightarrow> 'a expr \<Rightarrow> 'a expr \<Rightarrow> 'a expr option" where
  "SleExpr_create A l r =
     (if getWidth A l = 1 then do { n \<leftarrow> createIsZero A r; Or_create A l n } else Some (BinaryExpr Sle l r))"

text \<open>\<open>Binary_create k\<close> is the \<^verbatim>\<open>create\<close> of the class of kind \<open>k\<close>.\<close>

fun Binary_create :: "'a apint_ops \<Rightarrow> expr_kind \<Rightarrow> 'a expr \<Rightarrow> 'a expr \<Rightarrow> 'a expr option" where
  "Binary_create A Add l r = Add_create A l r"
| "Binary_create A Sub l r = Sub_create A l r"
| "Binary_create A Mul l r = Mul_create A l r"
| "Binary_create A UDiv l r = BCREATE A UDiv (DivExpr_create A UDiv) l r"
| "Binary_create A SDiv l r = BCREATE A SDiv (DivExpr_create A SDiv) l r"
| "Binary_create A URem l r = BCREATE A URem (RemExpr_create A URem) l r"
| "Binary_create A SRem l r = BCREATE A SRem (RemExpr_create A SRem) l r"
| "Binary_create A And l r = And_create A l r"
| "Binary_create A Or l r = Or_create A l r"
| "Binary_create A Xor l r = Xor_create A l r"
| "Binary_create A Shl l r = BCREATE A Shl (ShiftExpr_create A Shl) l r"
| "Binary_create A LShr l r = BCREATE A LShr (ShiftExpr_create A LShr) l r"
| "Binary_create A AShr l r = BCREATE A AShr (AShrExpr_create A) l r"
| "Binary_create A Eq l r = Eq_create A l r"
| "Binary_create A Ne l r = Ne_create A l r"
| "Binary_create A Ult l r = BCREATE A Ult (UltExpr_create A) l r"
| "Binary_create A Ule l r = BCREATE A Ule (UleExpr_create A) l r"
| "Binary_create A Ugt l r = BCREATE A Ult (UltExpr_create A) r l"
| "Binary_create A Uge l r = BCREATE A Ule (UleExpr_create A) r l"
| "Binary_create A Slt l r = BCREATE A Slt (SltExpr_create A) l r"
| "Binary_create A Sle l r = BCREATE A Sle (SleExpr_create A) l r"
| "Binary_create A Sgt l r = BCREATE A Slt (SltExpr_create A) r l"
| "Binary_create A Sge l r = BCREATE A Sle (SleExpr_create A) r l"

section \<open>Other builders\<close>

text \<open>\<^verbatim>\<open>UpdateList::extend\<close>.\<close>

definition extend :: "'a apint_ops \<Rightarrow> 'a array \<Rightarrow> 'a updates \<Rightarrow> 'a expr \<Rightarrow> 'a expr \<Rightarrow> 'a updates option" where
  "extend A root head index value' =
     (if a_domain root \<noteq> getWidth A index \<or> a_range root \<noteq> getWidth A value' then None
      else Some (UpdateNode head index value'))"

definition Not_create :: "'a apint_ops \<Rightarrow> 'a expr \<Rightarrow> 'a expr" where
  "Not_create A e = (case as_const e of Some c \<Rightarrow> ConstantExpr (ap_not A c) | None \<Rightarrow> NotExpr e)"

definition NotOptimized_create :: "'a expr \<Rightarrow> 'a expr" where
  "NotOptimized_create src = NotOptimizedExpr src"

definition Select_create :: "'a apint_ops \<Rightarrow> 'a expr \<Rightarrow> 'a expr \<Rightarrow> 'a expr \<Rightarrow> 'a expr option" where
  "Select_create A c t f =
     (if getWidth A c \<noteq> 1 \<or> getWidth A t \<noteq> getWidth A f then None
      else case as_const c of
        Some ce \<Rightarrow> Some (if isTrue A ce then t else f)
      | None \<Rightarrow>
          if t = f then Some t
          else if getWidth A t = 1 then
            (case as_const t of
               Some ce \<Rightarrow> if isTrue A ce then Or_create A c f
                          else do { n \<leftarrow> createIsZero A c; And_create A n f }
             | None \<Rightarrow> (case as_const f of
                 Some ce \<Rightarrow> if isTrue A ce then do { n \<leftarrow> createIsZero A c; Or_create A n t }
                            else And_create A c t
               | None \<Rightarrow> Some (SelectExpr c t f)))
          else Some (SelectExpr c t f))"

text \<open>
  \<^verbatim>\<open>ReadExpr::create\<close>: \<open>read_scan\<close> is the loop over the updates. It ends with the value of the update that
  is read, or with the updates that are left and whether one with a symbolic index stopped it.
\<close>

datatype 'a scan = Found "'a expr" | Rest "'a updates" bool

fun read_scan :: "'a apint_ops \<Rightarrow> 'a updates \<Rightarrow> 'a expr \<Rightarrow> 'a scan option" where
  "read_scan A NoUpdate index = Some (Rest NoUpdate False)"
| "read_scan A (UpdateNode us i v) index = do {
     cond \<leftarrow> Eq_create A index i;
     (case as_const cond of
        Some ce \<Rightarrow> if isTrue A ce then Some (Found v) else read_scan A us index
      | None \<Rightarrow> Some (Rest (UpdateNode us i v) True))
   }"

definition Read_create :: "'a apint_ops \<Rightarrow> 'a array \<Rightarrow> 'a updates \<Rightarrow> 'a expr \<Rightarrow> 'a expr option" where
  "Read_create A a us index = do {
     s \<leftarrow> read_scan A us index;
     (case s of
        Found v \<Rightarrow> Some v
      | Rest un symbolicWrites \<Rightarrow>
          (case as_const index of
             Some ce \<Rightarrow>
               if ap_width A ce > 64 then None
               else if a_values a \<noteq> [] \<and> \<not> symbolicWrites \<and> nat (ap_uint A ce) < a_size a
                 then Some (ConstantExpr (a_values a ! nat (ap_uint A ce)))
               else if nat (ap_uint A ce) < a_size a then Some (ReadExpr a un index)
               else Some (ReadExpr a us index)
           | None \<Rightarrow> Some (ReadExpr a us index)))
   }"

end
