(* ===== verification/Expr_Concat.thy ===== *)
theory Expr_Concat
  imports Expr_Create
begin

text \<open>
  The builders of \<^verbatim>\<open>lib/Expr/Expr.cpp\<close> that cut expressions apart and put them together again:
  \<^verbatim>\<open>ExtractExpr::create\<close>, \<^verbatim>\<open>ConcatExpr::create\<close> and the casts. An extract of a concatenation is
  pushed into the parts, and a concatenation of neighbouring extracts of one expression is merged, so the
  first two functions call each other on results they computed.
\<close>

definition concat_kids :: "'a expr \<Rightarrow> ('a expr \<times> 'a expr) option" where
  "concat_kids e = (case e of ConcatExpr l r \<Rightarrow> Some (l, r) | _ \<Rightarrow> None)"

definition extract_kids :: "'a expr \<Rightarrow> ('a expr \<times> nat \<times> nat) option" where
  "extract_kids e = (case e of ExtractExpr x off w \<Rightarrow> Some (x, off, w) | _ \<Rightarrow> None)"

text \<open>The width \<^verbatim>\<open>w - r->getWidth() + off\<close> of the left part is computed with unsigned wrap-around.\<close>

function (sequential) Extract_create :: "'a apint_ops \<Rightarrow> 'a expr \<Rightarrow> nat \<Rightarrow> nat \<Rightarrow> 'a expr option"
  and Concat_create :: "'a apint_ops \<Rightarrow> 'a expr \<Rightarrow> 'a expr \<Rightarrow> 'a expr option" where
  "Extract_create A e off w =
     (if \<not> (0 < w \<and> off + w \<le> getWidth A e) then None
      else if w = getWidth A e then Some e
      else case as_const e of
        Some c \<Rightarrow> Some (ConstantExpr (Constant_Extract A c off w))
      | None \<Rightarrow> (case concat_kids e of
          Some (l, r) \<Rightarrow>
            if getWidth A r \<le> off then Extract_create A l (off - getWidth A r) w
            else if off + w \<le> getWidth A r then Extract_create A r off w
            else do {
              x \<leftarrow> Extract_create A l 0 (w + off - getWidth A r);
              y \<leftarrow> Extract_create A r off (getWidth A r - off);
              Concat_create A x y
            }
        | None \<Rightarrow> Some (ExtractExpr e off w)))"
| "Concat_create A l r =
     (case (as_const l, as_const r) of
        (Some x, Some y) \<Rightarrow> Some (ConstantExpr (Constant_Concat A x y))
      | _ \<Rightarrow> (case (extract_kids l, extract_kids r) of
          (Some (el, offl, wl), Some (er, offr, wr)) \<Rightarrow>
            if el = er \<and> offr + wr = offl then Extract_create A el offr (getWidth A l + getWidth A r)
            else Some (ConcatExpr l r)
        | _ \<Rightarrow> Some (ConcatExpr l r)))"
  by pat_completeness auto

lemma concat_kids_SomeD: "concat_kids e = Some (l, r) \<Longrightarrow> e = ConcatExpr l r"
  by (cases e) (simp_all add: concat_kids_def)

lemma extract_kids_SomeD: "extract_kids e = Some (x, off, w) \<Longrightarrow> e = ExtractExpr x off w"
  by (cases e) (simp_all add: extract_kids_def)

definition extract_size :: "'a expr \<Rightarrow> nat" where
  "extract_size e = (case extract_kids e of Some (x, _) \<Rightarrow> size x | None \<Rightarrow> 0)"

lemma extract_size_simps [simp]: "extract_size (ConstantExpr c) = 0" "extract_size (ConcatExpr l r) = 0"
  "extract_size (ExtractExpr e off w) = size e" "extract_size e \<le> size e"
  by (simp_all add: extract_size_def extract_kids_def split: expr.splits)

text \<open>An extract in the result of \<open>Extract_create\<close> is one of a part of the argument.\<close>

lemma Extract_create_size_partial:
  "Extract_create_Concat_create_dom (Inl (A, e, off, w)) \<Longrightarrow> (\<forall>x. Extract_create A e off w = Some x \<longrightarrow> extract_size x \<le> size e)"
  "Extract_create_Concat_create_dom (Inr (A, l, r)) \<Longrightarrow> (\<forall>x. Concat_create A l r = Some x \<longrightarrow> extract_size x \<le> extract_size l)"
proof (induction A e off w and A l r rule: Extract_create_Concat_create.pinduct)
  case (1 A e off w)
  show ?case
  proof (intro allI impI)
    fix x assume x: "Extract_create A e off w = Some x"
    show "extract_size x \<le> size e"
    proof (cases "0 < w \<and> off + w \<le> getWidth A e \<and> w \<noteq> getWidth A e \<and> concat_kids e \<noteq> None")
      case False
      with x 1(1) show ?thesis by (auto simp: Extract_create.psimps split: if_splits option.splits)
    next
      case True
      then obtain a b where e: "e = ConcatExpr a b" by (auto dest!: concat_kids_SomeD)
      then have k: "concat_kids e = Some (a, b)" "as_const e = None" by (simp_all add: concat_kids_def)
      note IH = 1(2,3,4,5,6) [OF _ _ k(2) k(1) refl]
      consider "getWidth A b \<le> off" "Extract_create A a (off - getWidth A b) w = Some x"
        | "\<not> getWidth A b \<le> off" "off + w \<le> getWidth A b" "Extract_create A b off w = Some x"
        | y z where "\<not> getWidth A b \<le> off" "\<not> off + w \<le> getWidth A b"
            "Extract_create A a 0 (w + off - getWidth A b) = Some y"
            "Extract_create A b off (getWidth A b - off) = Some z" "Concat_create A y z = Some x"
        using x 1(1) True k by (auto simp: Extract_create.psimps Option.bind_eq_Some_conv split: if_splits)
      then show ?thesis
      proof cases
        case 1
        then have "extract_size x \<le> size a" using IH(1) True by auto
        then show ?thesis by (simp add: e)
      next
        case 2
        then have "extract_size x \<le> size b" using IH(2) True by auto
        then show ?thesis by (simp add: e)
      next
        case 3
        then have "extract_size y \<le> size a" "extract_size x \<le> extract_size y" using IH(3,5) True by auto
        then show ?thesis by (simp add: e)
      qed
    qed
  qed
next
  case (2 A l r)
  show ?case
  proof (intro allI impI)
    fix x assume "Concat_create A l r = Some x"
    then show "extract_size x \<le> extract_size l"
      using 2 by (auto simp: Concat_create.psimps dest!: extract_kids_SomeD split: if_splits option.splits)
  qed
qed

termination Extract_create
proof (relation "measure (\<lambda>x. case x of
      Inl (A, e, off, w) \<Rightarrow> 2 * size e
    | Inr (A, l, r) \<Rightarrow> 2 * extract_size l + 1)", goal_cases)
  case (6 A e off w _ a b y z)
  then have "extract_size y \<le> size a" using Extract_create_size_partial(1) [of A a 0 "w + off - getWidth A b"] by simp
  then show ?case using 6 by (auto dest!: concat_kids_SomeD)
qed (auto dest!: concat_kids_SomeD extract_kids_SomeD [OF sym])

declare Extract_create.simps [simp del] Concat_create.simps [simp del]

section \<open>Concatenations of several expressions\<close>

text \<open>\<^verbatim>\<open>ConcatExpr::createN\<close>; no kid is an assertion failure.\<close>

fun Concat_createN :: "'a apint_ops \<Rightarrow> 'a expr list \<Rightarrow> 'a expr option" where
  "Concat_createN A [] = None"
| "Concat_createN A [e] = Some e"
| "Concat_createN A (e # es) = do { r \<leftarrow> Concat_createN A es; Concat_create A e r }"

definition Concat_create4 :: "'a apint_ops \<Rightarrow> 'a expr \<Rightarrow> 'a expr \<Rightarrow> 'a expr \<Rightarrow> 'a expr \<Rightarrow> 'a expr option" where
  "Concat_create4 A k1 k2 k3 k4 = do {
     r \<leftarrow> Concat_create A k3 k4; r \<leftarrow> Concat_create A k2 r; Concat_create A k1 r }"

definition Concat_create8 :: "'a apint_ops \<Rightarrow> 'a expr \<Rightarrow> 'a expr \<Rightarrow> 'a expr \<Rightarrow> 'a expr \<Rightarrow> 'a expr \<Rightarrow> 'a expr \<Rightarrow> 'a expr
    \<Rightarrow> 'a expr \<Rightarrow> 'a expr option" where
  "Concat_create8 A k1 k2 k3 k4 k5 k6 k7 k8 = do {
     r \<leftarrow> Concat_create4 A k5 k6 k7 k8;
     r \<leftarrow> Concat_create A k4 r; r \<leftarrow> Concat_create A k3 r; r \<leftarrow> Concat_create A k2 r; Concat_create A k1 r }"

section \<open>Casts\<close>

definition ZExt_create :: "'a apint_ops \<Rightarrow> 'a expr \<Rightarrow> nat \<Rightarrow> 'a expr option" where
  "ZExt_create A e w =
     (if w = getWidth A e then Some e
      else if w < getWidth A e then Extract_create A e 0 w
      else case as_const e of Some c \<Rightarrow> Some (ConstantExpr (ap_zextOrTrunc A c w)) | None \<Rightarrow> Some (ZExtExpr e w))"

definition SExt_create :: "'a apint_ops \<Rightarrow> 'a expr \<Rightarrow> nat \<Rightarrow> 'a expr option" where
  "SExt_create A e w =
     (if w = getWidth A e then Some e
      else if w < getWidth A e then Extract_create A e 0 w
      else case as_const e of Some c \<Rightarrow> Some (ConstantExpr (ap_sextOrTrunc A c w)) | None \<Rightarrow> Some (SExtExpr e w))"

text \<open>\<^verbatim>\<open>Expr::createTempRead\<close>: the bytes of a value of the given width at the start of an array.\<close>

definition read_byte :: "'a apint_ops \<Rightarrow> 'a array \<Rightarrow> nat \<Rightarrow> 'a expr option" where
  "read_byte A a i = Read_create A a NoUpdate (ConstantExpr (ap_make A 32 (int i)))"

definition createTempRead :: "'a apint_ops \<Rightarrow> 'a array \<Rightarrow> nat \<Rightarrow> 'a expr option" where
  "createTempRead A a w =
     (if w = 1 then do { b \<leftarrow> read_byte A a 0; ZExt_create A b 1 }
      else if w = 8 then read_byte A a 0
      else if w = 16 then do { b1 \<leftarrow> read_byte A a 1; b0 \<leftarrow> read_byte A a 0; Concat_create A b1 b0 }
      else if w = 32 then do {
        b3 \<leftarrow> read_byte A a 3; b2 \<leftarrow> read_byte A a 2; b1 \<leftarrow> read_byte A a 1; b0 \<leftarrow> read_byte A a 0;
        Concat_create4 A b3 b2 b1 b0 }
      else if w = 64 then do {
        b7 \<leftarrow> read_byte A a 7; b6 \<leftarrow> read_byte A a 6; b5 \<leftarrow> read_byte A a 5; b4 \<leftarrow> read_byte A a 4;
        b3 \<leftarrow> read_byte A a 3; b2 \<leftarrow> read_byte A a 2; b1 \<leftarrow> read_byte A a 1; b0 \<leftarrow> read_byte A a 0;
        Concat_create8 A b7 b6 b5 b4 b3 b2 b1 b0 }
      else None)"

end
