(* ===== verification/Expr_Sound.thy ===== *)
theory Expr_Sound
  imports Expr_Concat
begin

text \<open>
  The meaning of expressions and the proof that the builders keep it. \<open>eval\<close> gives the value of an
  expression under an assignment of bytes to the arrays, \<open>wt\<close> says that its parts have the widths the
  constructors ask for. A builder applied to well-typed arguments of matching widths passes all its
  assertions and returns a well-typed expression of the right width with the value of the plain node.
\<close>

section \<open>Values\<close>

definition div_kind :: "expr_kind \<Rightarrow> bool" where
  "div_kind k \<longleftrightarrow> k \<in> {UDiv, SDiv, URem, SRem}"

text \<open>
  A division by zero has no value in the program, which checks for it before it builds the expression; the
  dividend stands for it here.
\<close>

definition sem_op :: "'a apint_ops \<Rightarrow> expr_kind \<Rightarrow> 'a \<Rightarrow> 'a \<Rightarrow> 'a" where
  "sem_op A k x y = (if div_kind k \<and> ap_uint A y = 0 then x else Constant_op A k x y)"

definition initial_byte :: "('a array \<Rightarrow> int \<Rightarrow> 'a) \<Rightarrow> 'a array \<Rightarrow> int \<Rightarrow> 'a" where
  "initial_byte rho a i = (if nat i < length (a_values a) then a_values a ! nat i else rho a i)"

fun eval :: "'a apint_ops \<Rightarrow> ('a array \<Rightarrow> int \<Rightarrow> 'a) \<Rightarrow> 'a expr \<Rightarrow> 'a"
  and eval_read :: "'a apint_ops \<Rightarrow> ('a array \<Rightarrow> int \<Rightarrow> 'a) \<Rightarrow> 'a array \<Rightarrow> 'a updates \<Rightarrow> 'a \<Rightarrow> 'a" where
  "eval A rho (ConstantExpr c) = c"
| "eval A rho (NotOptimizedExpr e) = eval A rho e"
| "eval A rho (ReadExpr a us i) = eval_read A rho a us (eval A rho i)"
| "eval A rho (SelectExpr c t f) = (if ap_uint A (eval A rho c) = 1 then eval A rho t else eval A rho f)"
| "eval A rho (ConcatExpr l r) = ap_make A (getWidth A l + getWidth A r)
     (push_bit (getWidth A r) (ap_uint A (eval A rho l)) + ap_uint A (eval A rho r))"
| "eval A rho (ExtractExpr e off w) = ap_make A w (drop_bit off (ap_uint A (eval A rho e)))"
| "eval A rho (ZExtExpr e w) = ap_make A w (ap_uint A (eval A rho e))"
| "eval A rho (SExtExpr e w) = ap_make A w (ap_sint A (eval A rho e))"
| "eval A rho (NotExpr e) = ap_not A (eval A rho e)"
| "eval A rho (BinaryExpr k l r) = sem_op A k (eval A rho l) (eval A rho r)"
| "eval_read A rho a NoUpdate i = initial_byte rho a (ap_uint A i)"
| "eval_read A rho a (UpdateNode us j v) i = (if eval A rho j = i then eval A rho v else eval_read A rho a us i)"

section \<open>Types\<close>

definition array_ok :: "'a apint_ops \<Rightarrow> 'a array \<Rightarrow> bool" where
  "array_ok A a \<longleftrightarrow> 0 < a_domain a \<and> a_domain a \<le> 64 \<and> 0 < a_range a
     \<and> (a_values a = [] \<or> length (a_values a) = a_size a) \<and> list_all (\<lambda>c. ap_width A c = a_range a) (a_values a)"

fun wt :: "'a apint_ops \<Rightarrow> 'a expr \<Rightarrow> bool"
  and wt_updates :: "'a apint_ops \<Rightarrow> 'a array \<Rightarrow> 'a updates \<Rightarrow> bool" where
  "wt A (ConstantExpr c) \<longleftrightarrow> 0 < ap_width A c"
| "wt A (NotOptimizedExpr e) \<longleftrightarrow> wt A e"
| "wt A (ReadExpr a us i) \<longleftrightarrow> array_ok A a \<and> wt_updates A a us \<and> wt A i \<and> getWidth A i = a_domain a"
| "wt A (SelectExpr c t f) \<longleftrightarrow> wt A c \<and> wt A t \<and> wt A f \<and> getWidth A c = 1 \<and> getWidth A t = getWidth A f"
| "wt A (ConcatExpr l r) \<longleftrightarrow> wt A l \<and> wt A r"
| "wt A (ExtractExpr e off w) \<longleftrightarrow> wt A e \<and> 0 < w \<and> off + w \<le> getWidth A e"
| "wt A (ZExtExpr e w) \<longleftrightarrow> wt A e \<and> getWidth A e \<le> w"
| "wt A (SExtExpr e w) \<longleftrightarrow> wt A e \<and> getWidth A e \<le> w"
| "wt A (NotExpr e) \<longleftrightarrow> wt A e"
| "wt A (BinaryExpr k l r) \<longleftrightarrow> wt A l \<and> wt A r \<and> getWidth A l = getWidth A r"
| "wt_updates A a NoUpdate \<longleftrightarrow> True"
| "wt_updates A a (UpdateNode us j v) \<longleftrightarrow> wt A j \<and> wt A v \<and> getWidth A j = a_domain a \<and> getWidth A v = a_range a
     \<and> wt_updates A a us"

text \<open>The assignment gives every byte of an array the width the array declares.\<close>

definition env_ok :: "'a apint_ops \<Rightarrow> ('a array \<Rightarrow> int \<Rightarrow> 'a) \<Rightarrow> bool" where
  "env_ok A rho \<longleftrightarrow> (\<forall>a i. 0 < a_range a \<longrightarrow> ap_width A (rho a i) = a_range a)"

text \<open>A builder succeeded with a well-typed expression of width \<open>w\<close> and value \<open>v\<close>.\<close>

definition built :: "'a apint_ops \<Rightarrow> ('a array \<Rightarrow> int \<Rightarrow> 'a) \<Rightarrow> 'a expr option \<Rightarrow> nat \<Rightarrow> 'a \<Rightarrow> bool" where
  "built A rho x w v \<longleftrightarrow> (case x of None \<Rightarrow> False | Some e \<Rightarrow> wt A e \<and> getWidth A e = w \<and> eval A rho e = v)"

lemma built_Some [simp]: "built A rho (Some e) w v \<longleftrightarrow> wt A e \<and> getWidth A e = w \<and> eval A rho e = v"
  by (simp add: built_def)

lemma built_bind:
  assumes "built A rho x w v" "\<And>e. wt A e \<Longrightarrow> getWidth A e = w \<Longrightarrow> eval A rho e = v \<Longrightarrow> built A rho (f e) w' v'"
  shows "built A rho (Option.bind x f) w' v'"
  using assms by (cases x) (auto simp: built_def)

lemma array_ok_range: "array_ok A a \<Longrightarrow> 0 < a_range a"
  by (simp add: array_ok_def)

locale apint_env = apint A for A :: "'a apint_ops" +
  fixes rho :: "'a array \<Rightarrow> int \<Rightarrow> 'a"
  assumes env: "env_ok A rho"
begin

lemma sem_op_width:
  assumes "ap_same A x y"
  shows "ap_width A (sem_op A k x y) = (if is_cmp k then 1 else ap_width A x)"
  using assms by (cases k) (auto simp: sem_op_def div_kind_def is_cmp_def ap_widths)

lemma eval_width:
  "wt A e \<Longrightarrow> ap_width A (eval A rho e) = getWidth A e \<and> 0 < getWidth A e"
  "array_ok A a \<Longrightarrow> wt_updates A a us \<Longrightarrow> ap_width A (eval_read A rho a us i) = a_range a"
proof (induction e and us arbitrary: and a i)
  case (ReadExpr a us i)
  then show ?case by (auto dest: array_ok_range)
next
  case (BinaryExpr k l r)
  then show ?case by (auto simp: sem_op_width ap_same_def)
next
  case NoUpdate
  then show ?case using env by (auto simp: initial_byte_def array_ok_def list_all_length env_ok_def)
qed (auto simp: ap_widths)

lemma eval_same: "wt A l \<Longrightarrow> wt A r \<Longrightarrow> getWidth A l = getWidth A r \<Longrightarrow> ap_same A (eval A rho l) (eval A rho r)"
  using eval_width(1) by (simp add: ap_same_def)

lemma wt_width: "wt A e \<Longrightarrow> 0 < getWidth A e" "wt A e \<Longrightarrow> ap_width A (eval A rho e) = getWidth A e"
  using eval_width(1) by simp_all

text \<open>Folding two constants.\<close>

lemma built_fold:
  assumes "ap_same A x y" "div_kind k \<Longrightarrow> ap_uint A y \<noteq> 0"
  shows "built A rho (Some (ConstantExpr (Constant_op A k x y))) (if is_cmp k then 1 else ap_width A x) (sem_op A k x y)"
proof -
  have "sem_op A k x y = Constant_op A k x y" using assms(2) by (auto simp: sem_op_def)
  then show ?thesis using sem_op_width [OF assms(1), of k] assms(1) by (simp add: ap_same_def)
qed

lemma built_binary:
  "wt A l \<Longrightarrow> wt A r \<Longrightarrow> getWidth A l = getWidth A r
    \<Longrightarrow> built A rho (Some (BinaryExpr k l r)) (if is_cmp k then 1 else getWidth A l) (sem_op A k (eval A rho l) (eval A rho r))"
  by simp

lemma BCREATE_R_built:
  assumes "wt A l" "wt A r" "getWidth A l = getWidth A r" "div_kind k \<Longrightarrow> ap_uint A (eval A rho r) \<noteq> 0"
    and "W = (if is_cmp k then 1 else getWidth A l)" "V = sem_op A k (eval A rho l) (eval A rho r)"
    and L: "\<And>cr. as_const l = None \<Longrightarrow> r = ConstantExpr cr \<Longrightarrow> built A rho (pL l cr) W V"
    and R: "\<And>cl. as_const r = None \<Longrightarrow> l = ConstantExpr cl \<Longrightarrow> built A rho (pR cl r) W V"
    and C: "as_const l = None \<Longrightarrow> as_const r = None \<Longrightarrow> built A rho (c l r) W V"
  shows "built A rho (BCREATE_R A k pL pR c l r) W V"
proof (cases "as_const l")
  case None
  then show ?thesis using assms(3) C L by (auto simp: BCREATE_R_def split: option.splits dest: as_const_SomeD)
next
  case (Some cl)
  show ?thesis
  proof (cases "as_const r")
    case None
    then show ?thesis using assms(3) R Some by (auto simp: BCREATE_R_def dest: as_const_SomeD)
  next
    case (Some cr)
    then have "l = ConstantExpr cl" "r = ConstantExpr cr" using \<open>as_const l = Some cl\<close> by (auto dest: as_const_SomeD)
    then show ?thesis using built_fold [of cl cr k] assms(1-6)
      by (cases "is_cmp k") (simp_all add: BCREATE_R_def ap_same_def del: built_Some)
  qed
qed

lemma BCREATE_built:
  assumes "wt A l" "wt A r" "getWidth A l = getWidth A r" "div_kind k \<Longrightarrow> ap_uint A (eval A rho r) \<noteq> 0"
    and "built A rho (c l r) (if is_cmp k then 1 else getWidth A l) (sem_op A k (eval A rho l) (eval A rho r))"
  shows "built A rho (BCREATE A k c l r) (if is_cmp k then 1 else getWidth A l) (sem_op A k (eval A rho l) (eval A rho r))"
  unfolding BCREATE_def by (rule BCREATE_R_built [OF assms(1-4) refl refl]) (use assms(5) in auto)

lemma sem_simps [simp]: "sem_op A And x y = ap_and A x y" "sem_op A Or x y = ap_or A x y" "sem_op A Xor x y = ap_xor A x y"
  "sem_op A Add x y = ap_add A x y" "sem_op A Sub x y = ap_sub A x y" "sem_op A Mul x y = ap_mul A x y"
  "sem_op A Eq x y = ap_make A 1 (of_bool (x = y))" "\<not> is_cmp And" "\<not> is_cmp Or" "\<not> is_cmp Xor" "\<not> is_cmp Add"
  "\<not> is_cmp Sub" "\<not> is_cmp Mul" "is_cmp Eq" "\<not> div_kind And" "\<not> div_kind Or" "\<not> div_kind Xor" "\<not> div_kind Add"
  "\<not> div_kind Sub" "\<not> div_kind Mul" "\<not> div_kind Eq"
  by (simp_all add: sem_op_def div_kind_def is_cmp_def)

text \<open>A commutative operation that treats a constant on either side alike.\<close>

lemma BCREATE_R_sym_built:
  assumes w: "wt A l" "wt A r" "getWidth A l = getWidth A r" and k: "\<not> is_cmp k" "\<not> div_kind k"
    and comm: "\<And>x y. ap_same A x y \<Longrightarrow> sem_op A k x y = sem_op A k y x"
    and p: "\<And>e c. wt A e \<Longrightarrow> 0 < ap_width A c \<Longrightarrow> getWidth A e = ap_width A c
      \<Longrightarrow> built A rho (p e c) (getWidth A e) (sem_op A k (eval A rho e) c)"
    and c: "built A rho (f l r) (getWidth A l) (sem_op A k (eval A rho l) (eval A rho r))"
  shows "built A rho (BCREATE_R A k p (\<lambda>cl r. p r cl) f l r) (getWidth A l) (sem_op A k (eval A rho l) (eval A rho r))"
proof (rule BCREATE_R_built [OF w])
  show "built A rho (p r cl) (getWidth A l) (sem_op A k (eval A rho l) (eval A rho r))" if l: "l = ConstantExpr cl" for cl
  proof -
    have "built A rho (p r cl) (getWidth A r) (sem_op A k (eval A rho r) cl)" by (rule p) (use w l in simp_all)
    then show ?thesis using comm [OF eval_same [OF w]] w(3) l by simp
  qed
  show "built A rho (p l cr) (getWidth A l) (sem_op A k (eval A rho l) (eval A rho r))" if r: "r = ConstantExpr cr" for cr
    using p [OF w(1), of cr] w(2,3) r by simp
qed (use k c in simp_all)

section \<open>Conjunction and disjunction\<close>

lemma and_all_ones: "ap_same A x y \<Longrightarrow> ap_uint A y = mask (ap_width A y) \<Longrightarrow> ap_and A x y = x"
  by (rule ap_eqI) (use ap_range [of x] in \<open>simp_all add: and_width and_uint ap_same_def flip: take_bit_eq_mask\<close>)

lemma or_all_ones: "ap_same A x y \<Longrightarrow> ap_uint A y = mask (ap_width A y) \<Longrightarrow> ap_or A x y = y"
proof (rule ap_eqI)
  assume a: "ap_same A x y" "ap_uint A y = mask (ap_width A y)"
  show "ap_width A (ap_or A x y) = ap_width A y" using a by (simp add: or_width ap_same_def)
  have "bit (ap_uint A x) n \<Longrightarrow> n < ap_width A x" for n
    using ap_range [of x] by (metis bit_take_bit_iff)
  then show "ap_uint A (ap_or A x y) = ap_uint A y"
    using a by (intro bit_eqI) (auto simp: or_uint ap_same_def bit_or_iff bit_mask_iff)
qed

lemma bitwise_zero:
  "ap_same A x y \<Longrightarrow> ap_uint A y = 0 \<Longrightarrow> ap_and A x y = y" "ap_same A x y \<Longrightarrow> ap_uint A y = 0 \<Longrightarrow> ap_or A x y = x"
  "ap_same A x y \<Longrightarrow> ap_uint A y = 0 \<Longrightarrow> ap_xor A x y = x"
  by (rule ap_eqI; simp add: and_width and_uint or_width or_uint xor_width xor_uint ap_same_def)+

lemma bitwise_commute:
  "ap_same A x y \<Longrightarrow> ap_and A x y = ap_and A y x" "ap_same A x y \<Longrightarrow> ap_or A x y = ap_or A y x"
  "ap_same A x y \<Longrightarrow> ap_xor A x y = ap_xor A y x"
  by (rule ap_eqI; simp add: and_width and_uint or_width or_uint xor_width xor_uint ap_same_def ac_simps)+

lemma AndExpr_createPartial_built:
  assumes "wt A e" "0 < ap_width A c" "getWidth A e = ap_width A c"
  shows "built A rho (AndExpr_createPartial A e c) (getWidth A e) (sem_op A And (eval A rho e) c)"
  using assms eval_same [of e "ConstantExpr c"]
  by (auto simp: AndExpr_createPartial_def isAllOnes_def isZero_def and_all_ones bitwise_zero)

lemma And_create_built:
  assumes "wt A l" "wt A r" "getWidth A l = getWidth A r"
  shows "built A rho (And_create A l r) (getWidth A l) (ap_and A (eval A rho l) (eval A rho r))"
proof -
  have "And_create A = BCREATE_R A And (AndExpr_createPartial A) (\<lambda>cl r. AndExpr_createPartial A r cl) (\<lambda>l r. Some (BinaryExpr And l r))"
    by (simp add: And_create_def AndExpr_createPartialR_def [abs_def])
  moreover have "built A rho (BCREATE_R A And (AndExpr_createPartial A) (\<lambda>cl r. AndExpr_createPartial A r cl)
      (\<lambda>l r. Some (BinaryExpr And l r)) l r) (getWidth A l) (sem_op A And (eval A rho l) (eval A rho r))"
    by (rule BCREATE_R_sym_built [OF assms _ _ _ AndExpr_createPartial_built]) (use assms in \<open>auto intro: bitwise_commute(1)\<close>)
  ultimately show ?thesis by simp
qed

lemma OrExpr_createPartial_built:
  assumes "wt A e" "0 < ap_width A c" "getWidth A e = ap_width A c"
  shows "built A rho (OrExpr_createPartial A e c) (getWidth A e) (sem_op A Or (eval A rho e) c)"
  using assms eval_same [of e "ConstantExpr c"]
  by (auto simp: OrExpr_createPartial_def isAllOnes_def isZero_def or_all_ones bitwise_zero)

lemma Or_create_built:
  assumes "wt A l" "wt A r" "getWidth A l = getWidth A r"
  shows "built A rho (Or_create A l r) (getWidth A l) (ap_or A (eval A rho l) (eval A rho r))"
proof -
  have "Or_create A = BCREATE_R A Or (OrExpr_createPartial A) (\<lambda>cl r. OrExpr_createPartial A r cl) (\<lambda>l r. Some (BinaryExpr Or l r))"
    by (simp add: Or_create_def OrExpr_createPartialR_def [abs_def])
  moreover have "built A rho (BCREATE_R A Or (OrExpr_createPartial A) (\<lambda>cl r. OrExpr_createPartial A r cl)
      (\<lambda>l r. Some (BinaryExpr Or l r)) l r) (getWidth A l) (sem_op A Or (eval A rho l) (eval A rho r))"
    by (rule BCREATE_R_sym_built [OF assms _ _ _ OrExpr_createPartial_built]) (use assms in \<open>auto intro: bitwise_commute(2)\<close>)
  ultimately show ?thesis by simp
qed

section \<open>Equality\<close>

lemma uint_mod: "ap_uint A x mod 2 ^ ap_width A x = ap_uint A x"
  using ap_range [of x] by (simp add: take_bit_eq_mod)

lemma add_sub_cancel: "ap_same A c x \<Longrightarrow> ap_add A c (ap_sub A x c) = x" "ap_same A c x \<Longrightarrow> ap_sub A (ap_add A c x) c = x"
  "ap_same A c x \<Longrightarrow> ap_sub A c (ap_sub A c x) = x"
  using uint_mod [of x] by (intro ap_eqI; simp add: arith_laws)+

lemma sub_eq_iff: "ap_same A c x \<Longrightarrow> ap_same A c y \<Longrightarrow> ap_sub A x c = y \<longleftrightarrow> x = ap_add A c y"
  "ap_same A c x \<Longrightarrow> ap_same A c y \<Longrightarrow> ap_sub A c x = y \<longleftrightarrow> x = ap_sub A c y"
  using add_sub_cancel by metis+

lemma trunc_sext: "0 < ap_width A x \<Longrightarrow> ap_width A x \<le> w \<Longrightarrow> ap_zextOrTrunc A (ap_make A w (ap_sint A x)) (ap_width A x) = x"
  using ap_range [of x]
  by (intro ap_eqI) (simp_all add: ap_widths ap_uints ap_sint_def min_def take_bit_signed_take_bit)

lemma trunc_zext: "0 < ap_width A x \<Longrightarrow> ap_width A x \<le> w \<Longrightarrow> ap_zextOrTrunc A (ap_make A w (ap_uint A x)) (ap_width A x) = x"
  using ap_range [of x] by (intro ap_eqI) (simp_all add: ap_widths ap_uints min_def)

lemma ext_make: "0 < w \<Longrightarrow> ap_sextOrTrunc A x w = ap_make A w (ap_sint A x)" "0 < w \<Longrightarrow> ap_zextOrTrunc A x w = ap_make A w (ap_uint A x)"
  by (intro ap_eqI; simp add: ap_widths ap_uints)+

lemma EqExpr_create_built:
  "wt A l \<Longrightarrow> wt A r \<Longrightarrow> getWidth A l = getWidth A r
    \<Longrightarrow> built A rho (Some (EqExpr_create A l r)) 1 (ap_make A 1 (of_bool (eval A rho l = eval A rho r)))"
  by (simp add: EqExpr_create_def ap_widths)

lemma Constant_create_built: "0 < w \<Longrightarrow> built A rho (Constant_create A 0 w) w (ap_make A w 0)"
  by (simp add: Constant_create_def ap_widths)

text \<open>One-bit equalities.\<close>

lemma bit_eq_true: "ap_width A x = 1 \<Longrightarrow> ap_width A y = 1 \<Longrightarrow> ap_uint A x \<noteq> 0 \<Longrightarrow> ap_make A 1 (of_bool (x = y)) = y"
  using bit_cases [of x] bit_cases [of y] ap_eqI [of x y] by (intro ap_eqI) (auto simp: ap_widths ap_uints)

lemma bit_eq_zero: "ap_width A x = 1 \<Longrightarrow> ap_width A y = 1 \<Longrightarrow> ap_uint A x = 0 \<Longrightarrow> x = y \<longleftrightarrow> ap_uint A y = 0"
  using ap_eqI [of x y] by auto

lemma zero_iff:
  assumes "0 < w" "ap_width A x = w"
  shows "x = ap_make A w 0 \<longleftrightarrow> ap_uint A x = 0"
proof
  assume "ap_uint A x = 0"
  then show "x = ap_make A w 0" using assms by (intro ap_eqI) (simp_all add: ap_widths ap_uints)
qed (use assms in \<open>simp add: ap_uints\<close>)

lemma uint_bool [simp]: "ap_uint A (ap_make A (Suc 0) (of_bool b)) = of_bool b" "ap_width A (ap_make A (Suc 0) v) = Suc 0"
  "ap_uint A (ap_make A (Suc 0) 1) = 1" "ap_uint A (ap_make A (Suc 0) 0) = 0"
  by (simp_all add: ap_uints ap_widths)

lemma bit_nor:
  assumes "ap_width A x = 1" "ap_width A y = 1"
  shows "ap_and A (ap_make A 1 (of_bool (ap_uint A x = 0))) (ap_make A 1 (of_bool (ap_uint A y = 0)))
    = ap_make A 1 (of_bool (ap_uint A (ap_or A x y) = 0))"
proof -
  have "ap_same A x y" "ap_same A (ap_make A 1 b) (ap_make A 1 c)" for b c using assms by (simp_all add: ap_same_def)
  then show ?thesis
    using bit_cases [OF assms(1)] bit_cases [OF assms(2)]
    by (intro ap_eqI) (auto simp: and_width and_uint or_uint)
qed

text \<open>The branches of \<open>EqExpr_createPartialR\<close>, given what its calls return.\<close>

lemma eq_or_branch:
  assumes cl: "ap_width A cl = 1" "ap_uint A cl = 0"
    and ab: "wt A a" "wt A b" "getWidth A a = 1" "getWidth A b = 1"
    and za: "built A rho (createIsZero A a) 1 (ap_make A 1 (of_bool (ap_uint A (eval A rho a) = 0)))"
    and zb: "built A rho (createIsZero A b) 1 (ap_make A 1 (of_bool (ap_uint A (eval A rho b) = 0)))"
  shows "built A rho (do { x \<leftarrow> createIsZero A a; y \<leftarrow> createIsZero A b; And_create A x y }) 1
    (ap_make A 1 (of_bool (cl = ap_or A (eval A rho a) (eval A rho b))))"
proof (rule built_bind [OF za], rule built_bind [OF zb])
  fix x y
  assume x: "wt A x" "getWidth A x = 1" "eval A rho x = ap_make A 1 (of_bool (ap_uint A (eval A rho a) = 0))"
    and y: "wt A y" "getWidth A y = 1" "eval A rho y = ap_make A 1 (of_bool (ap_uint A (eval A rho b) = 0))"
  have w: "ap_width A (eval A rho a) = 1" "ap_width A (eval A rho b) = 1" using ab wt_width by simp_all
  have "cl = ap_or A (eval A rho a) (eval A rho b) \<longleftrightarrow> ap_uint A (ap_or A (eval A rho a) (eval A rho b)) = 0"
    by (rule bit_eq_zero) (use cl w in \<open>simp_all add: or_width ap_same_def\<close>)
  then show "built A rho (And_create A x y) 1 (ap_make A 1 (of_bool (cl = ap_or A (eval A rho a) (eval A rho b))))"
    using And_create_built [of x y] x y bit_nor [OF w] by simp
qed

lemma eq_double_negation:
  assumes "ap_width A cl = 1" "ap_uint A cl = 0" "ap_width A c = 1" "ap_uint A c = 0" "ap_width A y = 1"
  shows "ap_make A 1 (of_bool (cl = ap_make A 1 (of_bool (c = y)))) = y"
proof -
  have "cl = ap_make A 1 (of_bool (c = y)) \<longleftrightarrow> ap_uint A (ap_make A 1 (of_bool (c = y))) = 0"
    by (rule bit_eq_zero) (use assms in simp_all)
  moreover have "c = y \<longleftrightarrow> ap_uint A y = 0" by (rule bit_eq_zero) (use assms in simp_all)
  ultimately have "(cl = ap_make A 1 (of_bool (c = y))) = (ap_uint A y = 1)" using bit_cases [OF assms(5)] by auto
  then show ?thesis using bit_value [OF assms(5)] by simp
qed

lemma eq_ext_branch:
  assumes n: "0 < n" "wt A src" "getWidth A src \<le> n" "ap_width A cl = n"
    and t: "trunc = ap_zextOrTrunc A cl (getWidth A src)"
    and ext: "ext = ap_make A n (ap_sint A (eval A rho src)) \<and> ext' = ap_make A n (ap_sint A trunc)
      \<or> ext = ap_make A n (ap_uint A (eval A rho src)) \<and> ext' = ap_make A n (ap_uint A trunc)"
    and rec: "cl = ext' \<Longrightarrow> built A rho (Eq_create A src (ConstantExpr trunc)) 1 (ap_make A 1 (of_bool (eval A rho src = trunc)))"
  shows "built A rho (if cl = ext' then Eq_create A src (ConstantExpr trunc) else Constant_create A 0 1) 1
    (ap_make A 1 (of_bool (cl = ext)))"
proof -
  have w: "ap_width A (eval A rho src) = getWidth A src" "0 < getWidth A src" using wt_width n by simp_all
  have "cl = ext \<longleftrightarrow> eval A rho src = trunc \<and> cl = ext'"
    using trunc_sext [of "eval A rho src" n] trunc_zext [of "eval A rho src" n] w n(3) t ext by auto
  then show ?thesis using rec Constant_create_built [of 1] by auto
qed

lemma EqExpr_createPartialR_cases:
  obtains (true) "ap_width A cl = 1" "isTrue A cl"
  | (or) a b where "ap_width A cl = 1" "\<not> isTrue A cl" "binary_kids Or r = Some (a, b)"
  | (eq) c b where "ap_width A cl = 1" "\<not> isTrue A cl" "binary_kids Or r = None" "const_left Eq r = Some (c, b)" "isFalse A c"
  | (sext) src where "ap_width A cl \<noteq> 1" "sext_src r = Some src"
  | (zext) src where "ap_width A cl \<noteq> 1" "sext_src r = None" "zext_src r = Some src"
  | (add) c b where "ap_width A cl \<noteq> 1" "sext_src r = None" "zext_src r = None" "const_left Add r = Some (c, b)"
  | (sub) c b where "ap_width A cl \<noteq> 1" "sext_src r = None" "zext_src r = None" "const_left Add r = None"
      "const_left Sub r = Some (c, b)"
  | (plain) "EqExpr_createPartialR A cl r = Some (EqExpr_create A (ConstantExpr cl) r)"
proof (cases "ap_width A cl = 1")
  case w: True
  show thesis
  proof (cases "isTrue A cl")
    case f: False
    show thesis
    proof (cases "binary_kids Or r")
      case o: None
      have "EqExpr_createPartialR A cl r = Some (EqExpr_create A (ConstantExpr cl) r)"
        if "\<And>c b. const_left Eq r = Some (c, b) \<Longrightarrow> \<not> isFalse A c"
        using w f o that by (subst EqExpr_createPartialR.simps) (auto split: option.splits)
      then show thesis using that(3) [OF w f o] that(8) by blast
    qed (use that(2) w f in \<open>auto split: prod.splits\<close>)
  qed (use that(1) w in blast)
next
  case w: False
  consider "sext_src r = None" "zext_src r = None" "const_left Add r = None" "const_left Sub r = None"
    | "sext_src r \<noteq> None" | "sext_src r = None" "zext_src r \<noteq> None"
    | "sext_src r = None" "zext_src r = None" "const_left Add r \<noteq> None"
    | "sext_src r = None" "zext_src r = None" "const_left Add r = None" "const_left Sub r \<noteq> None" by blast
  then show thesis
  proof cases
    case 1
    then have "EqExpr_createPartialR A cl r = Some (EqExpr_create A (ConstantExpr cl) r)"
      using w by (subst EqExpr_createPartialR.simps) simp
    then show thesis by (rule that(8))
  qed (use that(4-7) w in auto)
qed

lemma Eq_create_built:
  "B = A \<Longrightarrow> wt A l \<Longrightarrow> wt A r \<Longrightarrow> getWidth A l = getWidth A r
    \<Longrightarrow> built A rho (Eq_create B l r) 1 (ap_make A 1 (of_bool (eval A rho l = eval A rho r)))"
  "B = A \<Longrightarrow> wt A e \<Longrightarrow> built A rho (createIsZero B e) 1 (ap_make A 1 (of_bool (ap_uint A (eval A rho e) = 0)))"
  "B = A \<Longrightarrow> wt A r' \<Longrightarrow> getWidth A r' = ap_width A cl
    \<Longrightarrow> built A rho (EqExpr_createPartialR B cl r') 1 (ap_make A 1 (of_bool (cl = eval A rho r')))"
proof (induction B l r and B e and B cl r' rule: Eq_create_createIsZero_EqExpr_createPartialR.induct)
  case (1 B l r)
  have E: "built A rho (Some (EqExpr_create A l r)) 1 (ap_make A 1 (of_bool (eval A rho l = eval A rho r)))"
    by (rule EqExpr_create_built [OF 1(4-6)])
  show ?case
  proof (cases "as_const l")
    case None
    have "built A rho (EqExpr_createPartialR B cr l) 1 (ap_make A 1 (of_bool (eval A rho l = eval A rho r)))" if r: "as_const r = Some cr" for cr
    proof -
      have "built A rho (EqExpr_createPartialR B cr l) 1 (ap_make A 1 (of_bool (cr = eval A rho l)))"
        by (rule "1.IH"(1) [OF _ None r]) (use "1.prems" as_const_SomeD [OF r] in simp_all)
      then show ?thesis unfolding as_const_SomeD [OF r] eval.simps(1) by (subst eq_commute)
    qed
    then show ?thesis using None E "1.prems" by (subst Eq_create.simps) (auto split: option.splits simp del: built_Some)
  next
    case (Some cl)
    show ?thesis
    proof (cases "as_const r")
      case None
      then show ?thesis using "1.IH"(2) [of cl] "1.prems" Some
        by (subst Eq_create.simps) (simp add: as_const_SomeD [OF Some] del: built_Some)
    next
      case r: (Some cr)
      then show ?thesis using "1.prems" Some
        by (subst Eq_create.simps) (simp add: as_const_SomeD [OF Some] as_const_SomeD [OF r] ap_widths)
    qed
  qed
next
  case (2 B e)
  have "eval A rho e = ap_make A (getWidth A e) 0 \<longleftrightarrow> ap_uint A (eval A rho e) = 0"
    by (rule zero_iff) (use wt_width [OF "2.prems"(2)] in simp_all)
  moreover have "built A rho (Eq_create B e (ConstantExpr (ap_make A (getWidth A e) 0))) 1
      (ap_make A 1 (of_bool (eval A rho e = eval A rho (ConstantExpr (ap_make A (getWidth A e) 0)))))"
    unfolding "2.prems"(1) by (rule "2.IH" [unfolded "2.prems"(1)]) (use "2.prems" wt_width [OF "2.prems"(2)] in \<open>simp_all add: ap_widths\<close>)
  ultimately show ?case
    using "2.prems"(1) wt_width(1) [OF "2.prems"(2)] by (subst createIsZero.simps) simp
next
  case (3 B cl r')
  note B = "3.prems"(1)
  note IH = "3.IH" [unfolded B] and r' = "3.prems"(2,3)
  have w: "ap_width A (eval A rho r') = ap_width A cl" "0 < ap_width A cl" using wt_width [OF r'(1)] r'(2) by simp_all
  have E: "built A rho (Some (EqExpr_create A (ConstantExpr cl) r')) 1 (ap_make A 1 (of_bool (cl = eval A rho r')))"
    using EqExpr_create_built [of "ConstantExpr cl" r'] r' w(2) by simp
  show ?case
    using EqExpr_createPartialR_cases [where cl = cl and r = r']
  proof cases
    case true
    then show ?thesis using w(1) r' bit_eq_true [of cl "eval A rho r'"] B
      by (subst EqExpr_createPartialR.simps) (simp add: isTrue_def)
  next
    case (or a b)
    then have o: "r' = BinaryExpr Or a b" "ap_uint A cl = 0" by (auto dest: binary_kids_SomeD simp: isTrue_def)
    then have ab: "wt A a" "wt A b" "getWidth A a = 1" "getWidth A b = 1" using r' or(1) by simp_all
    have za: "built A rho (createIsZero A a) 1 (ap_make A 1 (of_bool (ap_uint A (eval A rho a) = 0)))"
      using IH(1) or ab by blast
    then obtain x where "createIsZero A a = Some x" by (auto simp: built_def split: option.splits)
    then have "built A rho (createIsZero A b) 1 (ap_make A 1 (of_bool (ap_uint A (eval A rho b) = 0)))"
      using IH(2) or ab by blast
    from eq_or_branch [OF or(1) o(2) ab za this] show ?thesis
      using or B o by (subst EqExpr_createPartialR.simps) simp
  next
    case (eq c b)
    then have o: "r' = BinaryExpr Eq (ConstantExpr c) b" "ap_uint A cl = 0" by (auto dest: const_left_SomeD simp: isTrue_def)
    have b: "wt A b" "getWidth A b = 1" "ap_width A (eval A rho b) = 1" using r' o eq(5) wt_width [of b] by (auto simp: isFalse_def)
    have "ap_make A 1 (of_bool (cl = eval A rho r')) = eval A rho b"
      using eq_double_negation [of cl c "eval A rho b"] eq(1,5) o b(3) by (simp add: isFalse_def)
    then show ?thesis using eq b(1,2) B by (subst EqExpr_createPartialR.simps) simp
  next
    case (sext src)
    then obtain n where "r' = SExtExpr src n" by (auto dest: ext_src_SomeD)
    then have o: "r' = SExtExpr src (ap_width A cl)" and n: "wt A src" "getWidth A src \<le> ap_width A cl" "0 < getWidth A src"
      using r' wt_width [of src] by auto
    let ?trunc = "ap_zextOrTrunc A cl (getWidth A src)"
    have rec: "built A rho (Eq_create A src (ConstantExpr ?trunc)) 1 (ap_make A 1 (of_bool (eval A rho src = ?trunc)))"
      if "cl = ap_sextOrTrunc A ?trunc (ap_width A cl)"
      using IH(6) [OF sext refl that refl n(1)] n(3) by (simp add: ap_widths del: built_Some)
    have ext: "ap_sextOrTrunc A x (ap_width A cl) = ap_make A (ap_width A cl) (ap_sint A x)" for x by (rule ext_make(1) [OF w(2)])
    have "built A rho (if cl = ap_sextOrTrunc A ?trunc (ap_width A cl) then Eq_create A src (ConstantExpr ?trunc) else Constant_create A 0 1) 1
        (ap_make A 1 (of_bool (cl = eval A rho r')))"
      by (rule eq_ext_branch [OF w(2) n(1,2) refl refl _ rec]) (simp_all add: o ext)
    moreover have "EqExpr_createPartialR B cl r' = (if cl = ap_sextOrTrunc A ?trunc (ap_width A cl)
        then Eq_create A src (ConstantExpr ?trunc) else Constant_create A 0 1)"
      using sext B by (subst EqExpr_createPartialR.simps) (simp add: Let_def)
    ultimately show ?thesis by (simp only:)
  next
    case (zext src)
    then obtain n where "r' = ZExtExpr src n" by (auto dest: ext_src_SomeD)
    then have o: "r' = ZExtExpr src (ap_width A cl)" and n: "wt A src" "getWidth A src \<le> ap_width A cl" "0 < getWidth A src"
      using r' wt_width [of src] by auto
    let ?trunc = "ap_zextOrTrunc A cl (getWidth A src)"
    have rec: "built A rho (Eq_create A src (ConstantExpr ?trunc)) 1 (ap_make A 1 (of_bool (eval A rho src = ?trunc)))"
      if "cl = ap_zextOrTrunc A ?trunc (ap_width A cl)"
      using IH(5) [OF zext refl that refl n(1)] n(3) by (simp add: ap_widths del: built_Some)
    have ext: "ap_zextOrTrunc A x (ap_width A cl) = ap_make A (ap_width A cl) (ap_uint A x)" for x by (rule ext_make(2) [OF w(2)])
    have "built A rho (if cl = ap_zextOrTrunc A ?trunc (ap_width A cl) then Eq_create A src (ConstantExpr ?trunc) else Constant_create A 0 1) 1
        (ap_make A 1 (of_bool (cl = eval A rho r')))"
      by (rule eq_ext_branch [OF w(2) n(1,2) refl refl _ rec]) (simp_all add: o ext)
    moreover have "EqExpr_createPartialR B cl r' = (if cl = ap_zextOrTrunc A ?trunc (ap_width A cl)
        then Eq_create A src (ConstantExpr ?trunc) else Constant_create A 0 1)"
      using zext B by (subst EqExpr_createPartialR.simps) (simp add: Let_def)
    ultimately show ?thesis by (simp only:)
  next
    case (add c b)
    then have o: "r' = BinaryExpr Add (ConstantExpr c) b" by (auto dest: const_left_SomeD)
    then have b: "wt A b" "getWidth A b = ap_width A cl" "ap_width A c = ap_width A cl" "ap_same A c cl" "ap_same A c (eval A rho b)"
      using r' w(2) wt_width [of b] by (auto simp: ap_same_def)
    have f: "fold_constants A Sub cl c = Some (ap_sub A cl c)" using b(3) by (simp add: fold_constants_def)
    have "built A rho (EqExpr_createPartialR A (ap_sub A cl c) b) 1 (ap_make A 1 (of_bool (ap_sub A cl c = eval A rho b)))"
      using IH(4) [OF add refl f refl b(1)] b(2-4) by (simp add: sub_width same_sym)
    then show ?thesis using add B f o sub_eq_iff(1) [OF b(4,5)] by (subst EqExpr_createPartialR.simps) simp
  next
    case (sub c b)
    then have o: "r' = BinaryExpr Sub (ConstantExpr c) b" by (auto dest: const_left_SomeD)
    then have b: "wt A b" "getWidth A b = ap_width A cl" "ap_width A c = ap_width A cl" "ap_same A c cl" "ap_same A c (eval A rho b)"
      using r' w(2) wt_width [of b] by (auto simp: ap_same_def)
    have f: "fold_constants A Sub c cl = Some (ap_sub A c cl)" using b(3) by (simp add: fold_constants_def)
    have "built A rho (EqExpr_createPartialR A (ap_sub A c cl) b) 1 (ap_make A 1 (of_bool (ap_sub A c cl = eval A rho b)))"
      using IH(3) [OF sub refl f refl b(1)] b(2-4) by (simp add: sub_width)
    then show ?thesis using sub B f o sub_eq_iff(2) [OF b(4,5)] by (subst EqExpr_createPartialR.simps) simp
  next
    case plain
    then show ?thesis using E B by simp
  qed
qed

section \<open>Sums and differences\<close>

lemmas IsZero_built = Eq_create_built(2) [OF refl]

lemma bit_arith:
  assumes "ap_width A x = 1" "ap_width A y = 1"
  shows "ap_add A x y = ap_xor A x y" "ap_sub A x y = ap_xor A x y" "ap_mul A x y = ap_and A x y"
proof -
  have s: "ap_same A x y" using assms by (simp add: ap_same_def)
  show "ap_add A x y = ap_xor A x y" "ap_sub A x y = ap_xor A x y" "ap_mul A x y = ap_and A x y"
    using bit_cases [OF assms(1)] bit_cases [OF assms(2)] s assms(1)
    by (auto intro!: ap_eqI simp: add_width sub_width mul_width xor_width and_width add_uint sub_uint mul_uint xor_uint and_uint)
qed

lemma bit_xor_one:
  assumes "ap_width A x = 1" "ap_width A y = 1" "ap_uint A x \<noteq> 0"
  shows "ap_xor A x y = ap_make A 1 (of_bool (ap_make A 1 0 = y))"
proof -
  have s: "ap_same A x y" using assms by (simp add: ap_same_def)
  have "ap_make A 1 0 = y \<longleftrightarrow> ap_uint A y = 0" by (rule bit_eq_zero) (use assms in simp_all)
  then show ?thesis
    using bit_cases [OF assms(1)] bit_cases [OF assms(2)] s assms by (intro ap_eqI) (auto simp: xor_width xor_uint)
qed

lemma XorExpr_createPartialR_built:
  assumes "wt A r" "getWidth A r = ap_width A cl"
  shows "built A rho (XorExpr_createPartialR A cl r) (ap_width A cl) (ap_xor A cl (eval A rho r))"
proof -
  have w: "ap_same A cl (eval A rho r)" "ap_width A (eval A rho r) = ap_width A cl" "0 < ap_width A cl"
    using wt_width [OF assms(1)] assms(2) by (simp_all add: ap_same_def)
  consider "ap_uint A cl = 0" | "ap_uint A cl \<noteq> 0" "ap_width A cl = 1" | "ap_uint A cl \<noteq> 0" "ap_width A cl \<noteq> 1" by blast
  then show ?thesis
  proof cases
    case 1
    have "ap_xor A cl (eval A rho r) = eval A rho r"
      using bitwise_zero(3) [OF same_sym [OF w(1)] 1] bitwise_commute(3) [OF w(1)] by simp
    then show ?thesis using 1 assms by (simp add: XorExpr_createPartialR_def isZero_def)
  next
    case 2
    then show ?thesis
      using Eq_create_built(3) [OF refl assms(1), of "ap_make A 1 0"] bit_xor_one [of cl "eval A rho r"] assms(2) w(2)
      by (simp add: XorExpr_createPartialR_def isZero_def)
  next
    case 3
    then show ?thesis using assms w(3) by (simp add: XorExpr_createPartialR_def isZero_def)
  qed
qed

lemma const_left_built:
  assumes "const_left k r = Some (c, b)" "wt A r" "\<not> is_cmp k"
  shows "wt A b" "getWidth A b = getWidth A r" "ap_width A c = getWidth A r" "ap_same A c (eval A rho b)"
    "eval A rho r = sem_op A k c (eval A rho b)"
  using const_left_SomeD [OF assms(1)] assms(2,3) wt_width [of b] by (auto simp: ap_same_def)

lemma fold_sums:
  "ap_width A x = ap_width A y \<Longrightarrow> fold_constants A Add x y = Some (ap_add A x y)"
  "ap_width A x = ap_width A y \<Longrightarrow> fold_constants A Sub x y = Some (ap_sub A x y)"
  by (simp_all add: fold_constants_def)

lemma sum_rewrites:
  assumes "ap_same A k x" "ap_same A k y"
  shows "ap_add A k (ap_add A x y) = ap_add A (ap_add A k x) y" "ap_add A k (ap_sub A y x) = ap_add A (ap_sub A k x) y"
    "ap_add A k (ap_add A y x) = ap_add A y (ap_add A k x)" "ap_add A k (ap_sub A y x) = ap_add A y (ap_sub A k x)"
    "ap_add A k (ap_sub A x y) = ap_sub A (ap_add A k x) y" "ap_sub A k (ap_add A x y) = ap_sub A (ap_sub A k x) y"
    "ap_sub A (ap_sub A y x) k = ap_sub A y (ap_add A k x)" "ap_sub A (ap_add A y x) k = ap_sub A y (ap_sub A k x)"
  by (rule ap_eqI; use assms in \<open>simp add: arith_laws algebra_simps\<close>)+

lemma sub_zero_width: "0 < ap_width A c \<Longrightarrow> ap_width A (ap_sub A (ap_make A (ap_width A c) 0) c) = ap_width A c"
  by (simp add: sub_width ap_same_def make_width)

lemma built_bind_Some:
  assumes "built A rho x w v" "\<And>e. x = Some e \<Longrightarrow> wt A e \<Longrightarrow> getWidth A e = w \<Longrightarrow> eval A rho e = v \<Longrightarrow> built A rho (f e) w' v'"
  shows "built A rho (Option.bind x f) w' v'"
  using assms by (cases x) (auto simp: built_def)

text \<open>The operands of a sum whose left or right side is a constant.\<close>

lemma partial_operands:
  assumes "const_left k r = Some (c, b)" "wt A r" "getWidth A r = ap_width A cl" "\<not> is_cmp k"
  shows "wt A b" "getWidth A b = ap_width A cl" "ap_same A cl c" "ap_same A cl (eval A rho b)" "ap_width A cl = ap_width A c"
  using const_left_built [OF assms(1,2,4)] assms(3) by (auto simp: ap_same_def)

lemma sum_operands:
  assumes "const_left k l = Some (c, b)" "wt A l" "wt A r" "getWidth A l = getWidth A r" "\<not> is_cmp k"
  shows "wt A b" "getWidth A b = getWidth A l" "wt A (ConstantExpr c)" "ap_width A c = getWidth A l"
    "ap_same A c (eval A rho b)" "ap_same A c (eval A rho r)"
  using const_left_built [OF assms(1,2,5)] assms(3,4) wt_width [OF assms(3)] by (auto simp: ap_same_def)

lemma add_partial_branch:
  assumes P: "wt A r" "getWidth A r = ap_width A cl"
    and add: "\<And>k c. const_left Add r = Some (k, c) \<Longrightarrow> wt A c \<Longrightarrow> getWidth A c = ap_width A cl \<Longrightarrow> ap_same A cl k
      \<Longrightarrow> built A rho (Add_create A (ConstantExpr (ap_add A cl k)) c) (ap_width A cl) (ap_add A (ap_add A cl k) (eval A rho c))"
    and sub: "\<And>k c. const_left Add r = None \<Longrightarrow> const_left Sub r = Some (k, c) \<Longrightarrow> wt A c \<Longrightarrow> getWidth A c = ap_width A cl \<Longrightarrow> ap_same A cl k
      \<Longrightarrow> built A rho (Sub_create A (ConstantExpr (ap_add A cl k)) c) (ap_width A cl) (ap_sub A (ap_add A cl k) (eval A rho c))"
    and n: "ap_width A cl \<noteq> 1" "\<not> isZero A cl"
  shows "built A rho (AddExpr_createPartialR A cl r) (ap_width A cl) (ap_add A cl (eval A rho r))"
proof (cases "const_left Add r")
  case (Some p)
  then obtain k c where p: "const_left Add r = Some (k, c)" by (cases p) simp
  note o = partial_operands [OF p P sem_simps(11)]
  have "ap_add A (ap_add A cl k) (eval A rho c) = ap_add A cl (eval A rho r)"
    using add_add [OF o(3,4)] const_left_built(5) [OF p P(1)] by simp
  then show ?thesis
    using add [OF p o(1-3)] n p o(5) by (subst AddExpr_createPartialR.simps) (simp add: fold_sums)
next
  case a: None
  show ?thesis
  proof (cases "const_left Sub r")
    case (Some p)
    then obtain k c where p: "const_left Sub r = Some (k, c)" by (cases p) simp
    note o = partial_operands [OF p P sem_simps(12)]
    have "ap_sub A (ap_add A cl k) (eval A rho c) = ap_add A cl (eval A rho r)"
      using add_sub [OF o(3,4)] const_left_built(5) [OF p P(1)] by simp
    then show ?thesis
      using sub [OF a p o(1-3)] n a p o(5) by (subst AddExpr_createPartialR.simps) (simp add: fold_sums)
  next
    case None
    then show ?thesis using a n P wt_width [OF P(1)] by (subst AddExpr_createPartialR.simps) simp
  qed
qed

lemma sub_partial_branch:
  assumes P: "wt A r" "getWidth A r = ap_width A cl"
    and add: "\<And>k c. const_left Add r = Some (k, c) \<Longrightarrow> wt A c \<Longrightarrow> getWidth A c = ap_width A cl \<Longrightarrow> ap_same A cl k
      \<Longrightarrow> built A rho (Sub_create A (ConstantExpr (ap_sub A cl k)) c) (ap_width A cl) (ap_sub A (ap_sub A cl k) (eval A rho c))"
    and sub: "\<And>k c. const_left Add r = None \<Longrightarrow> const_left Sub r = Some (k, c) \<Longrightarrow> wt A c \<Longrightarrow> getWidth A c = ap_width A cl \<Longrightarrow> ap_same A cl k
      \<Longrightarrow> built A rho (Add_create A (ConstantExpr (ap_sub A cl k)) c) (ap_width A cl) (ap_add A (ap_sub A cl k) (eval A rho c))"
    and n: "ap_width A cl \<noteq> 1"
  shows "built A rho (SubExpr_createPartialR A cl r) (ap_width A cl) (ap_sub A cl (eval A rho r))"
proof (cases "const_left Add r")
  case (Some p)
  then obtain k c where p: "const_left Add r = Some (k, c)" by (cases p) simp
  note o = partial_operands [OF p P sem_simps(11)]
  have "ap_sub A (ap_sub A cl k) (eval A rho c) = ap_sub A cl (eval A rho r)"
    using sub_add [OF o(3,4)] const_left_built(5) [OF p P(1)] by simp
  then show ?thesis
    using add [OF p o(1-3)] n p o(5) by (subst SubExpr_createPartialR.simps) (simp add: fold_sums)
next
  case a: None
  show ?thesis
  proof (cases "const_left Sub r")
    case (Some p)
    then obtain k c where p: "const_left Sub r = Some (k, c)" by (cases p) simp
    note o = partial_operands [OF p P sem_simps(12)]
    have "ap_add A (ap_sub A cl k) (eval A rho c) = ap_sub A cl (eval A rho r)"
      using sub_sub [OF o(3,4)] const_left_built(5) [OF p P(1)] by simp
    then show ?thesis
      using sub [OF a p o(1-3)] n a p o(5) by (subst SubExpr_createPartialR.simps) (simp add: fold_sums)
  next
    case None
    then show ?thesis using a n P wt_width [OF P(1)] by (subst SubExpr_createPartialR.simps) simp
  qed
qed

lemma add_branch:
  assumes P: "wt A l" "wt A r" "getWidth A l = getWidth A r" and n: "getWidth A l \<noteq> 1"
    and c1: "\<And>k a. const_left Add l = Some (k, a) \<Longrightarrow> wt A a \<Longrightarrow> getWidth A a = getWidth A l
      \<Longrightarrow> wt A (ConstantExpr k) \<Longrightarrow> ap_width A k = getWidth A l
      \<Longrightarrow> built A rho (do { x \<leftarrow> Add_create A a r; Add_create A (ConstantExpr k) x }) (getWidth A l) (ap_add A k (ap_add A (eval A rho a) (eval A rho r)))"
    and c2: "\<And>k a. const_left Add l = None \<Longrightarrow> const_left Sub l = Some (k, a) \<Longrightarrow> wt A a \<Longrightarrow> getWidth A a = getWidth A l
      \<Longrightarrow> wt A (ConstantExpr k) \<Longrightarrow> ap_width A k = getWidth A l
      \<Longrightarrow> built A rho (do { x \<leftarrow> Sub_create A r a; Add_create A (ConstantExpr k) x }) (getWidth A l) (ap_add A k (ap_sub A (eval A rho r) (eval A rho a)))"
    and c3: "\<And>k a. const_left Add l = None \<Longrightarrow> const_left Sub l = None \<Longrightarrow> const_left Add r = Some (k, a) \<Longrightarrow> wt A a \<Longrightarrow> getWidth A a = getWidth A l
      \<Longrightarrow> wt A (ConstantExpr k) \<Longrightarrow> ap_width A k = getWidth A l
      \<Longrightarrow> built A rho (do { x \<leftarrow> Add_create A l a; Add_create A (ConstantExpr k) x }) (getWidth A l) (ap_add A k (ap_add A (eval A rho l) (eval A rho a)))"
    and c4: "\<And>k a. const_left Add l = None \<Longrightarrow> const_left Sub l = None \<Longrightarrow> const_left Add r = None \<Longrightarrow> const_left Sub r = Some (k, a) \<Longrightarrow> wt A a \<Longrightarrow> getWidth A a = getWidth A l
      \<Longrightarrow> wt A (ConstantExpr k) \<Longrightarrow> ap_width A k = getWidth A l
      \<Longrightarrow> built A rho (do { x \<leftarrow> Sub_create A l a; Add_create A (ConstantExpr k) x }) (getWidth A l) (ap_add A k (ap_sub A (eval A rho l) (eval A rho a)))"
  shows "built A rho (AddExpr_create A l r) (getWidth A l) (ap_add A (eval A rho l) (eval A rho r))"
proof -
  consider (ac) k a where "const_left Add l = Some (k, a)"
    | (bc) k a where "const_left Add l = None" "const_left Sub l = Some (k, a)"
    | (cc) k a where "const_left Add l = None" "const_left Sub l = None" "const_left Add r = Some (k, a)"
    | (dc) k a where "const_left Add l = None" "const_left Sub l = None" "const_left Add r = None" "const_left Sub r = Some (k, a)"
    | (ec) "const_left Add l = None" "const_left Sub l = None" "const_left Add r = None" "const_left Sub r = None"
    by (metis not_None_eq surj_pair)
  then show ?thesis
  proof cases
    case (ac k a)
    note o = sum_operands [OF ac(1) P sem_simps(11)]
    show ?thesis
      using c1 [OF ac] o(1-4) P(3) sum_rewrites(1) [OF o(5,6)] const_left_built(5) [OF ac(1)] P n ac
      by (subst AddExpr_create.simps) simp
  next
    case (bc k a)
    note o = sum_operands [OF bc(2) P sem_simps(12)]
    show ?thesis
      using c2 [OF bc] o(1-4) P(3) sum_rewrites(2) [OF o(5,6)] const_left_built(5) [OF bc(2)] P n bc
      by (subst AddExpr_create.simps) simp
  next
    case (cc k a)
    note o = sum_operands [OF cc(3) P(2,1) P(3) [symmetric] sem_simps(11)]
    show ?thesis
      using c3 [OF cc] o(1-4) P(3) sum_rewrites(3) [OF o(5,6)] const_left_built(5) [OF cc(3)] P n cc
      by (subst AddExpr_create.simps) simp
  next
    case (dc k a)
    note o = sum_operands [OF dc(4) P(2,1) P(3) [symmetric] sem_simps(12)]
    show ?thesis
      using c4 [OF dc] o(1-4) P(3) sum_rewrites(4) [OF o(5,6)] const_left_built(5) [OF dc(4)] P n dc
      by (subst AddExpr_create.simps) simp
  next
    case ec
    then show ?thesis using P n by (subst AddExpr_create.simps) simp
  qed
qed

lemma sub_branch:
  assumes P: "wt A l" "wt A r" "getWidth A l = getWidth A r" and n: "getWidth A l \<noteq> 1" and m: "l \<noteq> r"
    and c1: "\<And>k a. const_left Add l = Some (k, a) \<Longrightarrow> wt A a \<Longrightarrow> getWidth A a = getWidth A l
      \<Longrightarrow> wt A (ConstantExpr k) \<Longrightarrow> ap_width A k = getWidth A l
      \<Longrightarrow> built A rho (do { x \<leftarrow> Sub_create A a r; Add_create A (ConstantExpr k) x }) (getWidth A l) (ap_add A k (ap_sub A (eval A rho a) (eval A rho r)))"
    and c2: "\<And>k a. const_left Add l = None \<Longrightarrow> const_left Sub l = Some (k, a) \<Longrightarrow> wt A a \<Longrightarrow> getWidth A a = getWidth A l
      \<Longrightarrow> wt A (ConstantExpr k) \<Longrightarrow> ap_width A k = getWidth A l
      \<Longrightarrow> built A rho (do { x \<leftarrow> Add_create A a r; Sub_create A (ConstantExpr k) x }) (getWidth A l) (ap_sub A k (ap_add A (eval A rho a) (eval A rho r)))"
    and c3: "\<And>k a. const_left Add l = None \<Longrightarrow> const_left Sub l = None \<Longrightarrow> const_left Add r = Some (k, a) \<Longrightarrow> wt A a \<Longrightarrow> getWidth A a = getWidth A l
      \<Longrightarrow> wt A (ConstantExpr k) \<Longrightarrow> ap_width A k = getWidth A l
      \<Longrightarrow> built A rho (do { x \<leftarrow> Sub_create A l a; Sub_create A x (ConstantExpr k) }) (getWidth A l) (ap_sub A (ap_sub A (eval A rho l) (eval A rho a)) k)"
    and c4: "\<And>k a. const_left Add l = None \<Longrightarrow> const_left Sub l = None \<Longrightarrow> const_left Add r = None \<Longrightarrow> const_left Sub r = Some (k, a) \<Longrightarrow> wt A a \<Longrightarrow> getWidth A a = getWidth A l
      \<Longrightarrow> wt A (ConstantExpr k) \<Longrightarrow> ap_width A k = getWidth A l
      \<Longrightarrow> built A rho (do { x \<leftarrow> Add_create A l a; Sub_create A x (ConstantExpr k) }) (getWidth A l) (ap_sub A (ap_add A (eval A rho l) (eval A rho a)) k)"
  shows "built A rho (SubExpr_create A l r) (getWidth A l) (ap_sub A (eval A rho l) (eval A rho r))"
proof -
  consider (ac) k a where "const_left Add l = Some (k, a)"
    | (bc) k a where "const_left Add l = None" "const_left Sub l = Some (k, a)"
    | (cc) k a where "const_left Add l = None" "const_left Sub l = None" "const_left Add r = Some (k, a)"
    | (dc) k a where "const_left Add l = None" "const_left Sub l = None" "const_left Add r = None" "const_left Sub r = Some (k, a)"
    | (ec) "const_left Add l = None" "const_left Sub l = None" "const_left Add r = None" "const_left Sub r = None"
    by (metis not_None_eq surj_pair)
  then show ?thesis
  proof cases
    case (ac k a)
    note o = sum_operands [OF ac(1) P sem_simps(11)]
    show ?thesis
      using c1 [OF ac] o(1-4) P(3) sum_rewrites(5) [OF o(5,6)] const_left_built(5) [OF ac(1)] P n m ac
      by (subst SubExpr_create.simps) simp
  next
    case (bc k a)
    note o = sum_operands [OF bc(2) P sem_simps(12)]
    show ?thesis
      using c2 [OF bc] o(1-4) P(3) sum_rewrites(6) [OF o(5,6)] const_left_built(5) [OF bc(2)] P n m bc
      by (subst SubExpr_create.simps) simp
  next
    case (cc k a)
    note o = sum_operands [OF cc(3) P(2,1) P(3) [symmetric] sem_simps(11)]
    show ?thesis
      using c3 [OF cc] o(1-4) P(3) sum_rewrites(7) [OF o(5,6)] const_left_built(5) [OF cc(3)] P n m cc
      by (subst SubExpr_create.simps) simp
  next
    case (dc k a)
    note o = sum_operands [OF dc(4) P(2,1) P(3) [symmetric] sem_simps(12)]
    show ?thesis
      using c4 [OF dc] o(1-4) P(3) sum_rewrites(8) [OF o(5,6)] const_left_built(5) [OF dc(4)] P n m dc
      by (subst SubExpr_create.simps) simp
  next
    case ec
    then show ?thesis using P n m by (subst SubExpr_create.simps) simp
  qed
qed

lemma Sum_built:
  "B = A \<Longrightarrow> wt A r' \<Longrightarrow> getWidth A r' = ap_width A cl
    \<Longrightarrow> built A rho (AddExpr_createPartialR B cl r') (ap_width A cl) (ap_add A cl (eval A rho r'))"
  "B = A \<Longrightarrow> wt A r' \<Longrightarrow> getWidth A r' = ap_width A cl
    \<Longrightarrow> built A rho (SubExpr_createPartialR B cl r') (ap_width A cl) (ap_sub A cl (eval A rho r'))"
  "B = A \<Longrightarrow> wt A l \<Longrightarrow> wt A r \<Longrightarrow> getWidth A l = getWidth A r
    \<Longrightarrow> built A rho (AddExpr_create B l r) (getWidth A l) (ap_add A (eval A rho l) (eval A rho r))"
  "B = A \<Longrightarrow> wt A l \<Longrightarrow> wt A r \<Longrightarrow> getWidth A l = getWidth A r
    \<Longrightarrow> built A rho (SubExpr_create B l r) (getWidth A l) (ap_sub A (eval A rho l) (eval A rho r))"
  "B = A \<Longrightarrow> wt A l \<Longrightarrow> wt A r \<Longrightarrow> getWidth A l = getWidth A r
    \<Longrightarrow> built A rho (Add_create B l r) (getWidth A l) (ap_add A (eval A rho l) (eval A rho r))"
  "B = A \<Longrightarrow> wt A l \<Longrightarrow> wt A r \<Longrightarrow> getWidth A l = getWidth A r
    \<Longrightarrow> built A rho (Sub_create B l r) (getWidth A l) (ap_sub A (eval A rho l) (eval A rho r))"
proof (induction B cl r' and B cl r' and B l r and B l r and B l r and B l r
    rule: AddExpr_createPartialR_SubExpr_createPartialR_AddExpr_create_SubExpr_create_Add_create_Sub_create.induct)
  case (1 B cl r')
  note IH = "1.IH" [unfolded "1.prems"(1)] and P = "1.prems"(2,3)
  have w: "0 < ap_width A cl" "ap_same A cl (eval A rho r')" "ap_width A (eval A rho r') = ap_width A cl"
    using wt_width [OF P(1)] P(2) by (simp_all add: ap_same_def)
  show ?case
  proof (cases "ap_width A cl = 1 \<or> isZero A cl")
    case True
    then show ?thesis
      using XorExpr_createPartialR_built [OF P] bit_arith(1) [of cl "eval A rho r'"] add_zero [OF w(2)] w P "1.prems"(1)
      by (subst AddExpr_createPartialR.simps) (auto simp: isZero_def)
  next
    case False
    then have n: "ap_width A cl \<noteq> 1" "\<not> isZero A cl" by simp_all
    show ?thesis unfolding "1.prems"(1)
    proof (rule add_partial_branch [OF P _ _ n])
      show "built A rho (Add_create A (ConstantExpr (ap_add A cl k)) c) (ap_width A cl) (ap_add A (ap_add A cl k) (eval A rho c))"
        if p: "const_left Add r' = Some (k, c)" and c: "wt A c" "getWidth A c = ap_width A cl" and k: "ap_same A cl k" for k c
        using IH(2) [OF n p refl _ refl _ c(1), of "ap_add A cl k"] k c w(1) by (simp add: fold_sums ap_same_def add_width)
      show "built A rho (Sub_create A (ConstantExpr (ap_add A cl k)) c) (ap_width A cl) (ap_sub A (ap_add A cl k) (eval A rho c))"
        if p: "const_left Add r' = None" "const_left Sub r' = Some (k, c)" and c: "wt A c" "getWidth A c = ap_width A cl"
          and k: "ap_same A cl k" for k c
        using IH(1) [OF n p refl _ refl _ c(1), of "ap_add A cl k"] k c w(1) by (simp add: fold_sums ap_same_def add_width)
    qed
  qed
next
  case (2 B cl r')
  note IH = "2.IH" [unfolded "2.prems"(1)] and P = "2.prems"(2,3)
  have w: "0 < ap_width A cl" "ap_same A cl (eval A rho r')" "ap_width A (eval A rho r') = ap_width A cl"
    using wt_width [OF P(1)] P(2) by (simp_all add: ap_same_def)
  show ?case
  proof (cases "ap_width A cl = 1")
    case True
    then show ?thesis
      using XorExpr_createPartialR_built [OF P] bit_arith(2) [of cl "eval A rho r'"] w P "2.prems"(1)
      by (subst SubExpr_createPartialR.simps) (auto simp: isZero_def)
  next
    case False
    then have n: "ap_width A cl \<noteq> 1" by simp_all
    show ?thesis unfolding "2.prems"(1)
    proof (rule sub_partial_branch [OF P _ _ n])
      show "built A rho (Sub_create A (ConstantExpr (ap_sub A cl k)) c) (ap_width A cl) (ap_sub A (ap_sub A cl k) (eval A rho c))"
        if p: "const_left Add r' = Some (k, c)" and c: "wt A c" "getWidth A c = ap_width A cl" and k: "ap_same A cl k" for k c
        using IH(2) [OF n p refl _ refl _ c(1), of "ap_sub A cl k"] k c w(1) by (simp add: fold_sums ap_same_def sub_width)
      show "built A rho (Add_create A (ConstantExpr (ap_sub A cl k)) c) (ap_width A cl) (ap_add A (ap_sub A cl k) (eval A rho c))"
        if p: "const_left Add r' = None" "const_left Sub r' = Some (k, c)" and c: "wt A c" "getWidth A c = ap_width A cl"
          and k: "ap_same A cl k" for k c
        using IH(1) [OF n p refl _ refl _ c(1), of "ap_sub A cl k"] k c w(1) by (simp add: fold_sums ap_same_def sub_width)
    qed
  qed
next
  case (3 B l r)
  note IH = "3.IH" [unfolded "3.prems"(1)] and P = "3.prems"(2-4)
  show ?case
  proof (cases "getWidth A l = 1")
    case True
    then show ?thesis
      using bit_arith(1) [of "eval A rho l" "eval A rho r"] wt_width P "3.prems"(1) by (subst AddExpr_create.simps) auto
  next
    case False
    then have n: "getWidth A l \<noteq> 1" by simp_all
    show ?thesis unfolding "3.prems"(1)
    proof (rule add_branch [OF P n])
      show "built A rho (do { x \<leftarrow> Add_create A a r; Add_create A (ConstantExpr k) x }) (getWidth A l) (ap_add A k (ap_add A (eval A rho a) (eval A rho r)))"
        if p: "const_left Add l = Some (k, a)" and o: "wt A a" "getWidth A a = getWidth A l" "wt A (ConstantExpr k)" "ap_width A k = getWidth A l" for k a
      proof (rule built_bind_Some)
        show "built A rho (Add_create A a r) (getWidth A l) (ap_add A (eval A rho a) (eval A rho r))"
          using IH(7) [OF n p refl refl o(1) P(2)] o(2) P(3) by simp
        show "built A rho (Add_create A (ConstantExpr k) x) (getWidth A l) (ap_add A k (ap_add A (eval A rho a) (eval A rho r)))"
          if e: "Add_create A a r = Some x" "wt A x" "getWidth A x = getWidth A l" "eval A rho x = (ap_add A (eval A rho a) (eval A rho r))" for x
          using IH(8) [OF n p refl e(1) refl o(3) e(2)] e(3,4) o(4) by simp
      qed
      show "built A rho (do { x \<leftarrow> Sub_create A r a; Add_create A (ConstantExpr k) x }) (getWidth A l) (ap_add A k (ap_sub A (eval A rho r) (eval A rho a)))"
        if p: "const_left Add l = None" "const_left Sub l = Some (k, a)" and o: "wt A a" "getWidth A a = getWidth A l" "wt A (ConstantExpr k)" "ap_width A k = getWidth A l" for k a
      proof (rule built_bind_Some)
        show "built A rho (Sub_create A r a) (getWidth A l) (ap_sub A (eval A rho r) (eval A rho a))"
          using IH(5) [OF n p refl refl P(2) o(1)] o(2) P(3) by simp
        show "built A rho (Add_create A (ConstantExpr k) x) (getWidth A l) (ap_add A k (ap_sub A (eval A rho r) (eval A rho a)))"
          if e: "Sub_create A r a = Some x" "wt A x" "getWidth A x = getWidth A l" "eval A rho x = (ap_sub A (eval A rho r) (eval A rho a))" for x
          using IH(6) [OF n p refl e(1) refl o(3) e(2)] e(3,4) o(4) by simp
      qed
      show "built A rho (do { x \<leftarrow> Add_create A l a; Add_create A (ConstantExpr k) x }) (getWidth A l) (ap_add A k (ap_add A (eval A rho l) (eval A rho a)))"
        if p: "const_left Add l = None" "const_left Sub l = None" "const_left Add r = Some (k, a)" and o: "wt A a" "getWidth A a = getWidth A l" "wt A (ConstantExpr k)" "ap_width A k = getWidth A l" for k a
      proof (rule built_bind_Some)
        show "built A rho (Add_create A l a) (getWidth A l) (ap_add A (eval A rho l) (eval A rho a))"
          using IH(3) [OF n p refl refl P(1) o(1)] o(2) P(3) by simp
        show "built A rho (Add_create A (ConstantExpr k) x) (getWidth A l) (ap_add A k (ap_add A (eval A rho l) (eval A rho a)))"
          if e: "Add_create A l a = Some x" "wt A x" "getWidth A x = getWidth A l" "eval A rho x = (ap_add A (eval A rho l) (eval A rho a))" for x
          using IH(4) [OF n p refl e(1) refl o(3) e(2)] e(3,4) o(4) by simp
      qed
      show "built A rho (do { x \<leftarrow> Sub_create A l a; Add_create A (ConstantExpr k) x }) (getWidth A l) (ap_add A k (ap_sub A (eval A rho l) (eval A rho a)))"
        if p: "const_left Add l = None" "const_left Sub l = None" "const_left Add r = None" "const_left Sub r = Some (k, a)" and o: "wt A a" "getWidth A a = getWidth A l" "wt A (ConstantExpr k)" "ap_width A k = getWidth A l" for k a
      proof (rule built_bind_Some)
        show "built A rho (Sub_create A l a) (getWidth A l) (ap_sub A (eval A rho l) (eval A rho a))"
          using IH(1) [OF n p refl refl P(1) o(1)] o(2) P(3) by simp
        show "built A rho (Add_create A (ConstantExpr k) x) (getWidth A l) (ap_add A k (ap_sub A (eval A rho l) (eval A rho a)))"
          if e: "Sub_create A l a = Some x" "wt A x" "getWidth A x = getWidth A l" "eval A rho x = (ap_sub A (eval A rho l) (eval A rho a))" for x
          using IH(2) [OF n p refl e(1) refl o(3) e(2)] e(3,4) o(4) by simp
      qed
    qed
  qed
next
  case (4 B l r)
  note IH = "4.IH" [unfolded "4.prems"(1)] and P = "4.prems"(2-4)
  show ?case
  proof (cases "getWidth A l = 1 \<or> l = r")
    case True
    then show ?thesis
      using bit_arith(2) [of "eval A rho l" "eval A rho r"] wt_width P sub_self [of "eval A rho l"] "4.prems"(1) by (subst SubExpr_create.simps) (auto simp: make_width)
  next
    case False
    then have n: "getWidth A l \<noteq> 1" "l \<noteq> r" by simp_all
    show ?thesis unfolding "4.prems"(1)
    proof (rule sub_branch [OF P n])
      show "built A rho (do { x \<leftarrow> Sub_create A a r; Add_create A (ConstantExpr k) x }) (getWidth A l) (ap_add A k (ap_sub A (eval A rho a) (eval A rho r)))"
        if p: "const_left Add l = Some (k, a)" and o: "wt A a" "getWidth A a = getWidth A l" "wt A (ConstantExpr k)" "ap_width A k = getWidth A l" for k a
      proof (rule built_bind_Some)
        show "built A rho (Sub_create A a r) (getWidth A l) (ap_sub A (eval A rho a) (eval A rho r))"
          using IH(7) [OF n p refl refl o(1) P(2)] o(2) P(3) by simp
        show "built A rho (Add_create A (ConstantExpr k) x) (getWidth A l) (ap_add A k (ap_sub A (eval A rho a) (eval A rho r)))"
          if e: "Sub_create A a r = Some x" "wt A x" "getWidth A x = getWidth A l" "eval A rho x = (ap_sub A (eval A rho a) (eval A rho r))" for x
          using IH(8) [OF n p refl e(1) refl o(3) e(2)] e(3,4) o(4) by simp
      qed
      show "built A rho (do { x \<leftarrow> Add_create A a r; Sub_create A (ConstantExpr k) x }) (getWidth A l) (ap_sub A k (ap_add A (eval A rho a) (eval A rho r)))"
        if p: "const_left Add l = None" "const_left Sub l = Some (k, a)" and o: "wt A a" "getWidth A a = getWidth A l" "wt A (ConstantExpr k)" "ap_width A k = getWidth A l" for k a
      proof (rule built_bind_Some)
        show "built A rho (Add_create A a r) (getWidth A l) (ap_add A (eval A rho a) (eval A rho r))"
          using IH(5) [OF n p refl refl o(1) P(2)] o(2) P(3) by simp
        show "built A rho (Sub_create A (ConstantExpr k) x) (getWidth A l) (ap_sub A k (ap_add A (eval A rho a) (eval A rho r)))"
          if e: "Add_create A a r = Some x" "wt A x" "getWidth A x = getWidth A l" "eval A rho x = (ap_add A (eval A rho a) (eval A rho r))" for x
          using IH(6) [OF n p refl e(1) refl o(3) e(2)] e(3,4) o(4) by simp
      qed
      show "built A rho (do { x \<leftarrow> Sub_create A l a; Sub_create A x (ConstantExpr k) }) (getWidth A l) (ap_sub A (ap_sub A (eval A rho l) (eval A rho a)) k)"
        if p: "const_left Add l = None" "const_left Sub l = None" "const_left Add r = Some (k, a)" and o: "wt A a" "getWidth A a = getWidth A l" "wt A (ConstantExpr k)" "ap_width A k = getWidth A l" for k a
      proof (rule built_bind_Some)
        show "built A rho (Sub_create A l a) (getWidth A l) (ap_sub A (eval A rho l) (eval A rho a))"
          using IH(3) [OF n p refl refl P(1) o(1)] o(2) P(3) by simp
        show "built A rho (Sub_create A x (ConstantExpr k)) (getWidth A l) (ap_sub A (ap_sub A (eval A rho l) (eval A rho a)) k)"
          if e: "Sub_create A l a = Some x" "wt A x" "getWidth A x = getWidth A l" "eval A rho x = (ap_sub A (eval A rho l) (eval A rho a))" for x
          using IH(4) [OF n p refl e(1) refl e(2) o(3)] e(3,4) o(4) by simp
      qed
      show "built A rho (do { x \<leftarrow> Add_create A l a; Sub_create A x (ConstantExpr k) }) (getWidth A l) (ap_sub A (ap_add A (eval A rho l) (eval A rho a)) k)"
        if p: "const_left Add l = None" "const_left Sub l = None" "const_left Add r = None" "const_left Sub r = Some (k, a)" and o: "wt A a" "getWidth A a = getWidth A l" "wt A (ConstantExpr k)" "ap_width A k = getWidth A l" for k a
      proof (rule built_bind_Some)
        show "built A rho (Add_create A l a) (getWidth A l) (ap_add A (eval A rho l) (eval A rho a))"
          using IH(1) [OF n p refl refl P(1) o(1)] o(2) P(3) by simp
        show "built A rho (Sub_create A x (ConstantExpr k)) (getWidth A l) (ap_sub A (ap_add A (eval A rho l) (eval A rho a)) k)"
          if e: "Add_create A l a = Some x" "wt A x" "getWidth A x = getWidth A l" "eval A rho x = (ap_add A (eval A rho l) (eval A rho a))" for x
          using IH(2) [OF n p refl e(1) refl e(2) o(3)] e(3,4) o(4) by simp
      qed
    qed
  qed
next
  case (5 B l r)
  note IH = "5.IH" [unfolded "5.prems"(1)] and P = "5.prems"(2-4)
  have "Add_create A l r = BCREATE_R A Add (\<lambda>l cr. AddExpr_createPartialR A cr l) (AddExpr_createPartialR A) (AddExpr_create A) l r"
    by (simp add: BCREATE_R_def Add_create.simps)
  moreover have "built A rho (BCREATE_R A Add (\<lambda>l cr. AddExpr_createPartialR A cr l) (AddExpr_createPartialR A) (AddExpr_create A) l r) (getWidth A l)
      (sem_op A Add (eval A rho l) (eval A rho r))"
  proof (rule BCREATE_R_built [OF P])
    show "built A rho (AddExpr_create A l r) (getWidth A l) (sem_op A Add (eval A rho l) (eval A rho r))"
      if "as_const l = None" "as_const r = None"
      using IH(1) [OF _ that refl P] P(3) by simp
    show "built A rho (AddExpr_createPartialR A cl r) (getWidth A l) (sem_op A Add (eval A rho l) (eval A rho r))"
      if c: "as_const r = None" "l = ConstantExpr cl" for cl
      using IH(3) [OF _ _ c(1) refl P(2), of cl] P(3) c(2) by simp
    show "built A rho (AddExpr_createPartialR A cr l) (getWidth A l) (sem_op A Add (eval A rho l) (eval A rho r))"
      if c: "as_const l = None" "r = ConstantExpr cr" for cr
      using IH(2) [OF _ c(1) _ refl P(1), of cr] P c add_commute [of "eval A rho l" cr] eval_same [OF P] by simp
  qed simp_all
  ultimately show ?case using "5.prems"(1) by simp
next
  case (6 B l r)
  note IH = "6.IH" [unfolded "6.prems"(1)] and P = "6.prems"(2-4)
  have "Sub_create A l r = BCREATE_R A Sub (\<lambda>l cr. AddExpr_createPartialR A (ap_sub A (ap_make A (ap_width A cr) 0) cr) l) (SubExpr_createPartialR A) (SubExpr_create A) l r"
    by (simp add: BCREATE_R_def Sub_create.simps split: option.split)
  moreover have "built A rho (BCREATE_R A Sub (\<lambda>l cr. AddExpr_createPartialR A (ap_sub A (ap_make A (ap_width A cr) 0) cr) l) (SubExpr_createPartialR A) (SubExpr_create A) l r) (getWidth A l)
      (sem_op A Sub (eval A rho l) (eval A rho r))"
  proof (rule BCREATE_R_built [OF P])
    show "built A rho (SubExpr_create A l r) (getWidth A l) (sem_op A Sub (eval A rho l) (eval A rho r))"
      if "as_const l = None" "as_const r = None"
      using IH(1) [OF _ that refl P] P(3) by simp
    show "built A rho (SubExpr_createPartialR A cl r) (getWidth A l) (sem_op A Sub (eval A rho l) (eval A rho r))"
      if c: "as_const r = None" "l = ConstantExpr cl" for cl
      using IH(3) [OF _ _ c(1) refl P(2), of cl] P(3) c(2) by simp
    show "built A rho (AddExpr_createPartialR A (ap_sub A (ap_make A (ap_width A cr) 0) cr) l) (getWidth A l) (sem_op A Sub (eval A rho l) (eval A rho r))"
      if c: "as_const l = None" "r = ConstantExpr cr" for cr
      using IH(2) [OF _ c(1) _ refl P(1), of cr] P c sub_constant [of "eval A rho l" cr] sub_zero_width [of cr] eval_same [OF P] by simp
  qed simp_all
  ultimately show ?case using "6.prems"(1) by simp
qed

lemmas Add_create_built = Sum_built(5) [OF refl] and Sub_create_built = Sum_built(6) [OF refl]

section \<open>The other binary operations\<close>

lemma Xor_create_built:
  assumes "wt A l" "wt A r" "getWidth A l = getWidth A r"
  shows "built A rho (Xor_create A l r) (getWidth A l) (ap_xor A (eval A rho l) (eval A rho r))"
proof -
  have p: "built A rho (XorExpr_createPartialR A c e) (getWidth A e) (sem_op A Xor (eval A rho e) c)"
    if "wt A e" "0 < ap_width A c" "getWidth A e = ap_width A c" for e c
    using XorExpr_createPartialR_built [of e c] that bitwise_commute(3) [of "eval A rho e" c] eval_same [of e "ConstantExpr c"]
    by simp
  have "built A rho (BCREATE_R A Xor (\<lambda>l cr. XorExpr_createPartialR A cr l) (\<lambda>cl r. XorExpr_createPartialR A cl r)
      (\<lambda>l r. Some (BinaryExpr Xor l r)) l r) (getWidth A l) (sem_op A Xor (eval A rho l) (eval A rho r))"
    by (rule BCREATE_R_sym_built [OF assms _ _ _ p]) (use assms in \<open>auto intro: bitwise_commute(3)\<close>)
  then show ?thesis by (simp add: Xor_create_def)
qed

lemma mul_laws:
  "ap_same A x y \<Longrightarrow> ap_mul A x y = ap_mul A y x"
  "ap_same A x y \<Longrightarrow> ap_uint A y = 1 \<Longrightarrow> ap_mul A x y = x" "ap_same A x y \<Longrightarrow> ap_uint A y = 0 \<Longrightarrow> ap_mul A x y = y"
  using ap_range [of x] by (intro ap_eqI; simp add: mul_width mul_uint ap_same_def mult.commute)+

lemma Mul_create_built:
  assumes "wt A l" "wt A r" "getWidth A l = getWidth A r"
  shows "built A rho (Mul_create A l r) (getWidth A l) (ap_mul A (eval A rho l) (eval A rho r))"
proof -
  have p: "built A rho (MulExpr_createPartialR A c e) (getWidth A e) (sem_op A Mul (eval A rho e) c)"
    if P: "wt A e" "0 < ap_width A c" "getWidth A e = ap_width A c" for e c
  proof -
    have s: "ap_same A (eval A rho e) c" "ap_width A (eval A rho e) = ap_width A c" using eval_same [of e "ConstantExpr c"] P wt_width by simp_all
    consider "ap_width A c = 1" | "ap_width A c \<noteq> 1" "ap_uint A c = 1" | "ap_width A c \<noteq> 1" "ap_uint A c = 0"
      | "ap_width A c \<noteq> 1" "ap_uint A c \<noteq> 1" "ap_uint A c \<noteq> 0" by blast
    then show ?thesis
    proof cases
      case 1
      then show ?thesis using AndExpr_createPartial_built [OF P] bit_arith(3) [of "eval A rho e" c] s
        by (simp add: MulExpr_createPartialR_def AndExpr_createPartialR_def)
    qed (use P mul_laws(1) [OF s(1)] mul_laws(2,3) [OF s(1)] in \<open>auto simp: MulExpr_createPartialR_def isOne_def isZero_def\<close>)
  qed
  have "built A rho (MulExpr_create A l r) (getWidth A l) (sem_op A Mul (eval A rho l) (eval A rho r))"
    using assms bit_arith(3) [of "eval A rho l" "eval A rho r"] wt_width by (simp add: MulExpr_create_def)
  then have "built A rho (BCREATE_R A Mul (\<lambda>l cr. MulExpr_createPartialR A cr l) (\<lambda>cl r. MulExpr_createPartialR A cl r)
      (MulExpr_create A) l r) (getWidth A l) (sem_op A Mul (eval A rho l) (eval A rho r))"
    by (intro BCREATE_R_sym_built [OF assms _ _ _ p]) (use mul_laws(1) in auto)
  then show ?thesis by (simp add: Mul_create_def)
qed

lemma bit_div:
  assumes "ap_width A x = 1" "ap_width A y = 1" "ap_uint A y \<noteq> 0"
  shows "ap_udiv A x y = x" "ap_sdiv A x y = x" "ap_urem A x y = ap_make A 1 0" "ap_srem A x y = ap_make A 1 0"
proof -
  have s: "ap_same A x y" using assms by (simp add: ap_same_def)
  show "ap_udiv A x y = x" "ap_sdiv A x y = x" "ap_urem A x y = ap_make A 1 0" "ap_srem A x y = ap_make A 1 0"
    using bit_cases [OF assms(1)] bit_cases [OF assms(2)] s assms bit_sint [of x] bit_sint [of y]
    by (auto intro!: ap_eqI simp: udiv_width sdiv_width urem_width srem_width udiv_uint sdiv_uint urem_uint srem_uint
        signed_divide_int_def signed_modulo_int_def)
qed

lemma bit_shift:
  assumes "ap_width A x = 1" "ap_width A y = 1"
  shows "ap_shl A x y = ap_and A x (ap_make A 1 (of_bool (ap_uint A y = 0)))"
    "ap_lshr A x y = ap_and A x (ap_make A 1 (of_bool (ap_uint A y = 0)))" "ap_ashr A x y = x"
proof -
  have s: "ap_same A x y" "ap_same A x (ap_make A 1 v)" for v using assms by (simp_all add: ap_same_def)
  show "ap_shl A x y = ap_and A x (ap_make A 1 (of_bool (ap_uint A y = 0)))"
    "ap_lshr A x y = ap_and A x (ap_make A 1 (of_bool (ap_uint A y = 0)))" "ap_ashr A x y = x"
    using bit_cases [OF assms(1)] bit_cases [OF assms(2)] s assms bit_sint [of x]
    by (auto intro!: ap_eqI simp: shl_width lshr_width ashr_width and_width shl_uint lshr_uint ashr_uint and_uint)
qed

lemma bit_compare:
  assumes "ap_width A x = 1" "ap_width A y = 1"
  shows "ap_make A 1 (of_bool (ap_ult A x y)) = ap_and A (ap_make A 1 (of_bool (ap_uint A x = 0))) y"
    "ap_make A 1 (of_bool (ap_ule A x y)) = ap_or A (ap_make A 1 (of_bool (ap_uint A x = 0))) y"
    "ap_make A 1 (of_bool (ap_slt A x y)) = ap_and A x (ap_make A 1 (of_bool (ap_uint A y = 0)))"
    "ap_make A 1 (of_bool (ap_sle A x y)) = ap_or A x (ap_make A 1 (of_bool (ap_uint A y = 0)))"
proof -
  have s: "ap_same A x y" "ap_same A x (ap_make A 1 v)" "ap_same A (ap_make A 1 v) y" for v using assms by (simp_all add: ap_same_def)
  note facts = bit_cases [OF assms(1)] bit_cases [OF assms(2)] s assms bit_sint [of x] bit_sint [of y]
  note laws = and_width or_width and_uint or_uint ult_iff ule_iff slt_iff sle_iff
  show "ap_make A 1 (of_bool (ap_ult A x y)) = ap_and A (ap_make A 1 (of_bool (ap_uint A x = 0))) y"
    "ap_make A 1 (of_bool (ap_ule A x y)) = ap_or A (ap_make A 1 (of_bool (ap_uint A x = 0))) y"
    "ap_make A 1 (of_bool (ap_slt A x y)) = ap_and A x (ap_make A 1 (of_bool (ap_uint A y = 0)))"
    "ap_make A 1 (of_bool (ap_sle A x y)) = ap_or A x (ap_make A 1 (of_bool (ap_uint A y = 0)))"
    using facts by (auto intro!: ap_eqI simp: laws)
qed

text \<open>The boolean operations that one-bit shifts and comparisons turn into.\<close>

lemma negated_operand_built:
  assumes "wt A x" "wt A y" "getWidth A x = 1" "getWidth A y = 1"
  defines "z \<equiv> ap_make A 1 (of_bool (ap_uint A (eval A rho x) = 0))"
  shows "built A rho (do { n \<leftarrow> createIsZero A x; And_create A n y }) 1 (ap_and A z (eval A rho y))"
    "built A rho (do { n \<leftarrow> createIsZero A x; Or_create A n y }) 1 (ap_or A z (eval A rho y))"
    "built A rho (do { n \<leftarrow> createIsZero A x; And_create A y n }) 1 (ap_and A (eval A rho y) z)"
    "built A rho (do { n \<leftarrow> createIsZero A x; Or_create A y n }) 1 (ap_or A (eval A rho y) z)"
proof -
  have b: "built A rho (Option.bind (createIsZero A x) f) 1 v"
    if "\<And>e. wt A e \<Longrightarrow> getWidth A e = 1 \<Longrightarrow> eval A rho e = z \<Longrightarrow> built A rho (f e) 1 v" for f v
    by (rule built_bind [OF IsZero_built [OF assms(1)], folded z_def]) (rule that)
  show "built A rho (do { n \<leftarrow> createIsZero A x; And_create A n y }) 1 (ap_and A z (eval A rho y))"
    by (rule b) (use And_create_built [OF _ assms(2)] assms(4) in fastforce)
  show "built A rho (do { n \<leftarrow> createIsZero A x; Or_create A n y }) 1 (ap_or A z (eval A rho y))"
    by (rule b) (use Or_create_built [OF _ assms(2)] assms(4) in fastforce)
  show "built A rho (do { n \<leftarrow> createIsZero A x; And_create A y n }) 1 (ap_and A (eval A rho y) z)"
    by (rule b) (use And_create_built [OF assms(2)] assms(4) in fastforce)
  show "built A rho (do { n \<leftarrow> createIsZero A x; Or_create A y n }) 1 (ap_or A (eval A rho y) z)"
    by (rule b) (use Or_create_built [OF assms(2)] assms(4) in fastforce)
qed

text \<open>Each builder without constants, at width one and at other widths.\<close>

lemmas plain_creates = DivExpr_create_def RemExpr_create_def ShiftExpr_create_def AShrExpr_create_def UltExpr_create_def
  UleExpr_create_def SltExpr_create_def SleExpr_create_def

lemma plain_create_wide:
  assumes P: "wt A l" "wt A r" "getWidth A l = getWidth A r" and n: "getWidth A l \<noteq> 1"
    and x: "x = eval A rho l" and y: "y = eval A rho r"
  shows "ap_uint A y \<noteq> 0 \<Longrightarrow> k \<in> {UDiv, SDiv} \<Longrightarrow> built A rho (DivExpr_create A k l r) (getWidth A l) (sem_op A k x y)"
    "ap_uint A y \<noteq> 0 \<Longrightarrow> k \<in> {URem, SRem} \<Longrightarrow> built A rho (RemExpr_create A k l r) (getWidth A l) (sem_op A k x y)"
    "k \<in> {Shl, LShr} \<Longrightarrow> built A rho (ShiftExpr_create A k l r) (getWidth A l) (sem_op A k x y)"
    "built A rho (AShrExpr_create A l r) (getWidth A l) (sem_op A AShr x y)"
    "built A rho (UltExpr_create A l r) 1 (sem_op A Ult x y)" "built A rho (UleExpr_create A l r) 1 (sem_op A Ule x y)"
    "built A rho (SltExpr_create A l r) 1 (sem_op A Slt x y)" "built A rho (SleExpr_create A l r) 1 (sem_op A Sle x y)"
  using assms by (auto simp: plain_creates is_cmp_def)

lemma bit_sem_ops:
  assumes w: "ap_width A x = 1" "ap_width A y = 1"
    and z: "zx = ap_make A 1 (of_bool (ap_uint A x = 0))" "zy = ap_make A 1 (of_bool (ap_uint A y = 0))"
  shows "k \<in> {Shl, LShr} \<Longrightarrow> sem_op A k x y = ap_and A x zy" "sem_op A AShr x y = x"
    "sem_op A Ult x y = ap_and A zx y" "sem_op A Ule x y = ap_or A zx y"
    "sem_op A Slt x y = ap_and A x zy" "sem_op A Sle x y = ap_or A x zy"
  using bit_shift [OF w] bit_compare [OF w] unfolding z sem_op_def div_kind_def by auto

lemma plain_create_bit:
  assumes P: "wt A l" "wt A r" "getWidth A l = getWidth A r" and one: "getWidth A l = 1"
    and x: "x = eval A rho l" and y: "y = eval A rho r"
  shows "ap_uint A y \<noteq> 0 \<Longrightarrow> k \<in> {UDiv, SDiv} \<Longrightarrow> built A rho (DivExpr_create A k l r) (getWidth A l) (sem_op A k x y)"
    "ap_uint A y \<noteq> 0 \<Longrightarrow> k \<in> {URem, SRem} \<Longrightarrow> built A rho (RemExpr_create A k l r) (getWidth A l) (sem_op A k x y)"
    "k \<in> {Shl, LShr} \<Longrightarrow> built A rho (ShiftExpr_create A k l r) (getWidth A l) (sem_op A k x y)"
    "built A rho (AShrExpr_create A l r) (getWidth A l) (sem_op A AShr x y)"
    "built A rho (UltExpr_create A l r) 1 (sem_op A Ult x y)" "built A rho (UleExpr_create A l r) 1 (sem_op A Ule x y)"
    "built A rho (SltExpr_create A l r) 1 (sem_op A Slt x y)" "built A rho (SleExpr_create A l r) 1 (sem_op A Sle x y)"
proof -
  have r: "getWidth A r = 1" using P one by simp
  have w: "ap_width A x = 1" "ap_width A y = 1" using P one wt_width by (simp_all add: x y)
  define zx zy where z: "zx = ap_make A 1 (of_bool (ap_uint A x = 0))" "zy = ap_make A 1 (of_bool (ap_uint A y = 0))"
  note sem = bit_sem_ops [OF w z]
  note nl = negated_operand_built [OF P(1,2) one r, folded x y, folded z]
  note nr = negated_operand_built [OF P(2,1) r one, folded x y, folded z]
  show "ap_uint A y \<noteq> 0 \<Longrightarrow> k \<in> {UDiv, SDiv} \<Longrightarrow> built A rho (DivExpr_create A k l r) (getWidth A l) (sem_op A k x y)"
    using bit_div(1,2) [OF w] P(1) one by (auto simp: plain_creates sem_op_def x [symmetric])
  show "ap_uint A y \<noteq> 0 \<Longrightarrow> k \<in> {URem, SRem} \<Longrightarrow> built A rho (RemExpr_create A k l r) (getWidth A l) (sem_op A k x y)"
    using bit_div(3,4) [OF w] Constant_create_built [of 1] one by (auto simp: plain_creates sem_op_def)
  show "k \<in> {Shl, LShr} \<Longrightarrow> built A rho (ShiftExpr_create A k l r) (getWidth A l) (sem_op A k x y)"
    using nr(3) sem(1) one by (simp add: plain_creates)
  show "built A rho (AShrExpr_create A l r) (getWidth A l) (sem_op A AShr x y)"
    using sem(2) P(1) one x by (simp add: plain_creates)
  show "built A rho (UltExpr_create A l r) 1 (sem_op A Ult x y)" using nl(1) sem(3) one by (simp add: plain_creates)
  show "built A rho (UleExpr_create A l r) 1 (sem_op A Ule x y)" using nl(2) sem(4) one by (simp add: plain_creates)
  show "built A rho (SltExpr_create A l r) 1 (sem_op A Slt x y)" using nr(3) sem(5) one by (simp add: plain_creates)
  show "built A rho (SleExpr_create A l r) 1 (sem_op A Sle x y)" using nr(4) sem(6) one by (simp add: plain_creates)
qed

lemma plain_create_built:
  assumes P: "wt A l" "wt A r" "getWidth A l = getWidth A r" and xy: "x = eval A rho l" "y = eval A rho r"
  shows "ap_uint A y \<noteq> 0 \<Longrightarrow> k \<in> {UDiv, SDiv} \<Longrightarrow> built A rho (DivExpr_create A k l r) (getWidth A l) (sem_op A k x y)"
    "ap_uint A y \<noteq> 0 \<Longrightarrow> k \<in> {URem, SRem} \<Longrightarrow> built A rho (RemExpr_create A k l r) (getWidth A l) (sem_op A k x y)"
    "k \<in> {Shl, LShr} \<Longrightarrow> built A rho (ShiftExpr_create A k l r) (getWidth A l) (sem_op A k x y)"
    "built A rho (AShrExpr_create A l r) (getWidth A l) (sem_op A AShr x y)"
    "built A rho (UltExpr_create A l r) 1 (sem_op A Ult x y)" "built A rho (UleExpr_create A l r) 1 (sem_op A Ule x y)"
    "built A rho (SltExpr_create A l r) 1 (sem_op A Slt x y)" "built A rho (SleExpr_create A l r) 1 (sem_op A Sle x y)"
  by - (cases "getWidth A l = 1"; ((rule plain_create_bit [OF P _ xy]; assumption) | (rule plain_create_wide [OF P _ xy]; assumption)))+

lemma Ne_create_built:
  assumes "wt A l" "wt A r" "getWidth A l = getWidth A r"
  shows "built A rho (Ne_create A l r) 1 (sem_op A Ne (eval A rho l) (eval A rho r))"
  unfolding Ne_create_def
proof (rule built_bind [OF Constant_create_built], simp, rule built_bind [OF Eq_create_built(1) [OF refl assms]])
  fix z e
  assume z: "wt A z" "getWidth A z = 1" "eval A rho z = ap_make A 1 0"
    and e: "wt A e" "getWidth A e = 1" "eval A rho e = ap_make A 1 (of_bool (eval A rho l = eval A rho r))"
  have "ap_make A 1 0 = eval A rho e \<longleftrightarrow> eval A rho l \<noteq> eval A rho r"
    using bit_eq_zero [of "ap_make A 1 0" "eval A rho e"] e(3) by simp
  then show "built A rho (Eq_create A z e) 1 (sem_op A Ne (eval A rho l) (eval A rho r))"
    using Eq_create_built(1) [OF refl z(1) e(1)] z e by (simp add: sem_op_def div_kind_def)
qed

lemma Binary_create_built:
  assumes P: "wt A l" "wt A r" "getWidth A l = getWidth A r" and d: "div_kind k \<Longrightarrow> ap_uint A (eval A rho r) \<noteq> 0"
  shows "built A rho (Binary_create A k l r) (if is_cmp k then 1 else getWidth A l) (sem_op A k (eval A rho l) (eval A rho r))"
proof -
  note creates = Add_create_built [OF P] Sub_create_built [OF P] Mul_create_built [OF P] And_create_built [OF P]
    Or_create_built [OF P] Xor_create_built [OF P] Eq_create_built(1) [OF refl P] Ne_create_built [OF P]
  note plain = plain_create_built [OF P refl refl] and plain' = plain_create_built [OF P(2,1) P(3) [symmetric] refl refl]
  note B = BCREATE_built [OF P] and B' = BCREATE_built [OF P(2,1) P(3) [symmetric]]
  have c: "sem_op A Ugt x y = sem_op A Ult y x" "sem_op A Uge x y = sem_op A Ule y x"
    "sem_op A Sgt x y = sem_op A Slt y x" "sem_op A Sge x y = sem_op A Sle y x" for x y
    by (simp_all add: sem_op_def div_kind_def)
  show ?thesis
  proof (cases k)
    case UDiv
    then show ?thesis using B [of UDiv "DivExpr_create A UDiv"] plain(1) [of UDiv] d by (simp add: is_cmp_def div_kind_def)
  next
    case SDiv
    then show ?thesis using B [of SDiv "DivExpr_create A SDiv"] plain(1) [of SDiv] d by (simp add: is_cmp_def div_kind_def)
  next
    case URem
    then show ?thesis using B [of URem "RemExpr_create A URem"] plain(2) [of URem] d by (simp add: is_cmp_def div_kind_def)
  next
    case SRem
    then show ?thesis using B [of SRem "RemExpr_create A SRem"] plain(2) [of SRem] d by (simp add: is_cmp_def div_kind_def)
  next
    case Shl
    then show ?thesis using B [of Shl "ShiftExpr_create A Shl"] plain(3) [of Shl] d by (simp add: is_cmp_def div_kind_def)
  next
    case LShr
    then show ?thesis using B [of LShr "ShiftExpr_create A LShr"] plain(3) [of LShr] d by (simp add: is_cmp_def div_kind_def)
  next
    case AShr
    then show ?thesis using B [of AShr "AShrExpr_create A"] plain(4) d by (simp add: is_cmp_def div_kind_def)
  next
    case Ult
    then show ?thesis using B [of Ult "UltExpr_create A"] plain(5) d by (simp add: is_cmp_def div_kind_def)
  next
    case Ule
    then show ?thesis using B [of Ule "UleExpr_create A"] plain(6) d by (simp add: is_cmp_def div_kind_def)
  next
    case Slt
    then show ?thesis using B [of Slt "SltExpr_create A"] plain(7) d by (simp add: is_cmp_def div_kind_def)
  next
    case Sle
    then show ?thesis using B [of Sle "SleExpr_create A"] plain(8) d by (simp add: is_cmp_def div_kind_def)
  next
    case Ugt
    then show ?thesis using B' [of Ult "UltExpr_create A"] plain'(5) d by (simp add: is_cmp_def div_kind_def c)
  next
    case Uge
    then show ?thesis using B' [of Ule "UleExpr_create A"] plain'(6) d by (simp add: is_cmp_def div_kind_def c)
  next
    case Sgt
    then show ?thesis using B' [of Slt "SltExpr_create A"] plain'(7) d by (simp add: is_cmp_def div_kind_def c)
  next
    case Sge
    then show ?thesis using B' [of Sle "SleExpr_create A"] plain'(8) d by (simp add: is_cmp_def div_kind_def c)
  qed (use creates in \<open>simp_all add: is_cmp_def\<close>)
qed

end

end
