(* ===== verification/Expr_Bits.thy ===== *)
theory Expr_Bits
  imports Expr_Sound
begin

text \<open>
  The builders for selections, reads, extracts, concatenations and casts keep types and values, and
  with the results of \<^verbatim>\<open>Expr_Sound\<close> the statements for the whole expression library.
\<close>

text \<open>
  The type of a quotient or remainder does not depend on the value of the divisor, unless it is a constant
  zero, on which the arithmetic of constants fails.
\<close>

definition folds_zero :: "'a apint_ops \<Rightarrow> expr_kind \<Rightarrow> 'a expr \<Rightarrow> bool" where
  "folds_zero A k r \<longleftrightarrow> div_kind k \<and> (case as_const r of Some c \<Rightarrow> isZero A c | None \<Rightarrow> False)"

context apint_env
begin

section \<open>Selections and reads\<close>

lemma Not_create_built: "wt A e \<Longrightarrow> built A rho (Some (Not_create A e)) (getWidth A e) (ap_not A (eval A rho e))"
  by (auto simp: Not_create_def not_width split: option.splits dest: as_const_SomeD)

lemma bit_select:
  assumes "ap_width A c = 1" "ap_width A t = 1" "ap_width A f = 1" and z: "z = ap_make A 1 (of_bool (ap_uint A c = 0))"
  shows "ap_uint A t \<noteq> 0 \<Longrightarrow> ap_or A c f = (if ap_uint A c = 1 then t else f)"
    "ap_uint A t = 0 \<Longrightarrow> ap_and A z f = (if ap_uint A c = 1 then t else f)"
    "ap_uint A f \<noteq> 0 \<Longrightarrow> ap_or A z t = (if ap_uint A c = 1 then t else f)"
    "ap_uint A f = 0 \<Longrightarrow> ap_and A c t = (if ap_uint A c = 1 then t else f)"
proof -
  have s: "ap_same A c f" "ap_same A z f" "ap_same A z t" "ap_same A c t" using assms by (simp_all add: ap_same_def)
  have u: "ap_uint A z = of_bool (ap_uint A c = 0)" "ap_width A z = 1" using z by simp_all
  note cs = bit_cases [OF assms(1)] bit_cases [OF assms(2)] bit_cases [OF assms(3)]
  show "ap_uint A t \<noteq> 0 \<Longrightarrow> ap_or A c f = (if ap_uint A c = 1 then t else f)"
    "ap_uint A t = 0 \<Longrightarrow> ap_and A z f = (if ap_uint A c = 1 then t else f)"
    "ap_uint A f \<noteq> 0 \<Longrightarrow> ap_or A z t = (if ap_uint A c = 1 then t else f)"
    "ap_uint A f = 0 \<Longrightarrow> ap_and A c t = (if ap_uint A c = 1 then t else f)"
    by (rule ap_eqI; use cs s u assms(1-3) in \<open>auto simp: and_width or_width and_uint or_uint\<close>)+
qed

lemma Select_create_built:
  assumes P: "wt A c" "wt A t" "wt A f" "getWidth A c = 1" "getWidth A t = getWidth A f"
  shows "built A rho (Select_create A c t f) (getWidth A t) (eval A rho (SelectExpr c t f))"
proof -
  have wc: "ap_width A (eval A rho c) = 1" using P wt_width by simp
  define z where z: "z = ap_make A 1 (of_bool (ap_uint A (eval A rho c) = 0))"
  consider (c) ce where "c = ConstantExpr ce" | (eq) "as_const c = None" "t = f"
    | (t) ce where "as_const c = None" "t \<noteq> f" "getWidth A t = 1" "t = ConstantExpr ce"
    | (f) ce where "as_const c = None" "t \<noteq> f" "getWidth A t = 1" "as_const t = None" "f = ConstantExpr ce"
    | (plain) "as_const c = None" "t \<noteq> f" "getWidth A t = 1 \<longrightarrow> as_const t = None \<and> as_const f = None"
    by (metis as_const_SomeD option.exhaust)
  then show ?thesis
  proof cases
    case c
    then show ?thesis using P wc bit_cases [of ce] by (auto simp: Select_create_def isTrue_def)
  next
    case eq
    then show ?thesis using P by (simp add: Select_create_def)
  next
    case (t ce)
    have w: "ap_width A ce = 1" "ap_width A (eval A rho f) = 1" and f1: "getWidth A f = 1" using t P wt_width [of f] by simp_all
    have v: "eval A rho (SelectExpr c t f) = (if ap_uint A (eval A rho c) = 1 then ce else eval A rho f)" using t by simp
    have zero: "ap_uint A ce = 0" if "\<not> isTrue A ce" using that w(1) by (simp add: isTrue_def)
    have "Select_create A c t f = (if isTrue A ce then Or_create A c f else do { n \<leftarrow> createIsZero A c; And_create A n f })"
      using t P(4,5) by (simp add: Select_create_def)
    moreover have "built A rho (Or_create A c f) 1 (eval A rho (SelectExpr c t f))" if "isTrue A ce"
      unfolding v bit_select(1) [OF wc w z, symmetric, OF that [unfolded isTrue_def, THEN conjunct2]]
      using Or_create_built [OF P(1,3)] P(4) f1 by simp
    moreover have "built A rho (do { n \<leftarrow> createIsZero A c; And_create A n f }) 1 (eval A rho (SelectExpr c t f))" if "\<not> isTrue A ce"
      unfolding v bit_select(2) [OF wc w z, symmetric, OF zero [OF that]]
      by (rule negated_operand_built(1) [OF P(1,3,4) f1, folded z])
    ultimately show ?thesis unfolding t(3) by (cases "isTrue A ce") (simp_all only: if_True if_False simp_thms)
  next
    case (f ce)
    have w: "ap_width A (eval A rho t) = 1" "ap_width A ce = 1" using f P wt_width [of t] by simp_all
    have v: "eval A rho (SelectExpr c t f) = (if ap_uint A (eval A rho c) = 1 then eval A rho t else ce)" using f by simp
    have zero: "ap_uint A ce = 0" if "\<not> isTrue A ce" using that w(2) by (simp add: isTrue_def)
    have "Select_create A c t f = (if isTrue A ce then do { n \<leftarrow> createIsZero A c; Or_create A n t } else And_create A c t)"
      using f P(4,5) by (simp add: Select_create_def)
    moreover have "built A rho (do { n \<leftarrow> createIsZero A c; Or_create A n t }) 1 (eval A rho (SelectExpr c t f))" if "isTrue A ce"
      unfolding v bit_select(3) [OF wc w z, symmetric, OF that [unfolded isTrue_def, THEN conjunct2]]
      by (rule negated_operand_built(2) [OF P(1,2,4) f(3), folded z])
    moreover have "built A rho (And_create A c t) 1 (eval A rho (SelectExpr c t f))" if "\<not> isTrue A ce"
      unfolding v bit_select(4) [OF wc w z, symmetric, OF zero [OF that]]
      using And_create_built [OF P(1,2)] P(4) f(3) by simp
    ultimately show ?thesis unfolding f(3) by (cases "isTrue A ce") (simp_all only: if_True if_False simp_thms)
  next
    case plain
    then have "Select_create A c t f = Some (SelectExpr c t f)" using P(4,5) by (simp add: Select_create_def)
    then show ?thesis using P by simp
  qed
qed

text \<open>What the loop over the updates of a read leaves to read.\<close>

definition scanned :: "'a array \<Rightarrow> 'a updates \<Rightarrow> 'a \<Rightarrow> 'a scan \<Rightarrow> bool" where
  "scanned a us i s = (case s of
     Found v \<Rightarrow> wt A v \<and> getWidth A v = a_range a \<and> eval A rho v = eval_read A rho a us i
   | Rest un b \<Rightarrow> wt_updates A a un \<and> eval_read A rho a un i = eval_read A rho a us i \<and> (\<not> b \<longrightarrow> un = NoUpdate))"


lemma read_scan_scanned:
  "wt_updates A a us \<Longrightarrow> wt A index \<Longrightarrow> getWidth A index = a_domain a
    \<Longrightarrow> \<exists>s. read_scan A us index = Some s \<and> scanned a us (eval A rho index) s"
proof (induction us rule: updates.induct [of "\<lambda>_. True"])
  case (UpdateNode us j v)
  then obtain s where s: "read_scan A us index = Some s" "scanned a us (eval A rho index) s" by auto
  have "built A rho (Eq_create A index j) 1 (ap_make A 1 (of_bool (eval A rho index = eval A rho j)))"
    using Eq_create_built(1) [OF refl, of index j] UpdateNode.prems by simp
  then obtain cond where c: "Eq_create A index j = Some cond"
      "eval A rho cond = ap_make A 1 (of_bool (eval A rho index = eval A rho j))"
    by (auto simp: built_def split: option.splits)
  show ?case
  proof (cases "as_const cond")
    case None
    then show ?thesis using c UpdateNode.prems by (simp add: scanned_def)
  next
    case (Some ce)
    then have "isTrue A ce \<longleftrightarrow> eval A rho j = eval A rho index" using c(2) as_const_SomeD [OF Some] by (auto simp: isTrue_def)
    then show ?thesis using c(1) Some s UpdateNode.prems by (auto simp: scanned_def split: scan.splits)
  qed
qed (simp_all add: scanned_def)

lemma Read_create_built:
  assumes P: "array_ok A a" "wt_updates A a us" "wt A index" "getWidth A index = a_domain a"
  shows "built A rho (Read_create A a us index) (a_range a) (eval A rho (ReadExpr a us index))"
proof -
  obtain s where s: "read_scan A us index = Some s" "scanned a us (eval A rho index) s"
    using read_scan_scanned [OF P(2-4)] by blast
  show ?thesis
  proof (cases s)
    case (Found v)
    then show ?thesis using s by (simp add: Read_create_def scanned_def)
  next
    case (Rest un b)
    show ?thesis
    proof (cases "as_const index")
      case None
      then show ?thesis using s Rest P by (simp add: Read_create_def)
    next
      case (Some ce)
      note i = as_const_SomeD [OF Some]
      have ce: "ap_width A ce = a_domain a" "a_domain a \<le> 64" using P i by (simp_all add: array_ok_def)
      have v: "ap_width A (a_values a ! n) = a_range a" "0 < a_range a" if "n < length (a_values a)" for n
        using P(1) that by (auto simp: array_ok_def list_all_length)
      have "a_values a \<noteq> [] \<Longrightarrow> length (a_values a) = a_size a" using P(1) by (auto simp: array_ok_def)
      then show ?thesis using s Rest P Some i ce v
        by (auto simp: Read_create_def scanned_def initial_byte_def)
    qed
  qed
qed

section \<open>Extracts, concatenations and casts\<close>

lemma uint_bit: "bit (ap_uint A x) n \<Longrightarrow> n < ap_width A x"
  using ap_range [of x] by (metis bit_take_bit_iff)

lemma concat_bit_iff:
  assumes "n = ap_width A y"
  shows "bit (push_bit n u + ap_uint A y) m \<longleftrightarrow> (if m < n then bit (ap_uint A y) m else bit u (m - n))"
proof -
  have "push_bit n u + ap_uint A y = concat_bit n (ap_uint A y) u"
    using ap_range [of y] assms by (simp add: concat_bit_eq)
  then show ?thesis by (auto simp: bit_concat_bit_iff)
qed

lemma extract_whole: "0 < ap_width A x \<Longrightarrow> ap_make A (ap_width A x) (drop_bit 0 (ap_uint A x)) = x"
  using ap_range [of x] by (intro ap_eqI) (simp_all add: make_width make_uint)

lemma Constant_Extract_value:
  assumes "0 < w" "off + w \<le> ap_width A c"
  shows "Constant_Extract A c off w = ap_make A w (drop_bit off (ap_uint A c))"
proof (rule ap_eqI)
  have m: "min (ap_width A c - Suc 0) (off + n) = off + n" if "n < w" for n using assms that by simp
  have "off < ap_width A c" using assms by simp
  then show "ap_uint A (Constant_Extract A c off w) = ap_uint A (ap_make A w (drop_bit off (ap_uint A c)))"
    using assms by (intro bit_eqI) (auto simp: Constant_Extract_def zext_uint ashr_by_uint make_uint bit_take_bit_iff bit_drop_bit_eq
        ap_sint_def bit_signed_take_bit_iff m)
qed (use assms in \<open>simp add: Constant_Extract_def zext_width make_width\<close>)

lemma Constant_Concat_value:
  assumes "0 < ap_width A x" "0 < ap_width A y"
  shows "Constant_Concat A x y = ap_make A (ap_width A x + ap_width A y) (push_bit (ap_width A y) (ap_uint A x) + ap_uint A y)"
proof (rule ap_eqI)
  let ?W = "ap_width A x + ap_width A y"
  have n: "ap_width A y < ap_width A (ap_zextOrTrunc A x ?W)" using assms by (simp add: zext_width)
  have s: "ap_same A (ap_shl_by A (ap_zextOrTrunc A x ?W) (ap_width A y)) (ap_zextOrTrunc A y ?W)"
    using assms shl_by_width [OF n] by (simp add: ap_same_def zext_width)
  show "ap_width A (Constant_Concat A x y) = ap_width A (ap_make A ?W (push_bit (ap_width A y) (ap_uint A x) + ap_uint A y))"
    using or_width [OF s] shl_by_width [OF n] assms by (simp add: Constant_Concat_def Let_def zext_width make_width)
  show "ap_uint A (Constant_Concat A x y) = ap_uint A (ap_make A ?W (push_bit (ap_width A y) (ap_uint A x) + ap_uint A y))"
    using or_uint [OF s] shl_by_uint [OF n] assms
    by (intro bit_eqI) (auto simp: Constant_Concat_def Let_def zext_width zext_uint make_uint bit_or_iff bit_take_bit_iff
        bit_push_bit_iff concat_bit_iff dest: uint_bit)
qed

text \<open>\<open>joined x y\<close> has the bits of \<open>x\<close> above those of \<open>y\<close>.\<close>

definition joined :: "'a \<Rightarrow> 'a \<Rightarrow> 'a" where
  "joined x y = ap_make A (ap_width A x + ap_width A y) (push_bit (ap_width A y) (ap_uint A x) + ap_uint A y)"

definition cut :: "'a \<Rightarrow> nat \<Rightarrow> nat \<Rightarrow> 'a" where
  "cut x off w = ap_make A w (drop_bit off (ap_uint A x))"

lemma joined_bits:
  assumes "0 < ap_width A y"
  shows "ap_width A (joined x y) = ap_width A x + ap_width A y"
    "bit (ap_uint A (joined x y)) m \<longleftrightarrow> (if m < ap_width A y then bit (ap_uint A y) m else bit (ap_uint A x) (m - ap_width A y))"
  using assms by (auto simp: joined_def make_width make_uint bit_take_bit_iff concat_bit_iff dest: uint_bit)

lemma cut_bits:
  assumes "0 < w"
  shows "ap_width A (cut x off w) = w" "bit (ap_uint A (cut x off w)) m \<longleftrightarrow> m < w \<and> bit (ap_uint A x) (off + m)"
  using assms by (auto simp: cut_def make_width make_uint bit_take_bit_iff bit_drop_bit_eq)

lemma value_eqI: "ap_width A x = ap_width A y \<Longrightarrow> (\<And>m. m < ap_width A x \<Longrightarrow> bit (ap_uint A x) m = bit (ap_uint A y) m) \<Longrightarrow> x = y"
  by (rule ap_eqI, assumption, rule bit_eqI) (metis uint_bit)

lemma cut_joined:
  assumes "0 < ap_width A y" "0 < w" "off + w \<le> ap_width A x + ap_width A y"
  shows "ap_width A y \<le> off \<Longrightarrow> cut (joined x y) off w = cut x (off - ap_width A y) w"
    "off + w \<le> ap_width A y \<Longrightarrow> cut (joined x y) off w = cut y off w"
    "off < ap_width A y \<Longrightarrow> ap_width A y < off + w
      \<Longrightarrow> joined (cut x 0 (w + off - ap_width A y)) (cut y off (ap_width A y - off)) = cut (joined x y) off w"
  by (rule value_eqI; use assms in \<open>auto simp: cut_bits joined_bits add.commute\<close>)+

lemma joined_cuts:
  assumes "0 < wl" "0 < wr"
  shows "joined (cut x (offr + wr) wl) (cut x offr wr) = cut x offr (wl + wr)"
  by (rule value_eqI) (use assms in \<open>auto simp: cut_bits joined_bits add.commute\<close>)

lemma eval_joined: "wt A l \<Longrightarrow> wt A r \<Longrightarrow> eval A rho (ConcatExpr l r) = joined (eval A rho l) (eval A rho r)"
  using wt_width by (simp add: joined_def)

lemma joined_make: "wt A l \<Longrightarrow> wt A r \<Longrightarrow> joined (eval A rho l) (eval A rho r)
    = ap_make A (getWidth A l + getWidth A r) (push_bit (getWidth A r) (ap_uint A (eval A rho l)) + ap_uint A (eval A rho r))"
  using wt_width by (simp add: joined_def)

lemma built_cut_bind:
  assumes l: "built A rho x wx (cut vl ol wx)" and r: "\<And>e. x = Some e \<Longrightarrow> built A rho y wy (cut vr or' wy)"
    and c: "\<And>e f. x = Some e \<Longrightarrow> y = Some f \<Longrightarrow> wt A e \<Longrightarrow> wt A f
      \<Longrightarrow> built A rho (Concat_create A e f) (getWidth A e + getWidth A f) (joined (eval A rho e) (eval A rho f))"
  shows "built A rho (do { e \<leftarrow> x; f \<leftarrow> y; Concat_create A e f }) (wx + wy) (joined (cut vl ol wx) (cut vr or' wy))"
proof (rule built_bind_Some [OF l])
  fix e assume e: "x = Some e" "wt A e" "getWidth A e = wx" "eval A rho e = cut vl ol wx"
  show "built A rho (Option.bind y (Concat_create A e)) (wx + wy) (joined (cut vl ol wx) (cut vr or' wy))"
  proof (rule built_bind_Some [OF r [OF e(1)]])
    fix f assume f: "y = Some f" "wt A f" "getWidth A f = wy" "eval A rho f = cut vr or' wy"
    show "built A rho (Concat_create A e f) (wx + wy) (joined (cut vl ol wx) (cut vr or' wy))"
      using c [OF e(1) f(1) e(2) f(2)] e(3,4) f(3,4) by simp
  qed
qed

lemma Extract_Concat_built:
  "B = A \<Longrightarrow> wt A e \<Longrightarrow> 0 < w \<Longrightarrow> off + w \<le> getWidth A e \<Longrightarrow> built A rho (Extract_create B e off w) w (cut (eval A rho e) off w)"
  "B = A \<Longrightarrow> wt A l \<Longrightarrow> wt A r
    \<Longrightarrow> built A rho (Concat_create B l r) (getWidth A l + getWidth A r) (joined (eval A rho l) (eval A rho r))"
proof (induction B e off w and B l r rule: Extract_create_Concat_create.induct)
  case (1 B e off w)
  note IH = "1.IH" [unfolded "1.prems"(1)] and P = "1.prems"(2-4)
  have c: "\<not> \<not> (0 < w \<and> off + w \<le> getWidth A e)" using P by simp
  have we: "ap_width A (eval A rho e) = getWidth A e" "0 < getWidth A e" using wt_width [OF P(1)] by simp_all
  consider (whole) "w = getWidth A e" | (const) c where "w \<noteq> getWidth A e" "as_const e = Some c"
    | (concat) a b where "w \<noteq> getWidth A e" "as_const e = None" "concat_kids e = Some (a, b)"
    | (plain) "w \<noteq> getWidth A e" "as_const e = None" "concat_kids e = None" by (metis option.exhaust surj_pair)
  then have "built A rho (Extract_create A e off w) w (cut (eval A rho e) off w)"
  proof cases
    case whole
    then show ?thesis using P extract_whole [of "eval A rho e"] we by (subst Extract_create.simps) (simp add: cut_def)
  next
    case (const c)
    then show ?thesis using P as_const_SomeD [OF const(2)] Constant_Extract_value [of w off c]
      by (subst Extract_create.simps) (simp add: cut_def make_width)
  next
    case (concat a b)
    note k = concat refl
    have e: "e = ConcatExpr a b" by (rule concat_kids_SomeD [OF concat(3)])
    then have ab: "wt A a" "wt A b" "ap_width A (eval A rho a) = getWidth A a" "ap_width A (eval A rho b) = getWidth A b"
        "0 < getWidth A b" using P(1) wt_width by simp_all
    have j: "eval A rho e = joined (eval A rho a) (eval A rho b)" using e ab eval_joined by simp
    note cj = cut_joined [of "eval A rho b" w off "eval A rho a", unfolded ab(3,4)]
    have le: "off + w \<le> getWidth A a + getWidth A b" using P(3) e by simp
    consider "getWidth A b \<le> off" | "\<not> getWidth A b \<le> off" "off + w \<le> getWidth A b"
      | "\<not> getWidth A b \<le> off" "\<not> off + w \<le> getWidth A b" by blast
    then show ?thesis
    proof cases
      case 1
      then show ?thesis using IH(1) [OF c k 1 refl ab(1) P(2)] c concat cj(1) [OF ab(5) P(2) le] le j
        by (subst Extract_create.simps) simp
    next
      case 2
      then show ?thesis using IH(2) [OF c k 2 refl ab(2) P(2)] c concat cj(2) [OF ab(5) P(2) le] j
        by (subst Extract_create.simps) simp
    next
      case 3
      have l: "built A rho (Extract_create A a 0 (w + off - getWidth A b)) (w + off - getWidth A b)
          (cut (eval A rho a) 0 (w + off - getWidth A b))"
        using IH(3) [OF c k 3 refl ab(1)] 3 le by simp
      have r: "built A rho (Extract_create A b off (getWidth A b - off)) (getWidth A b - off)
          (cut (eval A rho b) off (getWidth A b - off))" if "Extract_create A a 0 (w + off - getWidth A b) = Some x" for x
        using IH(4) [OF c k 3 that refl ab(2)] 3 by simp
      note built_cut_bind [OF l r IH(5) [OF c k 3 _ _ refl]]
      then show ?thesis using 3 c concat cj(3) [OF ab(5) P(2) le] le j by (subst Extract_create.simps) simp
    qed
  next
    case plain
    then show ?thesis using P by (subst Extract_create.simps) (simp add: cut_def)
  qed
  then show ?case using "1.prems"(1) by simp
next
  case (2 B l r)
  note IH = "2.IH" [unfolded "2.prems"(1)] and P = "2.prems"(2,3)
  have w: "0 < getWidth A l" "0 < getWidth A r" "ap_width A (eval A rho l) = getWidth A l" "ap_width A (eval A rho r) = getWidth A r"
    using wt_width P by simp_all
  have plain: "built A rho (Some (ConcatExpr l r)) (getWidth A l + getWidth A r) (joined (eval A rho l) (eval A rho r))"
    using P eval_joined by simp
  consider (const) x y where "as_const l = Some x" "as_const r = Some y"
    | (merge) e offr wl wr where "l = ExtractExpr e (offr + wr) wl" "r = ExtractExpr e offr wr"
    | (other) "\<nexists>x y. as_const l = Some x \<and> as_const r = Some y"
        "\<nexists>e offr wl wr. l = ExtractExpr e (offr + wr) wl \<and> r = ExtractExpr e offr wr" by blast
  then have "built A rho (Concat_create A l r) (getWidth A l + getWidth A r) (joined (eval A rho l) (eval A rho r))"
  proof cases
    case (const x y)
    then show ?thesis using as_const_SomeD [OF const(1)] as_const_SomeD [OF const(2)] Constant_Concat_value [of x y] w
      by (subst Concat_create.simps) (simp add: joined_def make_width)
  next
    case (merge e offr wl wr)
    then have e: "wt A e" "0 < wl" "0 < wr" "offr + (wl + wr) \<le> getWidth A e" using P by simp_all
    have rec: "built A rho (Extract_create A e offr (wl + wr)) (wl + wr) (cut (eval A rho e) offr (wl + wr))"
      using IH merge e by (simp add: extract_kids_def)
    moreover have "Concat_create A l r = Extract_create A e offr (wl + wr)"
      using merge by (subst Concat_create.simps) (simp add: extract_kids_def)
    moreover have "joined (eval A rho l) (eval A rho r) = cut (eval A rho e) offr (wl + wr)"
      using merge joined_cuts [OF e(2,3), of "eval A rho e" offr] by (simp add: cut_def)
    ultimately show ?thesis using merge by simp
  next
    case other
    then have "Concat_create A l r = Some (ConcatExpr l r)"
      by (subst Concat_create.simps) (auto split: option.splits dest!: extract_kids_SomeD)
    then show ?thesis using plain by simp
  qed
  then show ?case using "2.prems"(1) by simp
qed

lemmas Extract_create_built = Extract_Concat_built(1) [OF refl] and Concat_create_built = Extract_Concat_built(2) [OF refl]

lemma ZExt_create_built:
  assumes "wt A e" "0 < w"
  shows "built A rho (ZExt_create A e w) w (ap_make A w (ap_uint A (eval A rho e)))"
proof -
  have we: "ap_width A (eval A rho e) = getWidth A e" "0 < getWidth A e" using wt_width assms by simp_all
  show ?thesis
    using assms extract_whole [of "eval A rho e"] we Extract_create_built [OF assms, of 0]
    by (auto simp: ZExt_create_def cut_def ext_make zext_width make_width split: option.splits dest: as_const_SomeD)
qed

lemma SExt_create_built:
  assumes "wt A e" "0 < w"
  shows "built A rho (SExt_create A e w) w
    (ap_make A w (if w < getWidth A e then ap_uint A (eval A rho e) else ap_sint A (eval A rho e)))"
proof -
  have we: "ap_width A (eval A rho e) = getWidth A e" "0 < getWidth A e" using wt_width assms by simp_all
  have "ap_make A (getWidth A e) (ap_sint A (eval A rho e)) = eval A rho e"
    using trunc_sext [of "eval A rho e" "getWidth A e"] we ap_range [of "eval A rho e"]
    by (intro ap_eqI) (simp_all add: make_width make_uint ap_sint_def take_bit_signed_take_bit)
  then show ?thesis
    using assms we Extract_create_built [OF assms, of 0]
    by (auto simp: SExt_create_def cut_def ext_make sext_width make_width split: option.splits dest: as_const_SomeD)
qed

section \<open>Types\<close>

lemma Division_create_typed:
  assumes P: "wt A l" "wt A r" "getWidth A l = getWidth A r" "div_kind k" "\<not> folds_zero A k r"
  shows "\<exists>e. Binary_create A k l r = Some e \<and> wt A e \<and> getWidth A e = getWidth A l"
proof -
  have c: "0 < ap_width A (Constant_op A k x y) \<and> ap_width A (Constant_op A k x y) = ap_width A x"
    if "l = ConstantExpr x" "r = ConstantExpr y" for x y
    using P that sem_op_width [of x y k] by (auto simp: folds_zero_def isZero_def sem_op_def div_kind_def is_cmp_def ap_same_def)
  have z: "Constant_create A 0 1 = Some (ConstantExpr (ap_make A 1 0))" by (simp add: Constant_create_def)
  have "k = UDiv \<or> k = SDiv \<or> k = URem \<or> k = SRem" "\<not> is_cmp k" using P(4) by (auto simp: div_kind_def is_cmp_def)
  then show ?thesis
    using P(1-3) c z
    by (cases "as_const l"; cases "as_const r")
      (auto simp: BCREATE_def BCREATE_R_def DivExpr_create_def RemExpr_create_def make_width dest!: as_const_SomeD)
qed

end

text \<open>The bytes of every array are zero; used where only the types matter.\<close>

lemma zero_env_ok: "apint A \<Longrightarrow> env_ok A (\<lambda>a i. ap_make A (a_range a) 0)"
  by (simp add: env_ok_def apint.make_width)

interpretation zero_env: apint_env bv_ops "\<lambda>a i. ap_make bv_ops (a_range a) 0"
  by (rule apint_env.intro [OF bv.apint_axioms]) (unfold_locales, rule zero_env_ok [OF bv.apint_axioms])

lemma built_iff: "built A rho x w v \<longleftrightarrow> (\<exists>e. x = Some e \<and> wt A e \<and> getWidth A e = w \<and> eval A rho e = v)"
  by (auto simp: built_def split: option.splits)

lemma apint_envI: "apint A \<Longrightarrow> env_ok A rho \<Longrightarrow> apint_env A rho"
  by (simp add: apint_env_def apint_env_axioms_def)

section \<open>The expression library\<close>

text \<open>C8. Type soundness of the expression builders. For every implementation of the documented arithmetic of
  constants, every builder that is given well-typed arguments with the widths its node asks for passes all of
  its assertions and returns a well-typed expression with the width of the node it stands for: the width of the
  operands for arithmetic, one for comparisons, the sum of both widths for concatenations and the given width for
  extracts and for extensions to any width. Quotients and remainders whose divisor is the constant zero are left out:
  the builders fold them with \<^verbatim>\<open>APInt\<close> operations that do not allow this divisor.\<close>

theorem builders_well_typed:
  assumes "apint A"
  shows "(\<forall>k l r. wt A l \<and> wt A r \<and> getWidth A l = getWidth A r \<and> \<not> folds_zero A k r \<longrightarrow>
        (\<exists>e. Binary_create A k l r = Some e \<and> wt A e \<and> getWidth A e = (if is_cmp k then 1 else getWidth A l)))
    \<and> (\<forall>c l r. wt A c \<and> getWidth A c = 1 \<and> wt A l \<and> wt A r \<and> getWidth A l = getWidth A r \<longrightarrow>
        (\<exists>e. Select_create A c l r = Some e \<and> wt A e \<and> getWidth A e = getWidth A l))
    \<and> (\<forall>l r. wt A l \<and> wt A r \<longrightarrow>
        (\<exists>e. Concat_create A l r = Some e \<and> wt A e \<and> getWidth A e = getWidth A l + getWidth A r))
    \<and> (\<forall>l off w. wt A l \<and> 0 < w \<and> off + w \<le> getWidth A l \<longrightarrow>
        (\<exists>e. Extract_create A l off w = Some e \<and> wt A e \<and> getWidth A e = w))
    \<and> (\<forall>l w. wt A l \<and> 0 < w \<longrightarrow> (\<exists>e. ZExt_create A l w = Some e \<and> wt A e \<and> getWidth A e = w))
    \<and> (\<forall>l w. wt A l \<and> 0 < w \<longrightarrow> (\<exists>e. SExt_create A l w = Some e \<and> wt A e \<and> getWidth A e = w))
    \<and> (\<forall>a us i. array_ok A a \<and> wt_updates A a us \<and> wt A i \<and> getWidth A i = a_domain a \<longrightarrow>
        (\<exists>e. Read_create A a us i = Some e \<and> wt A e \<and> getWidth A e = a_range a))
    \<and> (\<forall>l. wt A l \<longrightarrow> wt A (Not_create A l) \<and> getWidth A (Not_create A l) = getWidth A l)"
proof (intro conjI allI impI; (elim conjE)?)
  note E = apint_envI [OF assms zero_env_ok [OF assms]]
  fix k l r
  assume e: "wt A l" "wt A r" "getWidth A l = getWidth A r" "\<not> folds_zero A k r"
  show "\<exists>e. Binary_create A k l r = Some e \<and> wt A e \<and> getWidth A e = (if is_cmp k then 1 else getWidth A l)"
  proof (cases "div_kind k")
    case True
    then have "\<not> is_cmp k" by (auto simp: div_kind_def is_cmp_def)
    then show ?thesis using apint_env.Division_create_typed [OF E e(1-3) True e(4)] by simp
  next
    case False
    then show ?thesis using apint_env.Binary_create_built [OF E e(1-3), of k] unfolding built_iff by blast
  qed
next
  note E = apint_envI [OF assms zero_env_ok [OF assms]]
  show "\<exists>e. Select_create A c l r = Some e \<and> wt A e \<and> getWidth A e = getWidth A l"
    if "wt A c" "getWidth A c = 1" "wt A l" "wt A r" "getWidth A l = getWidth A r" for c l r
    using apint_env.Select_create_built [OF E that(1,3,4,2,5)] unfolding built_iff by blast
  show "\<exists>e. Concat_create A l r = Some e \<and> wt A e \<and> getWidth A e = getWidth A l + getWidth A r" if "wt A l" "wt A r" for l r
    using apint_env.Concat_create_built [OF E that] unfolding built_iff by blast
  show "\<exists>e. Extract_create A l off w = Some e \<and> wt A e \<and> getWidth A e = w"
    if "wt A l" "0 < w" "off + w \<le> getWidth A l" for l off w
    using apint_env.Extract_create_built [OF E that] unfolding built_iff by blast
  show "\<exists>e. ZExt_create A l w = Some e \<and> wt A e \<and> getWidth A e = w" if "wt A l" "0 < w" for l w
    using apint_env.ZExt_create_built [OF E that] unfolding built_iff by blast
  show "\<exists>e. SExt_create A l w = Some e \<and> wt A e \<and> getWidth A e = w" if "wt A l" "0 < w" for l w
    using apint_env.SExt_create_built [OF E that] unfolding built_iff by blast
  show "\<exists>e. Read_create A a us i = Some e \<and> wt A e \<and> getWidth A e = a_range a"
    if "array_ok A a" "wt_updates A a us" "wt A i" "getWidth A i = a_domain a" for a us i
    using apint_env.Read_create_built [OF E that] unfolding built_iff by blast
  show "wt A (Not_create A l)" "getWidth A (Not_create A l) = getWidth A l" if "wt A l" for l
    using apint_env.Not_create_built [OF E that] by simp_all
qed

text \<open>A one-byte symbolic array and a read of it, for the examples.\<close>

definition ex_array :: "bool list array" where
  "ex_array = Array 0 ''x'' 4 32 8 []"

definition ex_read :: "bool list expr" where
  "ex_read = ReadExpr ex_array NoUpdate (ConstantExpr (bv_of 32 1))"

lemma ex_typed: "array_ok bv_ops ex_array" "wt bv_ops ex_read" "getWidth bv_ops ex_read = 8"
    "ap_width bv_ops (bv_of n v) = n" "a_domain ex_array = 32"
  by (simp_all add: ex_array_def ex_read_def array_ok_def bv_ops_def)

theorem builders_well_typed_witness:
  "(\<exists>e. Binary_create bv_ops Sub ex_read (ConstantExpr (bv_of 8 5)) = Some e \<and> wt bv_ops e \<and> getWidth bv_ops e = 8)
    \<and> (\<exists>e. Concat_create bv_ops ex_read ex_read = Some e \<and> wt bv_ops e \<and> getWidth bv_ops e = 16)
    \<and> (\<exists>e. SExt_create bv_ops ex_read 32 = Some e \<and> wt bv_ops e \<and> getWidth bv_ops e = 32)"
proof -
  note T = builders_well_typed [OF bv.apint_axioms]
  have "\<exists>e. Binary_create bv_ops Sub ex_read (ConstantExpr (bv_of 8 5)) = Some e \<and> wt bv_ops e \<and> getWidth bv_ops e = 8"
    using T [THEN conjunct1, rule_format, of ex_read "ConstantExpr (bv_of 8 5)" Sub]
    by (simp add: ex_typed folds_zero_def div_kind_def is_cmp_def)
  moreover have "\<exists>e. Concat_create bv_ops ex_read ex_read = Some e \<and> wt bv_ops e \<and> getWidth bv_ops e = 8 + 8"
    using T [THEN conjunct2, THEN conjunct2, THEN conjunct1, rule_format, of ex_read ex_read] ex_typed(2,3) by simp
  moreover have "\<exists>e. SExt_create bv_ops ex_read 32 = Some e \<and> wt bv_ops e \<and> getWidth bv_ops e = 32"
    using T [THEN conjunct2, THEN conjunct2, THEN conjunct2, THEN conjunct2, THEN conjunct2, THEN conjunct1, rule_format, of ex_read 32]
      ex_typed(2) by simp
  ultimately show ?thesis by simp
qed

text \<open>C7. The simplifications of the binary builders are sound. Whatever well-typed operands of equal width
  they are given, the expression that \<^verbatim>\<open>create\<close> returns for any of the 23 binary kinds has, under every assignment
  of bytes to arrays, the value of the operation on the values of the operands; for quotients and remainders under
  the condition that the divisor is not zero there. This covers the folding of constants, the reassociation of
  sums, the one-bit cases and the rewriting of equalities.\<close>

theorem binary_create_sound:
  assumes "apint A" "env_ok A rho" "wt A l" "wt A r" "getWidth A l = getWidth A r"
    "div_kind k \<Longrightarrow> ap_uint A (eval A rho r) \<noteq> 0"
  shows "\<exists>e. Binary_create A k l r = Some e \<and> eval A rho e = Constant_op A k (eval A rho l) (eval A rho r)"
proof -
  have "sem_op A k (eval A rho l) (eval A rho r) = Constant_op A k (eval A rho l) (eval A rho r)"
    using assms(6) by (auto simp: sem_op_def)
  then show ?thesis
    using apint_env.Binary_create_built [OF apint_envI [OF assms(1,2)] assms(3-5), of k] assms(6) unfolding built_iff by auto
qed

theorem binary_create_sound_witness:
  "\<exists>e. Binary_create bv_ops Add (BinaryExpr Add (ConstantExpr (bv_of 8 3)) ex_read) (ConstantExpr (bv_of 8 254)) = Some e
    \<and> eval bv_ops (\<lambda>a i. bv_of (a_range a) 7) e = bv_of 8 8"
proof -
  have env: "env_ok bv_ops (\<lambda>a i. bv_of (a_range a) 7)" by (simp add: env_ok_def bv_ops_def)
  have w: "wt bv_ops (BinaryExpr Add (ConstantExpr (bv_of 8 3)) ex_read)"
    "getWidth bv_ops (BinaryExpr Add (ConstantExpr (bv_of 8 3)) ex_read) = getWidth bv_ops (ConstantExpr (bv_of 8 254))"
    by (simp_all add: ex_typed is_cmp_def)
  have v: "Constant_op bv_ops Add (eval bv_ops (\<lambda>a i. bv_of (a_range a) 7) (BinaryExpr Add (ConstantExpr (bv_of 8 3)) ex_read))
      (eval bv_ops (\<lambda>a i. bv_of (a_range a) 7) (ConstantExpr (bv_of 8 254))) = bv_of 8 8"
    by code_simp
  show ?thesis using binary_create_sound [OF bv.apint_axioms env w(1) _ w(2), of Add] v by (simp add: div_kind_def ex_typed)
qed

text \<open>C17. The other builders keep values as well: a selection has the value of the chosen branch, a read sees the
  most recent update of its index and otherwise the initial byte, a concatenation has the bits of its left part above
  those of the right one, an extract the bits from its offset on, and an extension to any width the same number, unsigned
  or signed (to a smaller width both cut off the high bits).\<close>

theorem structural_create_sound:
  assumes "apint A" "env_ok A rho"
  shows "(\<forall>c l r. wt A c \<and> getWidth A c = 1 \<and> wt A l \<and> wt A r \<and> getWidth A l = getWidth A r \<longrightarrow>
        map_option (eval A rho) (Select_create A c l r) = Some (if ap_uint A (eval A rho c) = 1 then eval A rho l else eval A rho r))
    \<and> (\<forall>a us i. array_ok A a \<and> wt_updates A a us \<and> wt A i \<and> getWidth A i = a_domain a \<longrightarrow>
        map_option (eval A rho) (Read_create A a us i) = Some (eval_read A rho a us (eval A rho i)))
    \<and> (\<forall>l r. wt A l \<and> wt A r \<longrightarrow> map_option (eval A rho) (Concat_create A l r) =
        Some (ap_make A (getWidth A l + getWidth A r) (push_bit (getWidth A r) (ap_uint A (eval A rho l)) + ap_uint A (eval A rho r))))
    \<and> (\<forall>l off w. wt A l \<and> 0 < w \<and> off + w \<le> getWidth A l \<longrightarrow>
        map_option (eval A rho) (Extract_create A l off w) = Some (ap_make A w (drop_bit off (ap_uint A (eval A rho l)))))
    \<and> (\<forall>l w. wt A l \<and> 0 < w \<longrightarrow>
        map_option (eval A rho) (ZExt_create A l w) = Some (ap_make A w (ap_uint A (eval A rho l)))
      \<and> map_option (eval A rho) (SExt_create A l w) =
          Some (ap_make A w (if w < getWidth A l then ap_uint A (eval A rho l) else ap_sint A (eval A rho l))))"
proof -
  note E = apint_envI [OF assms]
  have v: "built A rho x n v \<Longrightarrow> map_option (eval A rho) x = Some v" for x n v by (auto simp: built_iff)
  show ?thesis
    using v [OF apint_env.Select_create_built [OF E]] v [OF apint_env.Read_create_built [OF E]]
      v [OF apint_env.Concat_create_built [OF E]] v [OF apint_env.Extract_create_built [OF E]]
      v [OF apint_env.ZExt_create_built [OF E]] v [OF apint_env.SExt_create_built [OF E]]
      apint_env.cut_def [OF E] apint_env.joined_make [OF E] by simp
qed

theorem structural_create_sound_witness:
  "map_option (eval bv_ops (\<lambda>a i. bv_of (a_range a) 7)) (Extract_create bv_ops ex_read 1 2) = Some (bv_of 2 3)
    \<and> map_option (eval bv_ops (\<lambda>a i. bv_of (a_range a) 7)) (ZExt_create bv_ops ex_read 16) = Some (bv_of 16 7)"
proof -
  let ?rho = "\<lambda>a i. bv_of (a_range a) 7"
  have env: "env_ok bv_ops ?rho" by (simp add: env_ok_def bv_ops_def)
  have v: "ap_make bv_ops 2 (drop_bit 1 (ap_uint bv_ops (eval bv_ops ?rho ex_read))) = bv_of 2 3"
      "ap_make bv_ops 16 (ap_uint bv_ops (eval bv_ops ?rho ex_read)) = bv_of 16 7"
    by code_simp+
  note T = structural_create_sound [OF bv.apint_axioms env, THEN conjunct2, THEN conjunct2, THEN conjunct2]
  show ?thesis
    using T [THEN conjunct1, rule_format, of ex_read 2 1] T [THEN conjunct2, rule_format, of ex_read 16] v ex_typed(2,3) by simp
qed

end
