(* ===== verification/Spec2Isabelle.thy ===== *)
theory Spec2Isabelle
  imports Run_Invariant Alternative Erv Cex Ringbuffer Kpr_List Pthread_Sync KTest Large_Object_Heap Expr_Bits
begin

text \<open>
  This library models the partial-order-reduction core of POR-SE (\<^verbatim>\<open>include/por\<close> and
  \<^verbatim>\<open>lib/Por\<close>), the part of the symbolic executor that represents the executions of a
  multi-threaded program as an unfolding of events.

  Theories, in import order:

  \<^item> Por_Prelude: the key-sorted association list that models \<^verbatim>\<open>std::map\<close>, with its laws as
    the locale \<open>ordered_map\<close>.
  \<^item> Thread_Id (\<^verbatim>\<open>thread_id.h\<close>): hierarchical thread ids, their small-buffer representation,
    the comparison operators and the text format.
  \<^item> Event, Cone, Alloc (\<^verbatim>\<open>event/*.h\<close>, \<^verbatim>\<open>cone.h\<close>, \<^verbatim>\<open>cone.cpp\<close>): event objects, their
    accessors, cones and constructors with all assertions.
  \<^item> Causality (\<^verbatim>\<open>event.cpp\<close>): cones characterise causality.
  \<^item> Comb, Comb_Algebra (\<^verbatim>\<open>comb.h\<close>, \<^verbatim>\<open>comb.cpp\<close>, \<^verbatim>\<open>cone::setminus\<close>): sets of events
    grouped by thread, and the set algebra they implement.
  \<^item> Combinations (\<^verbatim>\<open>comb::concurrent_combinations\<close>): the enumeration of the sets of pairwise
    concurrent events of a comb.
  \<^item> Immediate, Local_Config (\<^verbatim>\<open>immediate_predecessors\<close>, \<^verbatim>\<open>event_iterator\<close>,
    \<^verbatim>\<open>is_extension_of\<close>): maximal predecessors and the traversal of local configurations.
  \<^item> Independence (\<^verbatim>\<open>is_independent_of\<close>): the independence relation on events.
  \<^item> Unfolding, Conflicts, Dedup (\<^verbatim>\<open>unfolding.h\<close>, \<^verbatim>\<open>unfolding.cpp\<close>,
    \<^verbatim>\<open>compute_immediate_conflicts\<close>, \<^verbatim>\<open>mark_as_cutoff\<close>): the container of all events with the
    mutable members of the event objects.
  \<^item> Configuration, Commit, Run_Invariant (\<^verbatim>\<open>configuration.h\<close>): the operations of the executor,
    \<^verbatim>\<open>commit\<close> and the invariant that both keep.
  \<^item> Cex (\<^verbatim>\<open>conflicting_extensions\<close>): the events that could take the place of the events of a
    configuration under another schedule.
  \<^item> Erv (\<^verbatim>\<open>erv.cpp\<close>): the total order on local configurations that decides cutoffs.
  \<^item> Alternative (\<^verbatim>\<open>compute_alternative\<close>): the search for an alternative to a configuration.

  The POSIX runtime that the tested programs are linked with has four theories of its own:

  \<^item> Ringbuffer (\<^verbatim>\<open>runtime/POSIX/utils/ringbuffer.c\<close>): a byte queue, with its contract as the locale
    \<open>byte_queue\<close>.
  \<^item> Kpr_List (\<^verbatim>\<open>runtime/POSIX/utils/list.c\<close>): a doubly linked list on a heap of nodes.
  \<^item> Pthread_Mutex (\<^verbatim>\<open>runtime/POSIX/pthread/mutex.c\<close>): mutexes, with a step relation that
    interleaves the operations of all threads.
  \<^item> Pthread_Sync (\<^verbatim>\<open>semaphore.c\<close>, \<^verbatim>\<open>rwlock.c\<close>, \<^verbatim>\<open>barrier.c\<close> next to it): semaphores, read-write locks and
    barriers as instances of the locale \<open>monitor_invariant\<close>, whose step relation interleaves all threads.

  The deterministic allocator, which gives the tested program the same addresses in every schedule,
  has two theories:

  \<^item> Sized_Heap (\<^verbatim>\<open>include/pseudoalloc/pseudoalloc.h\<close>): slots, bitmap and quarantine of the heaps for
    objects of one size.
  \<^item> Large_Object_Heap (the same file): the free ranges of the heap for large objects.

  The expressions that states and path conditions are made of have five theories:

  \<^item> APInt: the arithmetic of constants. LLVM is not part of the sources, so its \<^verbatim>\<open>APInt\<close> is a record of
    operations with their documented laws as the locale \<open>apint\<close>; bit lists are an instance.
  \<^item> Expr_Create, Expr_Concat (\<^verbatim>\<open>lib/Expr/Expr.cpp\<close>): the node classes and every \<^verbatim>\<open>create\<close> function with its
    simplifications.
  \<^item> Expr_Sound, Expr_Bits: the value and the type of an expression, and that the builders keep both.

  The test cases that a run produces have one theory:

  \<^item> KTest (\<^verbatim>\<open>lib/Basic/KTest.cpp\<close>): the file format of test cases, with files as lists of bytes.

  Conventions. An abort (a failing assertion, a null dereference, \<^verbatim>\<open>at()\<close> on a missing key) is \<open>None\<close>,
  and the theorems that an operation works state that it is \<open>Some\<close>. \<^verbatim>\<open>std::map\<close> is a key-sorted
  association list. An event object is the value of its constant members, and a pointer to it is that
  value; the mutable members belong to the state of the unfolding. Where the source sorts by address, the
  address of an event is a parameter \<open>addr\<close>, injective on the events at hand. Configurations share the
  unfolding, so it is passed and returned next to the configuration.

  Loops. Loops along predecessors recurse on the size of the event. The iterators over local
  configurations and configurations take fuel, and it is proved that as many steps as there are events
  are enough. \<^verbatim>\<open>compute_immediate_conflicts\<close>, \<^verbatim>\<open>mark_as_cutoff\<close> and \<^verbatim>\<open>compute_alternative\<close> use
  \<open>while_option\<close>, and the loop over index vectors in \<^verbatim>\<open>concurrent_combinations\<close> has the product of the row
  lengths as fuel; it is proved that they end.

  What the theorems show. Cones decide causality (Causality); constructors, commit and deduplication keep
  the invariants of configurations and of the unfolding, whose conflict relation is exact (Conflicts,
  Dedup, Run_Invariant); an operation can be committed as long as no two events of the configuration are
  recorded as in conflict, which the lock and most thread operations maintain and the condition variable
  operations only if the new event is ordered after the events it depends on; independence is symmetric, and an
  event depends on its predecessors apart from a thread's first event on the creation of another thread
  (Independence); combs implement the set
  algebra of events (Comb_Algebra, Immediate, Combinations); the candidates for a lock acquisition are exactly
  the possible ones, apart from returns from a wait that the code leaves out (Cex); the search for an alternative returns one that is compatible (Alternative); the total
  order on local configurations is one (Erv). Every simplification of the
  expression builders keeps types and values (Expr_Bits). Semaphores count, read-write locks exclude, barriers
  work in rounds, and none of them loses a wake-up, given the specified behaviour of condition variables
  (Pthread_Sync). Written test cases are read back unchanged (KTest). The runtime and allocator theories relate each data structure
  to its abstract counterpart: the linked list to a queue, a heap of slots with its quarantine to the set of its
  objects. Several theorems state defects of the code, as they are.

  Not modelled: the output functions (\<^verbatim>\<open>to_dotgraph\<close>, statistics printing, tracing), the executor, the
  solver chain and the module passes, which are built on LLVM and on external solvers, the hashing, printing
  and parsing of expressions, memory fingerprints computed by a third-party hash library, the
  context-switch degree, the exploration tree and the event manager that connects the executor to the
  configuration, and the file and socket emulation and the named semaphores of the POSIX runtime; the functions of
  \<^verbatim>\<open>cond.c\<close> are not expanded in Pthread_Sync. Of \<^verbatim>\<open>cex_wait1\<close>, \<^verbatim>\<open>cex_notification\<close>
  and the two public functions for conflicting extensions there are definitions, but no theorem about all
  of their results.
\<close>

end
